(* ===== verification/Nt_Prelude.thy ===== *)
theory Nt_Prelude
  imports Main "HOL-Library.Word" "HOL-Library.Sublist"
begin

text \<open>
  Shared vocabulary of the development: the machine integers of the Rust sources,
  little-endian byte encodings, slices of fixed-size arrays and the way a Rust
  panic is written as a value.  The component theories import this one.
\<close>

unbundle bit_operations_syntax

section \<open>Machine integers and results\<close>

type_synonym u8 = "8 word"
type_synonym u16 = "16 word"
type_synonym u32 = "32 word"
type_synonym u64 = "64 word"
type_synonym u128 = "128 word"
type_synonym i32 = "32 word"
type_synonym usize = nat

text \<open>
  Indexing an array out of range, or an arithmetic overflow checked by the
  compiler, stops the Rust program.  Operations of the sources that can stop that
  way return \<open>Inl\<close> of the reason.
\<close>

datatype rust_panic = IndexOutOfBounds | ArithmeticOverflow | DivisionByZero

type_synonym 'a rust = "rust_panic + 'a"

type_synonym ntstatus = i32

definition STATUS_UNSUCCESSFUL :: ntstatus where "STATUS_UNSUCCESSFUL = 0xC0000001"

definition index :: "'a list \<Rightarrow> nat \<Rightarrow> 'a rust" where
  "index xs i = (if i < length xs then Inr (xs ! i) else Inl IndexOutOfBounds)"

named_theorems se_consts \<open>numeric constants of the security sources\<close>
named_theorems rep_intros \<open>introduction rules of the representation invariants\<close>
named_theorems wf_intros \<open>introduction rules of the well-formedness invariants\<close>

lemma index_in_range [simp]: "i < length xs \<Longrightarrow> index xs i = Inr (xs ! i)"
  by (simp add: index_def)

lemma index_out_of_range [simp]: "length xs \<le> i \<Longrightarrow> index xs i = Inl IndexOutOfBounds"
  by (simp add: index_def)

section \<open>The kernel pool as its clients see it\<close>

text \<open>
  The security sources call \<open>mm::pool::allocate\<close> and \<open>mm::pool::free\<close>.  Whether an
  allocation succeeds is decided outside them, so it is an input of the model: the
  script answers the allocations to come, one entry for each call, and an exhausted
  script answers null.  A block is handed out zeroed.  \<open>pool_live\<close> counts the blocks
  that are allocated and not yet freed.
\<close>

record pool =
  pool_script :: "bool list"
  pool_live :: nat

definition pool_allocate :: "pool \<Rightarrow> bool \<times> pool" where
  "pool_allocate p = (case pool_script p of
     [] \<Rightarrow> (False, p)
   | b # bs \<Rightarrow> (b, p\<lparr>pool_script := bs, pool_live := pool_live p + (if b then 1 else 0)\<rparr>))"

definition pool_free :: "pool \<Rightarrow> pool" where
  "pool_free p = p\<lparr>pool_live := pool_live p - 1\<rparr>"

lemma pool_live_allocate:
  "pool_allocate p = (b, p') \<Longrightarrow> pool_live p' = pool_live p + (if b then 1 else 0)"
  by (auto simp: pool_allocate_def split: list.splits)

lemma pool_live_free [simp]: "pool_live (pool_free p) = pool_live p - 1"
  by (simp add: pool_free_def)

section \<open>Little-endian encodings\<close>

definition le_u16 :: "u8 \<Rightarrow> u8 \<Rightarrow> u16" where
  "le_u16 b0 b1 = ucast b0 OR push_bit 8 (ucast b1)"

definition le_u32 :: "u8 \<Rightarrow> u8 \<Rightarrow> u8 \<Rightarrow> u8 \<Rightarrow> u32" where
  "le_u32 b0 b1 b2 b3 =
     ucast b0 OR push_bit 8 (ucast b1) OR push_bit 16 (ucast b2) OR push_bit 24 (ucast b3)"

definition u32_to_le_bytes :: "u32 \<Rightarrow> u8 list" where
  "u32_to_le_bytes v =
     [ucast v, ucast (drop_bit 8 v), ucast (drop_bit 16 v), ucast (drop_bit 24 v)]"

definition u16_to_le_bytes :: "u16 \<Rightarrow> u8 list" where
  "u16_to_le_bytes v = [ucast v, ucast (drop_bit 8 v)]"

lemma length_u16_to_le_bytes [simp]: "length (u16_to_le_bytes v) = 2"
  by (simp add: u16_to_le_bytes_def)

lemma length_u32_to_le_bytes [simp]: "length (u32_to_le_bytes v) = 4"
  by (simp add: u32_to_le_bytes_def)

lemma le_u32_to_le_bytes [simp]:
  "le_u32 (ucast v) (ucast (drop_bit 8 v)) (ucast (drop_bit 16 v)) (ucast (drop_bit 24 v)) = v"
proof (rule bit_word_eqI)
  fix n assume n: "n < LENGTH(32)"
  consider "n < 8" | "8 \<le> n \<and> n < 16" | "16 \<le> n \<and> n < 24" | "24 \<le> n" by linarith
  then show "bit (le_u32 (ucast v) (ucast (drop_bit 8 v)) (ucast (drop_bit 16 v))
      (ucast (drop_bit 24 v))) n \<longleftrightarrow> bit v n"
    using n by cases (auto simp: le_u32_def bit_simps)
qed

lemma u32_to_le_bytes_nth [simp]:
  "u32_to_le_bytes v ! 0 = ucast v"
  "u32_to_le_bytes v ! Suc 0 = ucast (drop_bit 8 v)"
  "u32_to_le_bytes v ! 2 = ucast (drop_bit 16 v)"
  "u32_to_le_bytes v ! 3 = ucast (drop_bit 24 v)"
  by (simp_all add: u32_to_le_bytes_def)

lemma le_u16_plus: "le_u16 b0 b1 = ucast b0 + push_bit 8 (ucast b1)"
  unfolding le_u16_def
  by (rule disjunctive_add [symmetric]) (auto simp: bit_simps dest!: bit_imp_le_length)

lemma unat_le_u16: "unat (le_u16 b0 b1) = unat b0 + 256 * unat b1"
proof -
  have b: "unat b0 < 256" "unat b1 < 256"
    using unsigned_less [of b0] unsigned_less [of b1] by simp_all
  have "unat (push_bit 8 (ucast b1) :: u16) = 256 * unat b1"
    using b by (simp add: push_bit_eq_mult unat_word_ariths unsigned_ucast_eq take_bit_nat_eq_self)
  with b show ?thesis
    by (simp add: le_u16_plus unat_word_ariths unsigned_ucast_eq take_bit_nat_eq_self)
qed

lemma le_u16_of_bytes [simp]:
  "le_u16 (ucast v) (ucast (drop_bit 8 v)) = v" for v :: u16
  unfolding le_u16_def
  by (rule bit_word_eqI) (auto simp: bit_simps)

lemma unat_ucast_widen [simp]:
  "unat (ucast (b :: u8) :: u64) = unat b" "unat (ucast (v :: u32) :: u64) = unat v"
  "unat (ucast (w :: u16) :: u64) = unat w"
  using unsigned_less [of b, where ?'a = nat] unsigned_less [of v, where ?'a = nat]
    unsigned_less [of w, where ?'a = nat]
  by (simp_all add: unsigned_ucast_eq take_bit_nat_eq_self)

lemma ucast_and_255: "(ucast (v AND 255) :: u8) = ucast v"
proof -
  have "v AND 255 = take_bit 8 v" by (simp add: take_bit_eq_mask mask_eq_exp_minus_1)
  then show ?thesis by (intro bit_word_eqI) (auto simp: bit_simps)
qed

lemma unat_small_u16 [simp]: "n < 65536 \<Longrightarrow> unat (of_nat n :: u16) = n"
  by (simp add: unsigned_of_nat take_bit_nat_eq_self)

lemma bit_u8_beyond: "8 \<le> n \<Longrightarrow> \<not> bit (w :: u8) n"
  by (auto dest: bit_imp_le_length)

lemma be_u48_bytes:
  fixes a b c d e f :: u8
  defines "v \<equiv> (push_bit 40 (ucast a) OR push_bit 32 (ucast b) OR push_bit 24 (ucast c)
     OR push_bit 16 (ucast d) OR push_bit 8 (ucast e) OR ucast f) :: u64"
  shows "ucast (drop_bit 40 v) = a" "ucast (drop_bit 32 v) = b" "ucast (drop_bit 24 v) = c"
    "ucast (drop_bit 16 v) = d" "ucast (drop_bit 8 v) = e" "ucast v = f"
  unfolding v_def
  by (rule bit_word_eqI, simp add: bit_simps bit_u8_beyond)+

text \<open>Masks as sets of bits.\<close>

definition bits_le :: "'a :: len word \<Rightarrow> 'a word \<Rightarrow> bool" where
  "bits_le a b \<longleftrightarrow> (\<forall>n. bit a n \<longrightarrow> bit b n)"

definition union_bits :: "('b \<Rightarrow> 'a :: len word) \<Rightarrow> 'b list \<Rightarrow> 'a word" where
  "union_bits f xs = fold (\<lambda>x a. a OR f x) xs 0"

lemma bit_fold_or: "bit (fold (\<lambda>x a. a OR f x) xs a0) n \<longleftrightarrow> bit a0 n \<or> (\<exists>x \<in> set xs. bit (f x) n)"
  by (induction xs arbitrary: a0) (auto simp: bit_or_iff)

lemma bit_union_bits: "bit (union_bits f xs) n \<longleftrightarrow> (\<exists>x \<in> set xs. bit (f x) n)"
  by (simp add: union_bits_def bit_fold_or)

lemma bits_le_refl [simp]: "bits_le a a"
  by (simp add: bits_le_def)

lemma bits_le_zero: "bits_le a 0 \<Longrightarrow> a = 0"
  by (rule bit_word_eqI) (simp add: bits_le_def)

lemma word_eq_bits: "a = b \<longleftrightarrow> (\<forall>n. bit a n = bit b n)" for a b :: "'a :: len word"
  by (auto intro: bit_word_eqI)

lemma and_eq_0_iff_bits: "a AND b = 0 \<longleftrightarrow> (\<forall>n. \<not> (bit a n \<and> bit b n))" for a b :: "'a :: len word"
  by (simp add: word_eq_bits bit_and_iff)

section \<open>Slices of arrays\<close>

text \<open>
  \<open>slice_of xs a b\<close> is the Rust slice \<open>xs[a..b]\<close>; \<open>overwrite xs off ys\<close> is the array
  after \<open>xs[off..off + ys.len()].copy_from_slice(ys)\<close>.
\<close>

definition slice_of :: "'a list \<Rightarrow> nat \<Rightarrow> nat \<Rightarrow> 'a list" where
  "slice_of xs a b = take (b - a) (drop a xs)"

definition overwrite :: "'a list \<Rightarrow> nat \<Rightarrow> 'a list \<Rightarrow> 'a list" where
  "overwrite xs off ys = take off xs @ ys @ drop (off + length ys) xs"

lemma length_overwrite [simp]:
  "off + length ys \<le> length xs \<Longrightarrow> length (overwrite xs off ys) = length xs"
  by (simp add: overwrite_def)

lemma overwrite_Nil [simp]: "overwrite xs off [] = xs"
  by (simp add: overwrite_def)

lemma list_update_overwrite:
  "off < length xs \<Longrightarrow> xs[off := y] = overwrite xs off [y]"
  by (simp add: overwrite_def upd_conv_take_nth_drop)

lemma overwrite_append:
  "off + length ys + length zs \<le> length xs \<Longrightarrow>
     overwrite (overwrite xs off ys) (off + length ys) zs = overwrite xs off (ys @ zs)"
  by (simp add: overwrite_def ac_simps)

lemma update_after_overwrite:
  "k = length ys \<Longrightarrow> off + k < length xs \<Longrightarrow> (overwrite xs off ys)[off + k := y] = overwrite xs off (ys @ [y])"
  using overwrite_append [of off ys "[y]" xs] by (simp add: list_update_overwrite)

lemma overwrite_after_overwrite:
  "k = length ys \<Longrightarrow> off + k + length zs \<le> length xs \<Longrightarrow>
     overwrite (overwrite xs off ys) (off + k) zs = overwrite xs off (ys @ zs)"
  using overwrite_append [of off ys zs xs] by simp

lemma take_overwrite [simp]: "off \<le> length xs \<Longrightarrow> take off (overwrite xs off ys) = take off xs"
  by (simp add: overwrite_def)

lemma take_overwrite_end:
  "off \<le> length xs \<Longrightarrow> take (off + length ys) (overwrite xs off ys) = take off xs @ ys"
  by (simp add: overwrite_def)

lemma drop_overwrite_end:
  "off \<le> length xs \<Longrightarrow>
     drop (off + length ys) (overwrite xs off ys) = drop (off + length ys) xs"
  by (simp add: overwrite_def)

text \<open>
  Reading at an offset of an array whose contents from there on are known.
\<close>

lemma drop_take_step:
  assumes "drop off (take lim d) = r @ rest" "lim \<le> length d" "r \<noteq> []"
  shows "off + length r \<le> lim" "\<And>k. k < length r \<Longrightarrow> d ! (off + k) = r ! k"
    "slice_of d (off + j) (off + length r) = drop j r"
    "drop (off + length r) (take lim d) = rest"
proof -
  have "length (drop off (take lim d)) = length r + length rest" using assms(1) by simp
  with assms(2,3) show le: "off + length r \<le> lim"
    by (cases "off \<le> lim") auto
  have "drop (length r) (drop off (take lim d)) = rest" using assms(1) by simp
  then show "drop (off + length r) (take lim d) = rest" by (simp add: add.commute)
  have r: "take (length r) (drop off d) = r"
  proof -
    have "take (length r) (drop off (take lim d)) = r" using assms(1) by simp
    moreover have "min (length r) (lim - off) = length r" using le by simp
    ultimately show ?thesis by (simp add: drop_take)
  qed
  show "d ! (off + k) = r ! k" if "k < length r" for k
    using that le assms(2) r nth_take [of k "length r" "drop off d"] by simp
  have "drop j (take (length r) (drop off d)) = slice_of d (off + j) (off + length r)"
    by (simp add: slice_of_def drop_take add.commute)
  with r show "slice_of d (off + j) (off + length r) = drop j r" by simp
qed

text \<open>
  Copying a block of an array towards its front, element by element from the front,
  and clearing a block.
\<close>

lemma fold_move_down:
  assumes "off + k + n \<le> length d"
  shows "fold (\<lambda>i d. d[off + i := d ! (off + k + i)]) [0..<n] d
    = overwrite d off (take n (drop (off + k) d))"
  using assms
proof (induction n)
  case (Suc n)
  let ?m = "take n (drop (off + k) d)"
  have len: "length ?m = n" using Suc.prems by simp
  have rd: "overwrite d off ?m ! (off + k + n) = d ! (off + k + n)"
    using Suc.prems len by (simp add: overwrite_def nth_append ac_simps)
  have "(overwrite d off ?m)[off + n := d ! (off + k + n)] = overwrite d off (?m @ [d ! (off + k + n)])"
    using Suc.prems len by (intro update_after_overwrite) simp_all
  with Suc rd show ?case by (simp add: take_Suc_conv_app_nth)
qed simp

lemma fold_clear:
  assumes "off + n \<le> length d"
  shows "fold (\<lambda>i d. let j = off + i in if j < length d then d[j := z] else d) [0..<n] d
    = overwrite d off (replicate n z)"
  using assms
proof (induction n)
  case (Suc n)
  have "(overwrite d off (replicate n z))[off + n := z] = overwrite d off (replicate n z @ [z])"
    using Suc.prems by (intro update_after_overwrite) simp_all
  with Suc show ?case by (simp add: Let_def replicate_append_same)
qed simp

text \<open>Updating the first elements of an array one after the other.\<close>

lemma take_drop_update:
  assumes "n < length xs"
  shows "(map f (take n xs) @ drop n xs)[n := f (xs ! n)] = map f (take (Suc n) xs) @ drop (Suc n) xs"
    "(map f (take n xs) @ drop n xs) ! n = xs ! n"
  using assms by (simp_all add: nth_append list_update_append take_Suc_conv_app_nth Cons_nth_drop_Suc [symmetric])

section \<open>Searching an array\<close>

text \<open>The loop \<open>for i in 0..n\<close> that stops at the first element with the property.\<close>

definition find_from :: "('a \<Rightarrow> bool) \<Rightarrow> 'a list \<Rightarrow> nat \<Rightarrow> nat option" where
  "find_from P xs n = find (\<lambda>i. P (xs ! i)) [0..<n]"

lemma find_from_Some:
  assumes "find_from P xs n = Some i"
  shows "i < n" "P (xs ! i)" "\<forall>j < i. \<not> P (xs ! j)"
  using assms by (auto simp: find_from_def find_Some_iff)

lemma find_from_None: "find_from P xs n = None \<longleftrightarrow> (\<forall>i < n. \<not> P (xs ! i))"
  by (auto simp: find_from_def find_None_iff)

text \<open>
  A search over a whole array in which at most one element has the property.
\<close>

lemma find_from_unique:
  assumes "i < length xs" "P (xs ! i)" "\<And>j. j < length xs \<Longrightarrow> P (xs ! j) \<Longrightarrow> j = i"
  shows "find_from P xs (length xs) = Some i"
proof (cases "find_from P xs (length xs)")
  case None
  with assms(1,2) show ?thesis by (auto simp: find_from_None)
next
  case (Some j)
  with find_from_Some [OF Some] assms(3) show ?thesis by simp
qed

text \<open>\<open>remove_at i xs\<close> is the vector after \<open>xs.remove(i)\<close>.\<close>

definition remove_at :: "nat \<Rightarrow> 'a list \<Rightarrow> 'a list" where
  "remove_at i xs = take i xs @ drop (Suc i) xs"

lemma set_remove_at: "set (remove_at i xs) \<subseteq> set xs"
  by (auto simp: remove_at_def dest: in_set_takeD in_set_dropD)

lemma map_remove_at: "map f (remove_at i xs) = remove_at i (map f xs)"
  by (simp add: remove_at_def take_map drop_map)

lemma distinct_remove_at: "distinct xs \<Longrightarrow> distinct (remove_at i xs)"
  by (simp add: remove_at_def set_take_disj_set_drop_if_distinct)

lemma remove_at_append: "remove_at (length xs) (xs @ [x]) = xs"
  by (simp add: remove_at_def)

section \<open>Saturating addition\<close>

definition sat_add :: "'a :: len word \<Rightarrow> 'a word \<Rightarrow> 'a word" where
  "sat_add a b = (if a + b < a then - 1 else a + b)"

lemma unat_sat_add: "unat (sat_add a b) = min (2 ^ LENGTH('a) - 1) (unat a + unat b)" for a b :: "'a :: len word"
proof (cases "unat a + unat b < 2 ^ LENGTH('a)")
  case True
  then have "unat (a + b) = unat a + unat b" by (simp add: unat_word_ariths)
  with True show ?thesis by (simp add: sat_add_def word_less_nat_alt)
next
  case False
  have "unat b < 2 ^ LENGTH('a)" "unat a < 2 ^ LENGTH('a)" by simp_all
  then have "unat a + unat b - 2 ^ LENGTH('a) < 2 ^ LENGTH('a)" by linarith
  with False have "unat (a + b) = unat a + unat b - 2 ^ LENGTH('a)"
    by (simp add: unat_word_ariths le_mod_geq)
  moreover from this False \<open>unat b < 2 ^ LENGTH('a)\<close> have "a + b < a"
    unfolding word_less_nat_alt by linarith
  ultimately show ?thesis
    using False by (simp add: sat_add_def unsigned_minus_1_eq_mask mask_eq_exp_minus_1)
qed

section \<open>Arrays of little-endian words\<close>

lemma length_concat_le_bytes [simp]: "length (concat (map u32_to_le_bytes xs)) = 4 * length xs"
  by (induction xs) simp_all

lemma nth_concat_le_bytes:
  "i < length xs \<Longrightarrow> k < 4 \<Longrightarrow>
     concat (map u32_to_le_bytes xs) ! (i * 4 + k) = u32_to_le_bytes (xs ! i) ! k"
proof (induction xs arbitrary: i)
  case (Cons x xs)
  then show ?case by (cases i) (simp_all add: nth_append)
qed simp

lemma le_u32_concat_le_bytes:
  "i < length xs \<Longrightarrow>
     le_u32 (concat (map u32_to_le_bytes xs) ! (i * 4)) (concat (map u32_to_le_bytes xs) ! (i * 4 + 1))
       (concat (map u32_to_le_bytes xs) ! (i * 4 + 2)) (concat (map u32_to_le_bytes xs) ! (i * 4 + 3))
     = xs ! i"
  using nth_concat_le_bytes [of i xs 0] nth_concat_le_bytes [of i xs 1]
    nth_concat_le_bytes [of i xs 2] nth_concat_le_bytes [of i xs 3]
  by simp

lemma fold_overwrite_words:
  assumes "n \<le> length vs" "off + length ys + 4 * n \<le> length d"
  shows "fold (\<lambda>i d. overwrite d (off + length ys + i * 4) (u32_to_le_bytes (vs ! i))) [0..<n]
      (overwrite d off ys) = overwrite d off (ys @ concat (map u32_to_le_bytes (take n vs)))"
  using assms
proof (induction n)
  case (Suc n)
  let ?w = "concat (map u32_to_le_bytes (take n vs))"
  have "overwrite (overwrite d off (ys @ ?w)) (off + (length ys + n * 4)) (u32_to_le_bytes (vs ! n))
      = overwrite d off ((ys @ ?w) @ u32_to_le_bytes (vs ! n))"
    using Suc.prems by (intro overwrite_after_overwrite) simp_all
  with Suc show ?case by (simp add: take_Suc_conv_app_nth add.assoc)
qed simp

section \<open>Decimal text\<close>

fun decimal :: "nat \<Rightarrow> nat list" where
  "decimal n = (if n < 10 then [n] else decimal (n div 10) @ [n mod 10])"

declare decimal.simps [simp del]

definition digit_char :: "nat \<Rightarrow> char" where
  "digit_char d = char_of (48 + d)"

definition decimal_string :: "nat \<Rightarrow> string" where
  "decimal_string n = map digit_char (decimal n)"

definition utf16_units :: "string \<Rightarrow> u16 list" where
  "utf16_units cs = map (\<lambda>c. of_nat (of_char c)) cs"

lemma utf16_units_append [simp]: "utf16_units (a @ b) = utf16_units a @ utf16_units b"
  by (simp add: utf16_units_def)

lemma utf16_units_Nil [simp]: "utf16_units [] = []"
  by (simp add: utf16_units_def)

lemma length_utf16_units [simp]: "length (utf16_units cs) = length cs"
  by (simp add: utf16_units_def)

lemma decimal_digits: "d \<in> set (decimal n) \<Longrightarrow> d < 10"
proof (induction n rule: decimal.induct)
  case (1 n)
  then show ?case by (subst (asm) decimal.simps) (auto split: if_splits)
qed

lemma decimal_ne [simp]: "decimal n \<noteq> []"
  by (subst decimal.simps) simp

lemma decimal_string_ne [simp]: "decimal_string n \<noteq> []"
  by (simp add: decimal_string_def)

lemma of_char_digit_char: "d < 10 \<Longrightarrow> of_char (digit_char d) = 48 + d"
  by (simp add: digit_char_def)

lemma utf16_units_decimal:
  "utf16_units (decimal_string n) = map (\<lambda>d. 48 + of_nat d) (decimal n)"
  by (auto simp: utf16_units_def decimal_string_def of_char_digit_char decimal_digits)

section \<open>Byte codecs\<close>

text \<open>
  The contract between a structure stored in a byte array and the code that walks
  the array: an encoding of known length that the decoder inverts up to a
  normalisation, whatever bytes follow.  The clients below need no more than that.
\<close>

locale byte_codec =
  fixes enc :: "'a \<Rightarrow> u8 list"
    and dec :: "u8 list \<Rightarrow> 'b option"
    and width :: "'a \<Rightarrow> nat"
    and ok :: "'a \<Rightarrow> bool"
    and norm :: "'a \<Rightarrow> 'b"
  assumes length_enc: "ok x \<Longrightarrow> length (enc x) = width x"
    and dec_enc: "ok x \<Longrightarrow> dec (enc x @ rest) = Some (norm x)"
begin

lemma dec_enc_exact: "ok x \<Longrightarrow> dec (enc x) = Some (norm x)"
  using dec_enc [of x "[]"] by simp

lemma enc_determines_norm:
  "ok x \<Longrightarrow> ok y \<Longrightarrow> enc x @ r = enc y @ r' \<Longrightarrow> norm x = norm y"
  using dec_enc [of x r] dec_enc [of y r'] by simp

lemma dec_at_offset:
  "ok x \<Longrightarrow> drop off bs = enc x @ rest \<Longrightarrow> dec (slice_of bs off (off + width x)) = Some (norm x)"
  by (simp add: slice_of_def dec_enc_exact length_enc)

end

section \<open>Stores with a bounded capacity\<close>

text \<open>
  Lists of entries that can fill up: an access control list, the groups and the
  privileges of a token, the capabilities of a container.  \<open>rep t vs\<close> says that the
  store \<open>t\<close> holds the entries \<open>vs\<close> in that order.  Adding either appends the entry or
  refuses and changes nothing; what decides is \<open>room\<close>.
\<close>

locale append_store =
  fixes rep :: "'t \<Rightarrow> 'v list \<Rightarrow> bool"
    and add :: "'e \<Rightarrow> 't \<Rightarrow> bool \<times> 't"
    and enc :: "'e \<Rightarrow> 'v"
    and ok :: "'e \<Rightarrow> bool"
    and room :: "'e \<Rightarrow> 't \<Rightarrow> bool"
  assumes add_room: "rep t vs \<Longrightarrow> ok e \<Longrightarrow> room e t \<Longrightarrow>
      fst (add e t) \<and> rep (snd (add e t)) (vs @ [enc e])"
    and add_full: "rep t vs \<Longrightarrow> ok e \<Longrightarrow> \<not> room e t \<Longrightarrow> add e t = (False, t)"
begin

lemma add_reports_room: "rep t vs \<Longrightarrow> ok e \<Longrightarrow> fst (add e t) \<longleftrightarrow> room e t"
  by (cases "room e t") (simp_all add: add_room add_full)

lemma add_rep:
  "rep t vs \<Longrightarrow> ok e \<Longrightarrow> rep (snd (add e t)) (if room e t then vs @ [enc e] else vs)"
  by (simp add: add_room add_full)

text \<open>A sequence of additions keeps what was there and never reorders.\<close>

lemma add_list_rep:
  "rep t vs \<Longrightarrow> \<forall>e \<in> set es. ok e \<Longrightarrow>
     \<exists>ws. rep (fold (\<lambda>e t. snd (add e t)) es t) (vs @ ws) \<and> subseq ws (map enc es)"
proof (induction es arbitrary: t vs)
  case Nil
  then show ?case by (intro exI [of _ "[]"]) simp
next
  case (Cons e es)
  let ?t = "snd (add e t)"
  have "rep ?t (vs @ (if room e t then [enc e] else []))"
    using add_rep [of t vs e] Cons.prems by (cases "room e t") auto
  from Cons.IH [OF this] Cons.prems(2)
  obtain ws where "rep (fold (\<lambda>e t. snd (add e t)) es ?t)
      (vs @ ((if room e t then [enc e] else []) @ ws))" "subseq ws (map enc es)"
    by auto
  then show ?case
    by (intro exI [of _ "(if room e t then [enc e] else []) @ ws"]) auto
qed

end

text \<open>A store that also removes the entry of an index.\<close>

locale editable_store = append_store rep add enc ok room
  for rep :: "'t \<Rightarrow> 'v list \<Rightarrow> bool"
    and add :: "'e \<Rightarrow> 't \<Rightarrow> bool \<times> 't"
    and enc :: "'e \<Rightarrow> 'v"
    and ok :: "'e \<Rightarrow> bool"
    and room :: "'e \<Rightarrow> 't \<Rightarrow> bool" +
  fixes del :: "'i \<Rightarrow> 't \<Rightarrow> bool \<times> 't"
    and pos :: "'i \<Rightarrow> nat"
  assumes del_in: "rep t vs \<Longrightarrow> pos i < length vs \<Longrightarrow>
      fst (del i t) \<and> rep (snd (del i t)) (take (pos i) vs @ drop (Suc (pos i)) vs)"
    and del_out: "rep t vs \<Longrightarrow> length vs \<le> pos i \<Longrightarrow> del i t = (False, t)"
begin

lemma del_undoes_add:
  assumes "rep t vs" "ok e" "room e t" "pos i = length vs"
  shows "rep (snd (del i (snd (add e t)))) vs"
  using del_in [of "snd (add e t)" "vs @ [enc e]" i] add_room [OF assms(1-3)] assms(4) by simp

lemma del_keeps_others:
  assumes "rep t vs" "pos i < length vs"
  obtains vs' where "rep (snd (del i t)) vs'" "length vs' = length vs - 1"
    "\<And>j. j < pos i \<Longrightarrow> vs' ! j = vs ! j" "\<And>j. pos i \<le> j \<Longrightarrow> j < length vs' \<Longrightarrow> vs' ! j = vs ! Suc j"
  by (rule that [of "take (pos i) vs @ drop (Suc (pos i)) vs"])
    (use del_in [OF assms] assms(2) in \<open>auto simp: nth_append\<close>)

end

section \<open>Tables that issue their own keys\<close>

text \<open>
  A table of live entries in which the table, not the caller, picks the key of a new
  entry.  \<open>lookup\<close> is the abstraction to a map.  Adding an entry answers a key that
  was free or refuses and changes nothing; \<open>fresh\<close> says that the key supply is not
  exhausted.  Removing reports whether the key was live.
\<close>

locale keyed_table =
  fixes invar :: "'t \<Rightarrow> bool"
    and lookup :: "'t \<Rightarrow> 'k \<Rightarrow> 'v option"
    and create :: "'a \<Rightarrow> 't \<Rightarrow> 'k option \<times> 't"
    and delete :: "'k \<Rightarrow> 't \<Rightarrow> bool \<times> 't"
    and fresh :: "'t \<Rightarrow> bool"
    and shows_value :: "'a \<Rightarrow> 'v \<Rightarrow> bool"
  assumes create_Some: "invar t \<Longrightarrow> fresh t \<Longrightarrow> create a t = (Some k, t') \<Longrightarrow>
      invar t' \<and> lookup t k = None \<and> (\<exists>v. shows_value a v \<and> lookup t' = (lookup t)(k \<mapsto> v))"
    and create_None: "create a t = (None, t') \<Longrightarrow> t' = t"
    and delete_spec: "invar t \<Longrightarrow> delete k t = (b, t') \<Longrightarrow>
      invar t' \<and> (b \<longleftrightarrow> lookup t k \<noteq> None) \<and> lookup t' = (lookup t)(k := None)"
begin

lemma create_then_lookup:
  assumes "invar t" "fresh t" "create a t = (Some k, t')"
  shows "\<exists>v. lookup t' k = Some v \<and> shows_value a v" "\<And>j. j \<noteq> k \<Longrightarrow> lookup t' j = lookup t j"
  using create_Some [OF assms] by auto

lemma delete_then_lookup:
  assumes "invar t" "delete k t = (b, t')"
  shows "lookup t' k = None" "\<And>j. j \<noteq> k \<Longrightarrow> lookup t' j = lookup t j"
  using delete_spec [OF assms] by simp_all

lemma delete_undoes_create:
  assumes "invar t" "fresh t" "create a t = (Some k, t')" "delete k t' = (b, t'')"
  shows "b" "lookup t'' = lookup t"
  using create_Some [OF assms(1-3)] delete_spec [OF _ assms(4)] by auto

lemma delete_twice:
  assumes "invar t" "delete k t = (b, t')" "delete k t' = (b', t'')"
  shows "\<not> b'" "lookup t'' = lookup t'"
  using delete_spec [OF assms(1,2)] delete_spec [OF _ assms(3)] by auto

lemma create_keys_differ:
  assumes "invar t" "fresh t" "create a t = (Some k, t')" "fresh t'" "create b t' = (Some j, t'')"
  shows "j \<noteq> k"
  using create_Some [OF assms(1-3)] create_Some [OF _ assms(4,5)] by auto

end

end
