(* ===== verification/Sid.thy ===== *)
theory Sid
  imports Nt_Prelude
begin

text \<open>
  Security identifiers, \<open>src/nt61/src/se/sid.rs\<close>: the fixed-size \<open>sid\<close> structure, its
  constructors and the well-known identifiers, equality, the byte decoder used when
  an access control entry is read back, and the printer into a buffer of 30 UTF-16
  units.  Lemmas: equality is an equivalence that ignores the unused sub-authorities,
  decoding inverts encoding, and the printer writes exactly the decimal text of the
  identifier, cut at the buffer's capacity.
\<close>

section \<open>The structure and its constructors\<close>

definition SID_REVISION :: u8 where [se_consts]: "SID_REVISION = 1"
definition SID_MAX_SUB_AUTHORITIES :: nat where [se_consts]: "SID_MAX_SUB_AUTHORITIES = 8"
definition SID_STRING_MAX :: nat where [se_consts]: "SID_STRING_MAX = 30"

record sid =
  sid_revision :: u8
  sub_authority_count :: u8
  identifier_authority :: "u8 list"
  sub_authority :: "u32 list"

text \<open>The Rust array types fix both lengths.\<close>

definition wf_sid :: "sid \<Rightarrow> bool" where
  "wf_sid s \<longleftrightarrow> length (identifier_authority s) = 6 \<and> length (sub_authority s) = 8"

definition sid_new :: sid where
  "sid_new = \<lparr>sid_revision = SID_REVISION, sub_authority_count = 0,
     identifier_authority = replicate 6 0, sub_authority = replicate 8 0\<rparr>"

definition with_subs ::
  "u8 list \<Rightarrow> u32 \<Rightarrow> u32 \<Rightarrow> u32 \<Rightarrow> u32 \<Rightarrow> u32 \<Rightarrow> u32 \<Rightarrow> u32 \<Rightarrow> u32 \<Rightarrow> sid" where
  "with_subs authority sub0 sub1 sub2 sub3 sub4 sub5 sub6 sub7 =
     \<lparr>sid_revision = SID_REVISION, sub_authority_count = 1, identifier_authority = authority,
      sub_authority = [sub0, sub1, sub2, sub3, sub4, sub5, sub6, sub7]\<rparr>"

definition with_2subs :: "u8 list \<Rightarrow> u32 \<Rightarrow> u32 \<Rightarrow> sid" where
  "with_2subs authority sub0 sub1 =
     \<lparr>sid_revision = SID_REVISION, sub_authority_count = 2, identifier_authority = authority,
      sub_authority = [sub0, sub1, 0, 0, 0, 0, 0, 0]\<rparr>"

definition with_authority_and_subs_arr ::
  "u8 list \<Rightarrow> u8 \<Rightarrow> u32 \<Rightarrow> u32 \<Rightarrow> u32 \<Rightarrow> u32 \<Rightarrow> u32 \<Rightarrow> u32 \<Rightarrow> u32 \<Rightarrow> u32 \<Rightarrow> sid" where
  "with_authority_and_subs_arr authority count sub0 sub1 sub2 sub3 sub4 sub5 sub6 sub7 =
     \<lparr>sid_revision = SID_REVISION,
      sub_authority_count =
        (if SID_MAX_SUB_AUTHORITIES < unat count then of_nat SID_MAX_SUB_AUTHORITIES else count),
      identifier_authority = authority,
      sub_authority = [sub0, sub1, sub2, sub3, sub4, sub5, sub6, sub7]\<rparr>"

datatype well_known_sid =
    WkNull | World | Local | CreatorOwner | CreatorGroup | Dialup | Network | Batch
  | Interactive | Service | AnonymousLogon | AuthenticatedUser | LocalSystem
  | LocalService | NetworkService | Administrators | Users | Guests | PowerUsers
  | AccountOperators | ServerOperators | PrintOperators | BackupOperators
  | Replicator | NtVersion | RestrictedCode

definition wk1 :: "u8 \<Rightarrow> u32 \<Rightarrow> sid" where
  "wk1 a s0 = \<lparr>sid_revision = SID_REVISION, sub_authority_count = 1,
     identifier_authority = [0, 0, 0, 0, 0, a], sub_authority = [s0, 0, 0, 0, 0, 0, 0, 0]\<rparr>"

definition wk2 :: "u32 \<Rightarrow> sid" where
  "wk2 s1 = \<lparr>sid_revision = SID_REVISION, sub_authority_count = 2,
     identifier_authority = [0, 0, 0, 0, 0, 5], sub_authority = [32, s1, 0, 0, 0, 0, 0, 0]\<rparr>"

fun well_known :: "well_known_sid \<Rightarrow> sid" where
  "well_known WkNull = wk1 0 0"
| "well_known World = wk1 1 0"
| "well_known Local = wk1 2 0"
| "well_known CreatorOwner = wk1 3 0"
| "well_known CreatorGroup = wk1 3 1"
| "well_known Dialup = wk1 5 1"
| "well_known Network = wk1 5 2"
| "well_known Batch = wk1 5 3"
| "well_known Interactive = wk1 5 4"
| "well_known Service = wk1 5 6"
| "well_known AnonymousLogon = wk1 5 7"
| "well_known AuthenticatedUser = wk1 5 11"
| "well_known LocalSystem = wk1 5 18"
| "well_known LocalService = wk1 5 19"
| "well_known NetworkService = wk1 5 20"
| "well_known Administrators = wk2 544"
| "well_known Users = wk2 545"
| "well_known Guests = wk2 546"
| "well_known PowerUsers = wk2 547"
| "well_known AccountOperators = wk2 548"
| "well_known ServerOperators = wk2 549"
| "well_known PrintOperators = wk2 550"
| "well_known BackupOperators = wk2 551"
| "well_known Replicator = wk2 552"
| "well_known NtVersion = wk2 554"
| "well_known RestrictedCode = wk1 5 12"

definition SID_EVERYONE :: sid where "SID_EVERYONE = well_known World"
definition SID_USERS :: sid where "SID_USERS = well_known Users"
definition SID_ADMINISTRATORS :: sid where "SID_ADMINISTRATORS = well_known Administrators"

section \<open>Queries and equality\<close>

definition subauthority_count :: "sid \<Rightarrow> nat" where
  "subauthority_count s = min (unat (sub_authority_count s)) SID_MAX_SUB_AUTHORITIES"

definition subauthority :: "sid \<Rightarrow> nat \<Rightarrow> u32" where
  "subauthority s i = (if i < SID_MAX_SUB_AUTHORITIES then sub_authority s ! i else 0)"

definition identifier_authority_u64 :: "sid \<Rightarrow> u64" where
  "identifier_authority_u64 s = (let b = identifier_authority s in
     push_bit 40 (ucast (b ! 0)) OR push_bit 32 (ucast (b ! 1)) OR push_bit 24 (ucast (b ! 2))
     OR push_bit 16 (ucast (b ! 3)) OR push_bit 8 (ucast (b ! 4)) OR ucast (b ! 5))"

definition sid_equals :: "sid \<Rightarrow> sid \<Rightarrow> bool" where
  "sid_equals a b =
     (if sid_revision a \<noteq> sid_revision b then False
      else if sub_authority_count a \<noteq> sub_authority_count b then False
      else if identifier_authority_u64 a \<noteq> identifier_authority_u64 b then False
      else list_all (\<lambda>i. sub_authority a ! i = sub_authority b ! i) [0..<subauthority_count a])"

definition sid_size :: "sid \<Rightarrow> nat" where
  "sid_size s = 8 + subauthority_count s * 4"

definition sid_is_valid :: "sid \<Rightarrow> bool" where
  "sid_is_valid s \<longleftrightarrow>
     sid_revision s = SID_REVISION \<and> unat (sub_authority_count s) \<le> SID_MAX_SUB_AUTHORITIES"

section \<open>Bytes\<close>

definition sid_from_bytes :: "u8 list \<Rightarrow> sid option" where
  "sid_from_bytes bytes =
     (if length bytes < 8 \<or> bytes ! 0 \<noteq> SID_REVISION then None
      else let count = unat (bytes ! 1) in
        if SID_MAX_SUB_AUTHORITIES < count then None
        else if length bytes < 8 + count * 4 then None
        else Some \<lparr>sid_revision = SID_REVISION, sub_authority_count = of_nat count,
               identifier_authority = slice_of bytes 2 8,
               sub_authority = map (\<lambda>i. if i < count
                   then le_u32 (bytes ! (8 + i * 4)) (bytes ! (8 + i * 4 + 1))
                          (bytes ! (8 + i * 4 + 2)) (bytes ! (8 + i * 4 + 3))
                   else 0) [0..<SID_MAX_SUB_AUTHORITIES]\<rparr>)"

text \<open>The byte layout that \<open>Acl::add_ace\<close> writes for an identifier.\<close>

definition sid_to_bytes :: "sid \<Rightarrow> u8 list" where
  "sid_to_bytes s = [sid_revision s, sub_authority_count s] @ identifier_authority s
     @ concat (map u32_to_le_bytes (take (subauthority_count s) (sub_authority s)))"

section \<open>Text\<close>

fun write_u64_digits :: "nat \<Rightarrow> u64 \<Rightarrow> u16 list" where
  "write_u64_digits 0 val = []"
| "write_u64_digits (Suc room) val =
     (if 0 < val then (48 + ucast (val mod 10)) # write_u64_digits room (val div 10) else [])"

definition write_u64 :: "u16 list \<Rightarrow> u64 \<Rightarrow> u16 list \<times> nat" where
  "write_u64 buf val =
     (if val = 0 then (if buf \<noteq> [] then buf[0 := 48] else buf, 1)
      else let digits = write_u64_digits 20 val; n = length digits; written = min n (length buf)
           in (map (\<lambda>i. digits ! (n - 1 - i)) [0..<written] @ drop written buf, written))"

definition put_unit :: "u16 \<Rightarrow> u16 list \<times> nat \<Rightarrow> u16 list \<times> nat" where
  "put_unit c st = (case st of (buf, pos) \<Rightarrow>
     if pos < SID_STRING_MAX then (buf[pos := c], pos + 1) else (buf, pos))"

definition put_u64 :: "u64 \<Rightarrow> u16 list \<times> nat \<Rightarrow> u16 list \<times> nat" where
  "put_u64 v st = (case st of (buf, pos) \<Rightarrow>
     if pos < SID_STRING_MAX
     then (case write_u64 (drop pos buf) v of (tail, w) \<Rightarrow> (take pos buf @ tail, pos + w))
     else (buf, pos))"

definition sid_to_string :: "sid \<Rightarrow> u16 list" where
  "sid_to_string s =
     (let st0 = (replicate SID_STRING_MAX 0, 0);
          st1 = put_unit 45 (put_unit 83 st0);
          st2 = put_u64 (ucast (sid_revision s)) st1;
          st3 = put_u64 (identifier_authority_u64 s) (put_unit 45 st2)
      in fst (fold (\<lambda>i st. put_u64 (ucast (sub_authority s ! i)) (put_unit 45 st))
                [0..<subauthority_count s] st3))"

section \<open>Well-formedness\<close>

lemma wf_sidD:
  assumes "wf_sid s"
  shows "length (identifier_authority s) = 6" "length (sub_authority s) = 8"
  using assms by (simp_all add: wf_sid_def)

lemma wf_sid_new [wf_intros]: "wf_sid sid_new"
  by (simp add: wf_sid_def sid_new_def)

lemma wf_with_subs [wf_intros]:
  "length authority = 6 \<Longrightarrow> wf_sid (with_subs authority a b c d e f g h)"
  by (simp add: wf_sid_def with_subs_def)

lemma wf_with_2subs [wf_intros]: "length authority = 6 \<Longrightarrow> wf_sid (with_2subs authority a b)"
  by (simp add: wf_sid_def with_2subs_def)

lemma wf_with_authority_and_subs_arr [wf_intros]:
  "length authority = 6 \<Longrightarrow> wf_sid (with_authority_and_subs_arr authority n a b c d e f g h)"
  by (simp add: wf_sid_def with_authority_and_subs_arr_def)

lemma wf_well_known [wf_intros]: "wf_sid (well_known k)"
  by (cases k) (simp_all add: wf_sid_def wk1_def wk2_def)

lemma valid_well_known: "sid_is_valid (well_known k)"
  by (cases k) (simp_all add: sid_is_valid_def wk1_def wk2_def se_consts)

lemma subauthority_count_le: "subauthority_count s \<le> 8"
  by (simp add: subauthority_count_def se_consts)

section \<open>Equality\<close>

lemma length6E:
  assumes "length xs = 6"
  obtains a b c d e f where "xs = [a, b, c, d, e, f]"
  using assms by (auto simp: numeral_eq_Suc length_Suc_conv)

lemma identifier_authority_u64_bytes:
  assumes "wf_sid s"
  shows "identifier_authority s = map (\<lambda>k. ucast (drop_bit k (identifier_authority_u64 s)))
    [40, 32, 24, 16, 8, 0]"
proof -
  obtain a b c d e f where bs: "identifier_authority s = [a, b, c, d, e, f]"
    using wf_sidD(1) [OF assms] by (rule length6E)
  define v :: u64 where "v = push_bit 40 (ucast a) OR push_bit 32 (ucast b) OR push_bit 24 (ucast c)
     OR push_bit 16 (ucast d) OR push_bit 8 (ucast e) OR ucast f"
  have "identifier_authority_u64 s = v"
    by (simp add: identifier_authority_u64_def bs Let_def v_def)
  then show ?thesis
    using be_u48_bytes [of a b c d e f, folded v_def] by (simp add: bs)
qed

lemma identifier_authority_u64_inject:
  assumes "wf_sid a" "wf_sid b"
  shows "identifier_authority_u64 a = identifier_authority_u64 b \<longleftrightarrow>
    identifier_authority a = identifier_authority b"
proof
  assume "identifier_authority_u64 a = identifier_authority_u64 b"
  then show "identifier_authority a = identifier_authority b"
    using assms by (metis identifier_authority_u64_bytes)
qed (simp add: identifier_authority_u64_def)

lemma sid_equals_iff:
  assumes "wf_sid a" "wf_sid b"
  shows "sid_equals a b \<longleftrightarrow>
    sid_revision a = sid_revision b \<and> sub_authority_count a = sub_authority_count b \<and>
    identifier_authority a = identifier_authority b \<and>
    take (subauthority_count a) (sub_authority a) = take (subauthority_count b) (sub_authority b)"
proof -
  have "list_all (\<lambda>i. sub_authority a ! i = sub_authority b ! i) [0..<subauthority_count a] \<longleftrightarrow>
      take (subauthority_count a) (sub_authority a) = take (subauthority_count a) (sub_authority b)"
    using assms subauthority_count_le [of a]
    by (auto simp: list_all_iff wf_sid_def list_eq_iff_nth_eq)
  moreover have "sub_authority_count a = sub_authority_count b \<Longrightarrow>
      subauthority_count a = subauthority_count b"
    by (simp add: subauthority_count_def)
  ultimately show ?thesis
    unfolding sid_equals_def identifier_authority_u64_inject [OF assms] by auto
qed

lemma sid_equals_refl [simp]: "sid_equals s s"
  by (simp add: sid_equals_def list_all_iff)

lemma sid_equals_sym:
  "wf_sid a \<Longrightarrow> wf_sid b \<Longrightarrow> sid_equals a b \<longleftrightarrow> sid_equals b a"
  by (auto simp: sid_equals_iff)

lemma sid_equals_trans:
  "wf_sid a \<Longrightarrow> wf_sid b \<Longrightarrow> wf_sid c \<Longrightarrow> sid_equals a b \<Longrightarrow> sid_equals b c \<Longrightarrow> sid_equals a c"
  by (auto simp: sid_equals_iff)

text \<open>
  \<open>canon\<close> clears the sub-authorities past the count: the representative of a class
  of equal identifiers.
\<close>

definition canon :: "sid \<Rightarrow> sid" where
  "canon s = s\<lparr>sub_authority := take (subauthority_count s) (sub_authority s)
     @ replicate (8 - subauthority_count s) 0\<rparr>"

lemma wf_canon [simp]: "wf_sid s \<Longrightarrow> wf_sid (canon s)"
  using subauthority_count_le [of s] by (simp add: wf_sid_def canon_def)

lemma subauthority_count_canon [simp]: "subauthority_count (canon s) = subauthority_count s"
  by (simp add: canon_def subauthority_count_def)

lemma sid_equals_canon: "wf_sid s \<Longrightarrow> sid_equals s (canon s)"
  using subauthority_count_le [of s]
  by (subst sid_equals_iff) (simp_all add: canon_def wf_sid_def subauthority_count_def)

lemma sid_equals_canon_left:
  "wf_sid s \<Longrightarrow> wf_sid t \<Longrightarrow> sid_equals (canon s) t \<longleftrightarrow> sid_equals s t"
  by (meson sid_equals_canon sid_equals_sym sid_equals_trans wf_canon)

lemma sid_equals_canon_eq:
  assumes "wf_sid a" "wf_sid b"
  shows "sid_equals a b \<longleftrightarrow> canon a = canon b"
proof
  assume "sid_equals a b"
  then show "canon a = canon b"
    using assms by (auto simp: sid_equals_iff canon_def subauthority_count_def intro!: sid.equality)
next
  assume eq: "canon a = canon b"
  have "sid_equals a (canon b)" using sid_equals_canon [OF assms(1)] eq by simp
  then show "sid_equals a b"
    using assms by (meson sid_equals_canon sid_equals_sym sid_equals_trans wf_canon)
qed

lemma wk_inject [simp]:
  "wk1 a s = wk1 b t \<longleftrightarrow> a = b \<and> s = t" "wk2 s = wk2 t \<longleftrightarrow> s = t"
  "wk1 a s \<noteq> wk2 t" "wk2 t \<noteq> wk1 a s"
  by (auto simp: wk1_def wk2_def)

lemma subauthority_count_wk [simp]:
  "subauthority_count (wk1 a s) = 1" "subauthority_count (wk2 s) = 2"
  by (simp_all add: wk1_def wk2_def subauthority_count_def se_consts)

lemma canon_wk [simp]: "canon (wk1 a s) = wk1 a s" "canon (wk2 s) = wk2 s"
  unfolding canon_def subauthority_count_wk
  by (simp_all add: wk1_def wk2_def numeral_eq_Suc)

lemma well_known_inject: "well_known j = well_known k \<longleftrightarrow> j = k"
  by (cases j; cases k; simp)

lemma well_known_equals_iff: "sid_equals (well_known j) (well_known k) \<longleftrightarrow> j = k"
proof -
  have "canon (well_known i) = well_known i" for i
    by (cases i) simp_all
  then have "sid_equals (well_known j) (well_known k) \<longleftrightarrow> well_known j = well_known k"
    by (simp add: sid_equals_canon_eq wf_well_known)
  then show ?thesis by (simp add: well_known_inject)
qed

section \<open>Bytes and back\<close>

definition storable_sid :: "sid \<Rightarrow> bool" where
  "storable_sid s \<longleftrightarrow> wf_sid s \<and> sid_is_valid s"

lemma storable_well_known [wf_intros]: "storable_sid (well_known k)"
  by (simp add: storable_sid_def wf_well_known valid_well_known)

lemma length_sid_to_bytes: "wf_sid s \<Longrightarrow> length (sid_to_bytes s) = sid_size s"
  using subauthority_count_le [of s] by (simp add: sid_to_bytes_def wf_sid_def sid_size_def)

lemma sid_from_to_bytes:
  assumes "storable_sid s"
  shows "sid_from_bytes (sid_to_bytes s @ rest) = Some (canon s)"
proof -
  define subs where "subs = take (subauthority_count s) (sub_authority s)"
  let ?c = "concat (map u32_to_le_bytes subs)"
  define bs where "bs = sid_to_bytes s @ rest"
  have wf: "wf_sid s" and rev: "sid_revision s = SID_REVISION"
    and cnt: "unat (sub_authority_count s) \<le> 8"
    using assms by (simp_all add: storable_sid_def sid_is_valid_def se_consts)
  have sc: "subauthority_count s = unat (sub_authority_count s)"
    using cnt by (simp add: subauthority_count_def se_consts)
  have subs: "length subs = subauthority_count s"
    using wf subauthority_count_le [of s] by (simp add: subs_def wf_sid_def)
  obtain a b c d e f where ia: "identifier_authority s = [a, b, c, d, e, f]"
    using wf_sidD(1) [OF wf] by (rule length6E)
  have bs: "bs = sid_revision s # sub_authority_count s # a # b # c # d # e # f # ?c @ rest"
    by (simp add: bs_def sid_to_bytes_def ia subs_def)
  have word: "le_u32 (bs ! (8 + i * 4)) (bs ! (8 + i * 4 + 1)) (bs ! (8 + i * 4 + 2))
      (bs ! (8 + i * 4 + 3)) = subs ! i" if "i < subauthority_count s" for i
    using that le_u32_concat_le_bytes [of i subs] subs unfolding bs
    by (simp add: nth_append numeral_eq_Suc)
  have arr: "map (\<lambda>i. if i < subauthority_count s
        then le_u32 (bs ! (8 + i * 4)) (bs ! (8 + i * 4 + 1)) (bs ! (8 + i * 4 + 2))
               (bs ! (8 + i * 4 + 3)) else 0) [0..<8]
      = subs @ replicate (8 - subauthority_count s) 0"
    using subauthority_count_le [of s]
    by (intro nth_equalityI) (auto simp: subs nth_append word [simplified])
  have hd: "length bs \<ge> 8 + subauthority_count s * 4" "bs ! 0 = SID_REVISION"
      "bs ! 1 = sub_authority_count s" "slice_of bs 2 8 = identifier_authority s"
    unfolding bs by (simp_all add: subs rev slice_of_def ia)
  show ?thesis
    unfolding sid_from_bytes_def Let_def bs_def [symmetric] hd(2-4) using hd(1) cnt arr sc rev
    by (simp add: se_consts canon_def subs_def)
qed

interpretation sid_codec: byte_codec sid_to_bytes sid_from_bytes sid_size storable_sid canon
  by unfold_locales (simp_all add: length_sid_to_bytes storable_sid_def sid_from_to_bytes)

lemma sid_from_bytes_Some_wf:
  "sid_from_bytes bs = Some s \<Longrightarrow> wf_sid s \<and> sid_is_valid s"
  by (auto simp: sid_from_bytes_def Let_def wf_sid_def sid_is_valid_def slice_of_def se_consts
      split: if_splits)

section \<open>The printer writes the decimal text\<close>

definition sid_text :: "sid \<Rightarrow> string" where
  "sid_text s = ''S-'' @ decimal_string (unat (sid_revision s)) @ ''-''
     @ decimal_string (unat (identifier_authority_u64 s))
     @ concat (map (\<lambda>v. ''-'' @ decimal_string (unat v))
         (take (subauthority_count s) (sub_authority s)))"

lemma write_u64_digits_decimal:
  "0 < v \<Longrightarrow> unat v < 10 ^ room \<Longrightarrow>
     rev (write_u64_digits room v) = utf16_units (decimal_string (unat v))"
proof (induction room arbitrary: v)
  case 0
  then show ?case by (simp add: word_gt_0 unsigned_eq_0_iff)
next
  case (Suc room)
  define n where "n = unat v"
  have q: "unat (v div 10) = n div 10" by (simp add: unat_div n_def)
  have "unat (v mod 10) = n mod 10" by (simp add: unat_mod n_def)
  then have d: "(ucast (v mod 10) :: u16) = of_nat (n mod 10)" by (metis of_nat_unat)
  have step: "rev (write_u64_digits (Suc room) v) =
      rev (write_u64_digits room (v div 10)) @ [48 + of_nat (n mod 10)]"
    using Suc.prems(1) d by simp
  show ?case
  proof (cases "n < 10")
    case True
    with q have "unat (v div 10) = 0" by simp
    then have "v div 10 = 0" by (simp only: unsigned_eq_0_iff)
    then have "write_u64_digits room (v div 10) = []" by (cases room) simp_all
    with True show ?thesis
      unfolding step n_def [symmetric] by (simp add: utf16_units_decimal decimal.simps [of n])
  next
    case False
    with q have "unat (v div 10) \<noteq> 0" by (simp add: div_eq_0_iff)
    then have "0 < v div 10" by (auto simp only: word_gt_0 unsigned_eq_0_iff)
    moreover have "unat (v div 10) < 10 ^ room" using q Suc.prems n_def by simp
    ultimately have "rev (write_u64_digits room (v div 10)) = utf16_units (decimal_string (n div 10))"
      using Suc.IH q by metis
    with False show ?thesis
      unfolding step n_def [symmetric] by (simp add: utf16_units_decimal decimal.simps [of n])
  qed
qed

lemma write_u64_spec:
  fixes v :: u64
  assumes "buf \<noteq> []"
  defines "t \<equiv> utf16_units (decimal_string (unat v))"
  shows "write_u64 buf v = (take (length buf) t @ drop (length t) buf, min (length t) (length buf))"
proof (cases "v = 0")
  case True
  with assms show ?thesis
    by (cases buf) (simp_all add: write_u64_def utf16_units_decimal decimal.simps [of 0])
next
  case False
  have "unat v < 10 ^ 20" using unsigned_less [of v, where ?'a = nat] by simp
  then have t: "rev (write_u64_digits 20 v) = t"
    using False by (simp add: write_u64_digits_decimal t_def word_gt_0 del: write_u64_digits.simps)
  define ds where "ds = write_u64_digits 20 v"
  have rev_ds: "rev ds = t" using t by (simp only: ds_def)
  then have len: "length ds = length t" by (metis length_rev)
  have "map (\<lambda>i. ds ! (length ds - 1 - i)) [0..<min (length ds) (length buf)]
      = take (length buf) (rev ds)"
    by (intro nth_equalityI) (auto simp: rev_nth)
  then have "write_u64 buf v = (take (length buf) t @ drop (min (length t) (length buf)) buf,
      min (length t) (length buf))"
    using False by (simp only: write_u64_def Let_def ds_def [symmetric] len rev_ds if_False)
  then show ?thesis by (simp add: min_def)
qed

definition holds_text :: "u16 list \<Rightarrow> u16 list \<times> nat \<Rightarrow> bool" where
  "holds_text t st \<longleftrightarrow>
     st = (take SID_STRING_MAX (t @ replicate SID_STRING_MAX 0), min SID_STRING_MAX (length t))"

lemma holds_text_start: "holds_text [] (replicate SID_STRING_MAX 0, 0)"
  by (simp add: holds_text_def)

lemma holds_text_room:
  assumes "holds_text t st" "length t < SID_STRING_MAX"
  shows "st = (t @ replicate (SID_STRING_MAX - length t) 0, length t)"
  using assms by (simp add: holds_text_def min_def)

lemma holds_text_full:
  assumes "holds_text t st" "\<not> length t < SID_STRING_MAX"
  shows "st = (take SID_STRING_MAX t, SID_STRING_MAX)"
  using assms by (simp add: holds_text_def min_def)

lemma holds_text_put_unit:
  assumes "holds_text t st"
  shows "holds_text (t @ [c]) (put_unit c st)"
proof (cases "length t < SID_STRING_MAX")
  case True
  then obtain m where m: "SID_STRING_MAX - length t = Suc m" by (metis Suc_diff_Suc)
  with True have "SID_STRING_MAX = Suc (length t + m)" by simp
  with m True holds_text_room [OF assms True] show ?thesis
    by (simp add: put_unit_def holds_text_def list_update_append)
next
  case False
  with holds_text_full [OF assms False] show ?thesis
    by (simp add: put_unit_def holds_text_def)
qed

lemma holds_text_put_u64:
  assumes "holds_text t st"
  shows "holds_text (t @ utf16_units (decimal_string (unat v))) (put_u64 v st)"
proof (cases "length t < SID_STRING_MAX")
  case True
  let ?d = "utf16_units (decimal_string (unat v))"
  have "replicate (SID_STRING_MAX - length t) (0::u16) \<noteq> []" using True by simp
  from write_u64_spec [OF this, of v] holds_text_room [OF assms True] show ?thesis
    using True by (auto simp: put_u64_def holds_text_def min_def)
next
  case False
  with holds_text_full [OF assms False] show ?thesis
    by (simp add: put_u64_def holds_text_def)
qed

lemma sid_to_string_text:
  assumes "wf_sid s"
  shows "sid_to_string s =
    take SID_STRING_MAX (utf16_units (sid_text s) @ replicate SID_STRING_MAX 0)"
proof -
  let ?w = "\<lambda>v :: u64. utf16_units (decimal_string (unat v))"
  let ?subs = "\<lambda>n. concat (map (\<lambda>v. 45 # ?w (ucast v)) (take n (sub_authority s)))"
  have subs: "holds_text (t @ ?subs n)
      (fold (\<lambda>i st. put_u64 (ucast (sub_authority s ! i)) (put_unit 45 st)) [0..<n] st)"
    if "holds_text t st" "n \<le> 8" for t st n
    using that(2)
  proof (induction n)
    case 0
    with that(1) show ?case by simp
  next
    case (Suc n)
    then have "holds_text ((t @ ?subs n) @ [45]) (put_unit 45
          (fold (\<lambda>i st. put_u64 (ucast (sub_authority s ! i)) (put_unit 45 st)) [0..<n] st))"
      by (intro holds_text_put_unit) simp
    from holds_text_put_u64 [OF this, of "ucast (sub_authority s ! n)"]
    have "holds_text (t @ ?subs n @ 45 # ?w (ucast (sub_authority s ! n)))
       (put_u64 (ucast (sub_authority s ! n)) (put_unit 45
          (fold (\<lambda>i st. put_u64 (ucast (sub_authority s ! i)) (put_unit 45 st)) [0..<n] st)))"
      by simp
    moreover have "n < length (sub_authority s)" using Suc.prems assms by (simp add: wf_sid_def)
    ultimately show ?case by (simp add: take_Suc_conv_app_nth)
  qed
  have "holds_text (((((([] @ [83]) @ [45]) @ ?w (ucast (sid_revision s))) @ [45])
      @ ?w (identifier_authority_u64 s)) @ ?subs (subauthority_count s))
     (fold (\<lambda>i st. put_u64 (ucast (sub_authority s ! i)) (put_unit 45 st))
        [0..<subauthority_count s]
        (put_u64 (identifier_authority_u64 s) (put_unit 45 (put_u64 (ucast (sid_revision s))
           (put_unit 45 (put_unit 83 (replicate SID_STRING_MAX 0, 0)))))))"
    by (intro subs subauthority_count_le holds_text_put_u64 holds_text_put_unit holds_text_start)
  moreover have "utf16_units (sid_text s) = ((((([] @ [83]) @ [45]) @ ?w (ucast (sid_revision s))) @ [45])
      @ ?w (identifier_authority_u64 s)) @ ?subs (subauthority_count s)"
    by (simp add: sid_text_def utf16_units_def map_concat comp_def)
  ultimately show ?thesis
    by (simp add: sid_to_string_def holds_text_def)
qed

section \<open>Properties\<close>

text \<open>
  Two identifiers are equal for the code exactly when they agree after their unused
  sub-authorities are cleared, so the comparison is an equivalence and never looks at
  array elements beyond the count.
\<close>

theorem sid_equality_ignores_unused:
  assumes "wf_sid a" "wf_sid b"
  shows "sid_equals a b \<longleftrightarrow> canon a = canon b"
  using assms by (rule sid_equals_canon_eq)

theorem sid_equality_ignores_unused_witness:
  "sid_equals (with_2subs [0, 0, 0, 0, 0, 5] 32 544) (well_known Administrators) \<longleftrightarrow>
     canon (with_2subs [0, 0, 0, 0, 0, 5] 32 544) = canon (well_known Administrators)"
  by (rule sid_equality_ignores_unused) (simp add: wf_with_2subs, rule wf_well_known)

text \<open>
  Reading back the bytes that an access control entry stores for a valid
  identifier gives that identifier with its unused sub-authorities cleared, whatever
  bytes follow.
\<close>

theorem sid_bytes_round_trip:
  assumes "wf_sid s" "sid_is_valid s"
  shows "sid_from_bytes (sid_to_bytes s @ rest) = Some (canon s)"
  using assms by (simp add: sid_codec.dec_enc storable_sid_def)

theorem sid_bytes_round_trip_witness:
  "sid_from_bytes (sid_to_bytes (well_known Administrators) @ [7, 7]) =
     Some (canon (well_known Administrators))"
  by (rule sid_bytes_round_trip) (rule wf_well_known valid_well_known)+

end
