(* ===== verification/Sid_Mgmt.thy ===== *)
theory Sid_Mgmt
  imports Sid
begin

text \<open>
  Allocation, validation, comparison, parsing and domain arithmetic of security
  identifiers, \<open>src/nt61/src/se/sidmgmt.rs\<close>.  A raw pointer argument is an option
  (\<open>None\<close> for null), a returned pointer an option paired with the pool.  The
  functions that index the sub-authority array by the unchecked count of the
  structure return a panic where Rust stops.  Lemmas: parsing inverts printing, a
  domain identifier lies in its domain and carries its relative identifier, and
  exactly the malformed counts panic.
\<close>

section \<open>Allocation and copying\<close>

definition allocate_and_initialize_sid ::
  "u8 list \<Rightarrow> u8 \<Rightarrow> u32 list \<Rightarrow> pool \<Rightarrow> sid option \<times> pool" where
  "allocate_and_initialize_sid ia count subs p =
     (if SID_MAX_SUB_AUTHORITIES < unat count then (None, p)
      else case pool_allocate p of
        (False, p1) \<Rightarrow> (None, p1)
      | (True, p1) \<Rightarrow>
          (Some \<lparr>sid_revision = SID_REVISION, sub_authority_count = count,
             identifier_authority = ia,
             sub_authority = map (\<lambda>i. if i < unat count \<and> i < length subs then subs ! i else 0)
               [0..<SID_MAX_SUB_AUTHORITIES]\<rparr>, p1))"

definition free_sid :: "sid option \<Rightarrow> pool \<Rightarrow> pool" where
  "free_sid s p = (case s of None \<Rightarrow> p | Some _ \<Rightarrow> pool_free p)"

text \<open>\<open>copy_sid\<close> returns its result and the new contents of the destination.\<close>

definition copy_sid :: "sid option \<Rightarrow> sid option \<Rightarrow> bool \<times> sid option" where
  "copy_sid destination source =
     (case (destination, source) of
        (Some _, Some s) \<Rightarrow> (True, Some s)
      | _ \<Rightarrow> (False, destination))"

definition equal_sid :: "sid option \<Rightarrow> sid option \<Rightarrow> bool" where
  "equal_sid a b = (case (a, b) of (Some x, Some y) \<Rightarrow> sid_equals x y | _ \<Rightarrow> False)"

definition valid_sid :: "sid option \<Rightarrow> bool" where
  "valid_sid s = (case s of None \<Rightarrow> False
     | Some x \<Rightarrow> if sid_revision x \<noteq> SID_REVISION then False
                else if SID_MAX_SUB_AUTHORITIES < unat (sub_authority_count x) then False
                else True)"

definition length_sid :: "sid option \<Rightarrow> u32" where
  "length_sid s = (case s of None \<Rightarrow> 0 | Some x \<Rightarrow> of_nat (sid_size x))"

definition identifier_authority_sid :: "sid option \<Rightarrow> u64" where
  "identifier_authority_sid s = (case s of None \<Rightarrow> 0 | Some x \<Rightarrow> identifier_authority_u64 x)"

definition sub_authority_count_sid :: "sid option \<Rightarrow> u8" where
  "sub_authority_count_sid s = (case s of None \<Rightarrow> 0 | Some x \<Rightarrow> sub_authority_count x)"

text \<open>The pointer that \<open>sub_authority_sid\<close> returns is given by the array slot it designates.\<close>

definition sub_authority_sid :: "sid option \<Rightarrow> u32 \<Rightarrow> nat option rust" where
  "sub_authority_sid s i = (case s of None \<Rightarrow> Inr None
     | Some x \<Rightarrow> if unat (sub_authority_count x) \<le> unat i then Inr None
                else (case index (sub_authority x) (unat i) of
                        Inl e \<Rightarrow> Inl e | Inr _ \<Rightarrow> Inr (Some (unat i))))"

section \<open>Text\<close>

fun unicode_prefix :: "u16 list \<Rightarrow> nat \<Rightarrow> u16 list" where
  "unicode_prefix [] k = []"
| "unicode_prefix (c # cs) 0 = []"
| "unicode_prefix (c # cs) (Suc k) = (if c = 0 then [] else c # unicode_prefix cs k)"

definition convert_sid_to_unicode_string ::
  "sid option \<Rightarrow> u16 list \<Rightarrow> nat \<Rightarrow> bool \<times> u16 list" where
  "convert_sid_to_unicode_string s output max_length =
     (case s of None \<Rightarrow> (False, output)
      | Some x \<Rightarrow> if output = [] then (False, output)
        else let copied = unicode_prefix (sid_to_string x)
                    (min (min max_length (length output)) SID_STRING_MAX);
                 len = length copied;
                 out = overwrite output 0 copied
             in (True, if len < length output then out[len := 0] else out))"

fun split_on :: "char \<Rightarrow> string \<Rightarrow> string list" where
  "split_on d [] = [[]]"
| "split_on d (c # cs) =
     (if c = d then [] # split_on d cs
      else case split_on d cs of [] \<Rightarrow> [[c]] | w # ws \<Rightarrow> (c # w) # ws)"

definition digit_value :: "char \<Rightarrow> nat option" where
  "digit_value c = (let n = of_char c :: nat in if 48 \<le> n \<and> n < 58 then Some (n - 48) else None)"

text \<open>
  \<open>str::parse\<close> of an unsigned integer type with \<open>bound\<close> values: empty text and a lone
  sign are errors, one leading plus sign is skipped, every other character must be a
  digit and no prefix may overflow.
\<close>

fun parse_digits :: "nat \<Rightarrow> nat \<Rightarrow> string \<Rightarrow> nat option" where
  "parse_digits bound acc [] = Some acc"
| "parse_digits bound acc (c # cs) =
     (case digit_value c of None \<Rightarrow> None
      | Some d \<Rightarrow> let v = acc * 10 + d in if bound \<le> v then None else parse_digits bound v cs)"

definition parse_unsigned :: "nat \<Rightarrow> string \<Rightarrow> nat option" where
  "parse_unsigned bound s =
     (case s of [] \<Rightarrow> None
      | c # cs \<Rightarrow> if c = CHR ''+'' then (if cs = [] then None else parse_digits bound 0 cs)
                 else parse_digits bound 0 s)"

fun parse_subs :: "string list \<Rightarrow> u32 list option" where
  "parse_subs [] = Some []"
| "parse_subs (w # ws) =
     (case parse_unsigned (2 ^ 32) w of None \<Rightarrow> None
      | Some v \<Rightarrow> (case parse_subs ws of None \<Rightarrow> None | Some vs \<Rightarrow> Some (of_nat v # vs)))"

definition parse_sid_string :: "string \<Rightarrow> sid option" where
  "parse_sid_string t =
     (let parts = split_on (CHR ''-'') t in
      if length parts < 3 \<or> parts ! 0 \<noteq> ''S'' then None
      else case parse_unsigned (2 ^ 8) (parts ! 1) of
        None \<Rightarrow> None
      | Some rv \<Rightarrow>
          if (of_nat rv :: u8) \<noteq> SID_REVISION then None
          else case parse_unsigned (2 ^ 64) (parts ! 2) of
            None \<Rightarrow> None
          | Some iv \<Rightarrow>
              let ia_value = (of_nat iv :: u64);
                  ia = [ucast (drop_bit 40 ia_value AND 255), ucast (drop_bit 32 ia_value AND 255),
                        ucast (drop_bit 24 ia_value AND 255), ucast (drop_bit 16 ia_value AND 255),
                        ucast (drop_bit 8 ia_value AND 255), ucast (ia_value AND 255)];
                  sub_count = min (length parts - 3) SID_MAX_SUB_AUTHORITIES
              in case parse_subs (take sub_count (drop 3 parts)) of
                None \<Rightarrow> None
              | Some vs \<Rightarrow>
                  let a = vs @ replicate (SID_MAX_SUB_AUTHORITIES - sub_count) 0
                  in Some (with_authority_and_subs_arr ia (of_nat sub_count)
                       (a ! 0) (a ! 1) (a ! 2) (a ! 3) (a ! 4) (a ! 5) (a ! 6) (a ! 7)))"

section \<open>Well-known and domain identifiers\<close>

definition allocate_well_known_sid :: "well_known_sid \<Rightarrow> pool \<Rightarrow> sid option \<times> pool" where
  "allocate_well_known_sid which p = (case pool_allocate p of
     (False, p1) \<Rightarrow> (None, p1) | (True, p1) \<Rightarrow> (Some (well_known which), p1))"

definition is_well_known_sid :: "sid option \<Rightarrow> well_known_sid \<Rightarrow> bool" where
  "is_well_known_sid s which =
     (case s of None \<Rightarrow> False | Some x \<Rightarrow> sid_equals x (well_known which))"

definition get_sid_rid :: "sid option \<Rightarrow> u32 rust" where
  "get_sid_rid s = (case s of None \<Rightarrow> Inr 0
     | Some x \<Rightarrow> let count = unat (sub_authority_count x) in
         if count = 0 then Inr 0 else index (sub_authority x) (count - 1))"

fun same_subs :: "u32 list \<Rightarrow> u32 list \<Rightarrow> nat list \<Rightarrow> bool rust" where
  "same_subs a b [] = Inr True"
| "same_subs a b (i # is) =
     (case index a i of Inl e \<Rightarrow> Inl e
      | Inr x \<Rightarrow> (case index b i of Inl e \<Rightarrow> Inl e
                | Inr y \<Rightarrow> if x \<noteq> y then Inr False else same_subs a b is))"

definition sid_in_domain :: "sid option \<Rightarrow> sid option \<Rightarrow> bool rust" where
  "sid_in_domain s0 d0 = (case (s0, d0) of
     (Some s, Some d) \<Rightarrow>
       if identifier_authority_u64 s \<noteq> identifier_authority_u64 d then Inr False
       else if sub_authority_count s < sub_authority_count d then Inr False
       else same_subs (sub_authority s) (sub_authority d) [0..<unat (sub_authority_count d)]
   | _ \<Rightarrow> Inr False)"

definition create_domain_sid :: "sid option \<Rightarrow> u32 \<Rightarrow> pool \<Rightarrow> sid option \<times> pool" where
  "create_domain_sid d0 rid p = (case d0 of None \<Rightarrow> (None, p)
     | Some domain \<Rightarrow>
         if SID_MAX_SUB_AUTHORITIES \<le> unat (sub_authority_count domain) then (None, p)
         else case pool_allocate p of
           (False, p1) \<Rightarrow> (None, p1)
         | (True, p1) \<Rightarrow>
             let new_count = sub_authority_count domain + 1
             in (Some (domain\<lparr>sub_authority_count := new_count,
                   sub_authority := (sub_authority domain)[unat new_count - 1 := rid]\<rparr>), p1))"

definition create_integrity_sid :: "u32 \<Rightarrow> pool \<Rightarrow> sid option \<times> pool" where
  "create_integrity_sid level p = allocate_and_initialize_sid [0, 0, 0, 0, 0, 16] 1 [level] p"

section \<open>Allocation keeps the invariant\<close>

lemma allocate_and_initialize_sid_spec:
  assumes "allocate_and_initialize_sid ia count subs p = (Some s, p')" "length ia = 6"
    "unat count \<le> length subs"
  shows "storable_sid s" "sub_authority_count s = count" "identifier_authority s = ia"
    "take (unat count) (sub_authority s) = take (unat count) subs"
    "pool_live p' = pool_live p + 1"
  using assms
  by (auto simp: allocate_and_initialize_sid_def storable_sid_def wf_sid_def sid_is_valid_def
      se_consts pool_live_allocate list_eq_iff_nth_eq split: if_splits prod.splits bool.splits)

lemma valid_sid_iff [simp]: "valid_sid (Some s) \<longleftrightarrow> sid_is_valid s" "\<not> valid_sid None"
  by (auto simp: valid_sid_def sid_is_valid_def)

section \<open>Parsing inverts printing\<close>

lemma split_on_ne [simp]: "split_on d cs \<noteq> []"
  by (induction cs) (auto split: list.splits)

lemma split_on_word:
  "d \<notin> set w \<Longrightarrow> split_on d (w @ d # cs) = w # split_on d cs"
  by (induction w) auto

lemma split_on_last: "d \<notin> set w \<Longrightarrow> split_on d w = [w]"
  by (induction w) auto

lemma split_on_join:
  "d \<notin> set w \<Longrightarrow> \<forall>v \<in> set ws. d \<notin> set v \<Longrightarrow>
     split_on d (w @ concat (map (\<lambda>v. d # v) ws)) = w # ws"
  by (induction ws arbitrary: w) (simp_all add: split_on_last split_on_word)

lemma digit_value_digit_char [simp]: "d < 10 \<Longrightarrow> digit_value (digit_char d) = Some d"
  by (simp add: digit_value_def of_char_digit_char)

lemma digit_char_plain:
  assumes "d < 10"
  shows "digit_char d \<noteq> CHR ''-''" "digit_char d \<noteq> CHR ''+''"
proof -
  have "(of_char (digit_char d) :: nat) = 48 + d" by (rule of_char_digit_char [OF assms])
  then show "digit_char d \<noteq> CHR ''-''" "digit_char d \<noteq> CHR ''+''" by auto
qed

lemma dash_notin_decimal_string: "CHR ''-'' \<notin> set (decimal_string n)"
proof
  assume "CHR ''-'' \<in> set (decimal_string n)"
  then obtain d where "d \<in> set (decimal n)" "digit_char d = CHR ''-''"
    by (metis decimal_string_def imageE list.set_map)
  then show False using digit_char_plain(1) [OF decimal_digits] by blast
qed

lemma parse_digits_append:
  "parse_digits b a (xs @ ys) =
     (case parse_digits b a xs of None \<Rightarrow> None | Some v \<Rightarrow> parse_digits b v ys)"
  by (induction xs arbitrary: a) (auto simp: Let_def split: option.splits)

lemma parse_digits_decimal: "n < b \<Longrightarrow> parse_digits b 0 (decimal_string n) = Some n"
proof (induction n rule: decimal.induct)
  case (1 n)
  show ?case
  proof (cases "n < 10")
    case True
    with 1 show ?thesis by (simp add: decimal_string_def decimal.simps [of n])
  next
    case False
    then have "decimal_string n = decimal_string (n div 10) @ [digit_char (n mod 10)]"
      by (simp add: decimal_string_def decimal.simps [of n])
    moreover have "parse_digits b 0 (decimal_string (n div 10)) = Some (n div 10)"
      using 1 False by simp
    moreover have "n div 10 * 10 + n mod 10 = n" by simp
    ultimately show ?thesis using 1(2) by (simp add: parse_digits_append Let_def)
  qed
qed

lemma parse_unsigned_decimal: "n < b \<Longrightarrow> parse_unsigned b (decimal_string n) = Some n"
proof -
  assume n: "n < b"
  obtain d ds where ds: "decimal n = d # ds" by (cases "decimal n") simp_all
  then have "digit_char d \<noteq> CHR ''+''" by (intro digit_char_plain decimal_digits [of d n]) simp
  then show ?thesis
    using parse_digits_decimal [OF n] ds by (simp add: parse_unsigned_def decimal_string_def)
qed

lemma parse_subs_decimal:
  "parse_subs (map (\<lambda>v. decimal_string (unat v)) vs) = Some vs"
proof (induction vs)
  case (Cons v vs)
  have "unat v < 2 ^ 32" using unsigned_less [of v, where ?'a = nat] by simp
  then show ?case using Cons parse_unsigned_decimal by simp
qed simp

lemma length8E:
  assumes "length xs = 8"
  obtains a b c d e f g h where "xs = [a, b, c, d, e, f, g, h]"
  using assms by (auto simp: numeral_eq_Suc length_Suc_conv)

lemma split_on_sid_text:
  "split_on (CHR ''-'') (sid_text s) =
     [''S'', decimal_string (unat (sid_revision s)),
      decimal_string (unat (identifier_authority_u64 s))]
     @ map (\<lambda>v. decimal_string (unat v)) (take (subauthority_count s) (sub_authority s))"
proof -
  let ?d = "CHR ''-''"
  let ?ws = "[decimal_string (unat (sid_revision s)),
      decimal_string (unat (identifier_authority_u64 s))]
     @ map (\<lambda>v. decimal_string (unat v)) (take (subauthority_count s) (sub_authority s))"
  have "sid_text s = ''S'' @ concat (map (\<lambda>v. ?d # v) ?ws)"
    by (simp add: sid_text_def comp_def)
  moreover have "\<forall>v \<in> set ?ws. ?d \<notin> set v" by (auto simp: dash_notin_decimal_string)
  ultimately show ?thesis using split_on_join [of ?d "''S''" ?ws] by simp
qed

lemma parse_sid_text:
  assumes "storable_sid s"
  shows "parse_sid_string (sid_text s) = Some (canon s)"
proof -
  define subs where "subs = take (subauthority_count s) (sub_authority s)"
  have wf: "wf_sid s" and rv: "sid_revision s = 1" and cnt: "unat (sub_authority_count s) \<le> 8"
    using assms by (simp_all add: storable_sid_def sid_is_valid_def se_consts)
  have sc: "subauthority_count s = unat (sub_authority_count s)"
    using cnt by (simp add: subauthority_count_def se_consts)
  have len: "length subs = subauthority_count s"
    using wf subauthority_count_le [of s] by (simp add: subs_def wf_sid_def)
  have iv: "parse_unsigned (2 ^ 64) (decimal_string (unat (identifier_authority_u64 s)))
      = Some (unat (identifier_authority_u64 s))"
    using unsigned_less [of "identifier_authority_u64 s", where ?'a = nat]
    by (intro parse_unsigned_decimal) simp
  have one: "parse_unsigned (2 ^ 8) (decimal_string 1) = Some 1"
    by (rule parse_unsigned_decimal) simp
  have ia: "identifier_authority s = [ucast (drop_bit 40 v AND 255), ucast (drop_bit 32 v AND 255),
      ucast (drop_bit 24 v AND 255), ucast (drop_bit 16 v AND 255), ucast (drop_bit 8 v AND 255),
      ucast (v AND 255)]" if "v = identifier_authority_u64 s" for v
    using identifier_authority_u64_bytes [OF wf] by (simp only: that ucast_and_255 list.map drop_bit_0 id_apply)
  obtain a b c d e f g h where arr: "subs @ replicate (8 - subauthority_count s) 0
      = [a, b, c, d, e, f, g, h]"
    by (rule length8E [of "subs @ replicate (8 - subauthority_count s) 0"])
      (use len subauthority_count_le [of s] in auto)
  have canon: "canon s = \<lparr>sid_revision = 1, sub_authority_count = sub_authority_count s,
      identifier_authority = identifier_authority s, sub_authority = [a, b, c, d, e, f, g, h]\<rparr>"
    using rv arr by (intro sid.equality) (simp_all add: canon_def subs_def)
  show ?thesis
    unfolding parse_sid_string_def split_on_sid_text subs_def [symmetric] canon
    using iv one arr len sc cnt ia [OF refl] rv parse_subs_decimal [of subs]
    by (simp add: Let_def se_consts with_authority_and_subs_arr_def)
qed

section \<open>Domain identifiers\<close>

lemma same_subs_spec:
  "\<forall>i \<in> set is. i < length a \<and> i < length b \<Longrightarrow>
     same_subs a b is = Inr (\<forall>i \<in> set is. a ! i = b ! i)"
  by (induction "is") auto

lemma sid_in_domain_spec:
  assumes "wf_sid s" "wf_sid d" "sid_is_valid d"
  shows "sid_in_domain (Some s) (Some d) = Inr
    (identifier_authority s = identifier_authority d \<and>
     sub_authority_count d \<le> sub_authority_count s \<and>
     take (unat (sub_authority_count d)) (sub_authority s)
       = take (unat (sub_authority_count d)) (sub_authority d))"
proof -
  have "same_subs (sub_authority s) (sub_authority d) [0..<unat (sub_authority_count d)]
      = Inr (take (unat (sub_authority_count d)) (sub_authority s)
         = take (unat (sub_authority_count d)) (sub_authority d))"
    using assms
    by (subst same_subs_spec)
      (auto simp: wf_sid_def sid_is_valid_def se_consts list_eq_iff_nth_eq)
  then show ?thesis
    using assms by (auto simp: sid_in_domain_def identifier_authority_u64_inject not_less)
qed

lemma unat_succ_u8: "unat (c :: u8) < 8 \<Longrightarrow> unat (c + 1) = unat c + 1"
  by (simp add: unat_word_ariths)

lemma create_domain_sid_spec:
  assumes "wf_sid d" "sid_revision d = SID_REVISION"
    and "create_domain_sid (Some d) rid p = (Some s, p')"
  shows "storable_sid s" "get_sid_rid (Some s) = Inr rid" "sid_in_domain (Some s) (Some d) = Inr True"
    "pool_live p' = pool_live p + 1"
proof -
  have c: "unat (sub_authority_count d) < 8"
    and s: "s = d\<lparr>sub_authority_count := sub_authority_count d + 1,
       sub_authority := (sub_authority d)[unat (sub_authority_count d + 1) - 1 := rid]\<rparr>"
    and p: "pool_live p' = pool_live p + 1"
    using assms(3) by (auto simp: create_domain_sid_def se_consts Let_def pool_live_allocate
        split: if_splits prod.splits bool.splits)
  show "pool_live p' = pool_live p + 1" by (rule p)
  show st: "storable_sid s"
    using assms(1,2) c unat_succ_u8 [OF c]
    by (simp add: s storable_sid_def wf_sid_def sid_is_valid_def se_consts)
  show "get_sid_rid (Some s) = Inr rid"
    using assms(1) c unat_succ_u8 [OF c] by (simp add: get_sid_rid_def s wf_sid_def Let_def)
  have "sub_authority_count d \<le> sub_authority_count d + 1"
    using unat_succ_u8 [OF c] by (simp add: word_le_nat_alt)
  then show "sid_in_domain (Some s) (Some d) = Inr True"
    using assms(1,2) st c unat_succ_u8 [OF c]
    by (subst sid_in_domain_spec) (simp_all add: s storable_sid_def sid_is_valid_def se_consts)
qed

lemma get_sid_rid_panics_iff:
  assumes "wf_sid s"
  shows "(\<exists>e. get_sid_rid (Some s) = Inl e) \<longleftrightarrow> 8 < unat (sub_authority_count s)"
  using assms by (auto simp: get_sid_rid_def wf_sid_def Let_def index_def)

section \<open>Properties\<close>

text \<open>
  C34: Printing a valid identifier whose text fits the 30-unit buffer writes the text
  padded with zeros, and parsing that text gives the identifier back.
\<close>

theorem sid_print_parse_round_trip:
  assumes "wf_sid s" "sid_is_valid s" "length (sid_text s) \<le> 30"
  shows "\<exists>txt. sid_to_string s = utf16_units txt @ replicate (30 - length txt) 0
    \<and> parse_sid_string txt = Some (canon s)"
  using assms sid_to_string_text [of s] parse_sid_text [of s]
  by (intro exI [of _ "sid_text s"]) (simp add: se_consts storable_sid_def)

theorem sid_print_parse_round_trip_witness:
  "\<exists>txt. sid_to_string (well_known LocalSystem) = utf16_units txt @ replicate (30 - length txt) 0
    \<and> parse_sid_string txt = Some (canon (well_known LocalSystem))"
proof (rule sid_print_parse_round_trip)
  show "wf_sid (well_known LocalSystem)" "sid_is_valid (well_known LocalSystem)"
    by (rule wf_well_known valid_well_known)+
  show "length (sid_text (well_known LocalSystem)) \<le> 30"
    by (simp add: sid_text_def wk1_def identifier_authority_u64_def subauthority_count_def se_consts
        decimal_string_def decimal.simps)
qed

text \<open>
  An identifier made from a domain and a relative identifier is valid, lies in that
  domain, has that relative identifier, and costs one pool block.
\<close>

theorem domain_sid_membership:
  assumes "wf_sid d" "sid_revision d = SID_REVISION"
    and "create_domain_sid (Some d) rid p = (Some s, p')"
  shows "sid_is_valid s \<and> get_sid_rid (Some s) = Inr rid
    \<and> sid_in_domain (Some s) (Some d) = Inr True \<and> pool_live p' = pool_live p + 1"
  using create_domain_sid_spec [OF assms] by (simp add: storable_sid_def)

theorem domain_sid_membership_witness:
  "\<exists>s p'. create_domain_sid (Some (with_2subs [0, 0, 0, 0, 0, 5] 21 7)) 500 \<lparr>pool_script = [True], pool_live = 3\<rparr>
      = (Some s, p') \<and> get_sid_rid (Some s) = Inr 500
      \<and> sid_in_domain (Some s) (Some (with_2subs [0, 0, 0, 0, 0, 5] 21 7)) = Inr True"
proof -
  let ?d = "with_2subs [0, 0, 0, 0, 0, 5] 21 7"
  have wf: "wf_sid ?d" "sid_revision ?d = SID_REVISION"
    by (simp add: wf_with_2subs) (simp add: with_2subs_def)
  obtain s p' where s: "create_domain_sid (Some ?d) 500 \<lparr>pool_script = [True], pool_live = 3\<rparr> = (Some s, p')"
    by (simp add: create_domain_sid_def with_2subs_def pool_allocate_def Let_def se_consts)
  show ?thesis using s domain_sid_membership [OF wf s] by blast
qed

text \<open>
  Reading the relative identifier of an identifier stops the program exactly when
  the stored count exceeds the eight array elements; a null pointer reads as zero.
\<close>

theorem get_sid_rid_errors:
  assumes "wf_sid s"
  shows "((\<exists>e. get_sid_rid (Some s) = Inl e) \<longleftrightarrow> 8 < unat (sub_authority_count s))
    \<and> get_sid_rid None = Inr 0"
  using get_sid_rid_panics_iff [OF assms] by (simp_all add: get_sid_rid_def)

theorem get_sid_rid_errors_witness:
  "\<exists>e. get_sid_rid (Some (sid_new\<lparr>sub_authority_count := 9\<rparr>)) = Inl e"
proof -
  have "wf_sid (sid_new\<lparr>sub_authority_count := 9\<rparr>)" by (simp add: wf_sid_def sid_new_def)
  from get_sid_rid_errors [OF this] show ?thesis by simp
qed

end
