(* ===== verification/Acl.thy ===== *)
theory Acl
  imports Sid
begin

text \<open>
  Access control lists, \<open>src/nt61/src/se/acl.rs\<close>: the entry types, flags and masks, and
  the fixed-size list whose entries are encoded one after the other in a byte array
  of 512 bytes.  The abstract view of a list is the list of its encoded entries
  (\<open>acl_rep\<close>).  Lemmas: the validity check accepts exactly the arrays that have such a
  view, the view is unique, and adding an entry appends its encoding to the view or
  leaves the list as it was.
\<close>

section \<open>Entry headers, types and flags\<close>

definition ACL_REVISION :: u8 where [se_consts]: "ACL_REVISION = 2"
definition ACL_REVISION_DS :: u8 where [se_consts]: "ACL_REVISION_DS = 4"
definition MAX_ACES :: nat where [se_consts]: "MAX_ACES = 16"
definition ACE_HEADER_SIZE :: nat where [se_consts]: "ACE_HEADER_SIZE = 4"

datatype ace_type =
    AccessAllowed | AccessDenied | SystemAudit | SystemAlarm | AccessAllowedCompound
  | AccessAllowedObject | AccessDeniedObject | SystemAuditObject | SystemAlarmObject
  | AccessAllowedCallback | AccessDeniedCallback | AccessAllowedCallbackObject
  | AccessDeniedCallbackObject | SystemAuditCallback | SystemAlarmCallback
  | SystemAuditCallbackObject | SystemAlarmCallbackObject | SystemMandatoryLabel
  | SystemResourceAttribute | SystemScopedPolicy | SystemProcessTrustLabel

primrec ace_type_as_u8 :: "ace_type \<Rightarrow> u8" where
  "ace_type_as_u8 AccessAllowed = 0x00"
| "ace_type_as_u8 AccessDenied = 0x01"
| "ace_type_as_u8 SystemAudit = 0x02"
| "ace_type_as_u8 SystemAlarm = 0x03"
| "ace_type_as_u8 AccessAllowedCompound = 0x04"
| "ace_type_as_u8 AccessAllowedObject = 0x05"
| "ace_type_as_u8 AccessDeniedObject = 0x06"
| "ace_type_as_u8 SystemAuditObject = 0x07"
| "ace_type_as_u8 SystemAlarmObject = 0x08"
| "ace_type_as_u8 AccessAllowedCallback = 0x09"
| "ace_type_as_u8 AccessDeniedCallback = 0x0A"
| "ace_type_as_u8 AccessAllowedCallbackObject = 0x0B"
| "ace_type_as_u8 AccessDeniedCallbackObject = 0x0C"
| "ace_type_as_u8 SystemAuditCallback = 0x0D"
| "ace_type_as_u8 SystemAlarmCallback = 0x0E"
| "ace_type_as_u8 SystemAuditCallbackObject = 0x0F"
| "ace_type_as_u8 SystemAlarmCallbackObject = 0x10"
| "ace_type_as_u8 SystemMandatoryLabel = 0x11"
| "ace_type_as_u8 SystemResourceAttribute = 0x12"
| "ace_type_as_u8 SystemScopedPolicy = 0x13"
| "ace_type_as_u8 SystemProcessTrustLabel = 0x14"

definition ace_type_from_u8 :: "u8 \<Rightarrow> ace_type option" where
  "ace_type_from_u8 v =
     (if v = 0x00 then Some AccessAllowed
      else if v = 0x01 then Some AccessDenied
      else if v = 0x02 then Some SystemAudit
      else if v = 0x03 then Some SystemAlarm
      else if v = 0x04 then Some AccessAllowedCompound
      else if v = 0x05 then Some AccessAllowedObject
      else if v = 0x06 then Some AccessDeniedObject
      else if v = 0x07 then Some SystemAuditObject
      else if v = 0x08 then Some SystemAlarmObject
      else if v = 0x09 then Some AccessAllowedCallback
      else if v = 0x0A then Some AccessDeniedCallback
      else if v = 0x0B then Some AccessAllowedCallbackObject
      else if v = 0x0C then Some AccessDeniedCallbackObject
      else if v = 0x0D then Some SystemAuditCallback
      else if v = 0x0E then Some SystemAlarmCallback
      else if v = 0x0F then Some SystemAuditCallbackObject
      else if v = 0x10 then Some SystemAlarmCallbackObject
      else if v = 0x11 then Some SystemMandatoryLabel
      else if v = 0x12 then Some SystemResourceAttribute
      else if v = 0x13 then Some SystemScopedPolicy
      else if v = 0x14 then Some SystemProcessTrustLabel
      else None)"

definition is_allowed :: "ace_type \<Rightarrow> bool" where
  "is_allowed t \<longleftrightarrow> t = AccessAllowed \<or> t = AccessAllowedCallback
     \<or> t = AccessAllowedCallbackObject \<or> t = AccessAllowedObject"

definition is_denied :: "ace_type \<Rightarrow> bool" where
  "is_denied t \<longleftrightarrow> t = AccessDenied \<or> t = AccessDeniedCallback \<or> t = AccessDeniedCallbackObject"

type_synonym ace_flags = u8

definition ACE_NONE :: ace_flags where "ACE_NONE = 0"
definition OBJECT_INHERIT :: ace_flags where "OBJECT_INHERIT = 0x01"
definition CONTAINER_INHERIT :: ace_flags where "CONTAINER_INHERIT = 0x02"

record ace_header =
  hdr_type :: u8
  hdr_flags :: u8
  hdr_size :: u16

definition ace_header_new :: "ace_type \<Rightarrow> ace_flags \<Rightarrow> u16 \<Rightarrow> ace_header" where
  "ace_header_new t f n = \<lparr>hdr_type = ace_type_as_u8 t, hdr_flags = f, hdr_size = n\<rparr>"

definition ace_header_mask :: "u8 list \<Rightarrow> u32" where
  "ace_header_mask ace = (let offset = ACE_HEADER_SIZE in
     if length ace < offset + 4 then 0
     else le_u32 (ace ! offset) (ace ! (offset + 1)) (ace ! (offset + 2)) (ace ! (offset + 3)))"

definition ACCESS_DELETE :: u32 where [se_consts]: "ACCESS_DELETE = 0x00010000"
definition ACCESS_READ_CONTROL :: u32 where [se_consts]: "ACCESS_READ_CONTROL = 0x00020000"
definition ACCESS_WRITE_DAC :: u32 where [se_consts]: "ACCESS_WRITE_DAC = 0x00040000"
definition ACCESS_WRITE_OWNER :: u32 where [se_consts]: "ACCESS_WRITE_OWNER = 0x00080000"
definition ACCESS_SYNCHRONIZE :: u32 where [se_consts]: "ACCESS_SYNCHRONIZE = 0x00100000"
definition ACCESS_SYSTEM_SECURITY :: u32 where [se_consts]: "ACCESS_SYSTEM_SECURITY = 0x01000000"
definition ACCESS_MAXIMUM_ALLOWED :: u32 where [se_consts]: "ACCESS_MAXIMUM_ALLOWED = 0x02000000"
definition ACCESS_GENERIC_ALL :: u32 where [se_consts]: "ACCESS_GENERIC_ALL = 0x10000000"
definition ACCESS_GENERIC_READ :: u32 where [se_consts]: "ACCESS_GENERIC_READ = 0x80000000"
definition ACCESS_GENERIC_WRITE :: u32 where [se_consts]: "ACCESS_GENERIC_WRITE = 0x40000000"
definition ACCESS_GENERIC_EXECUTE :: u32 where [se_consts]: "ACCESS_GENERIC_EXECUTE = 0x20000000"

section \<open>The list\<close>

record acl =
  acl_revision :: u8
  acl_sbz1 :: u8
  acl_size :: u16
  ace_count :: u16
  acl_sbz2 :: u16
  acl_data :: "u8 list"

definition wf_acl :: "acl \<Rightarrow> bool" where
  "wf_acl a \<longleftrightarrow> length (acl_data a) = MAX_ACES * 32"

definition acl_new :: acl where
  "acl_new = \<lparr>acl_revision = ACL_REVISION, acl_sbz1 = 0, acl_size = 8, ace_count = 0,
     acl_sbz2 = 0, acl_data = replicate (MAX_ACES * 32) 0\<rparr>"

definition acl_size_usize :: "acl \<Rightarrow> nat" where
  "acl_size_usize a = unat (acl_size a)"

definition ace_count_usize :: "acl \<Rightarrow> nat" where
  "ace_count_usize a = unat (ace_count a)"

text \<open>
  The loop of \<open>used_size\<close> with its remaining count and the offset reached.  The checked
  additions of the source cannot overflow, the operands being at most 65535; every
  byte is read below \<open>limit\<close>, which is at most the length of the array.
\<close>

definition sid_ace_byte :: "u8 \<Rightarrow> bool" where
  "sid_ace_byte b \<longleftrightarrow> b \<in> {0x00, 0x01, 0x02, 0x09, 0x0A, 0x0D, 0x0E, 0x11, 0x14}"

definition ace_size_at :: "u8 list \<Rightarrow> nat \<Rightarrow> nat" where
  "ace_size_at d offset = unat (le_u16 (d ! (offset + 2)) (d ! (offset + 3)))"

fun used_size_loop :: "u8 list \<Rightarrow> nat \<Rightarrow> nat \<Rightarrow> nat \<Rightarrow> nat option" where
  "used_size_loop d limit 0 offset = (if offset = limit then Some offset else None)"
| "used_size_loop d limit (Suc n) offset =
     (if limit < offset + ACE_HEADER_SIZE then None
      else let ace_size = ace_size_at d offset in
        if ace_size < ACE_HEADER_SIZE + 4 then None
        else let ace_end = offset + ace_size in
          if limit < ace_end then None
          else if ace_type_from_u8 (d ! offset) = None then None
          else if sid_ace_byte (d ! offset)
            \<and> (ace_size < 16 \<or> sid_from_bytes (slice_of d (offset + 8) ace_end) = None) then None
          else used_size_loop d limit n ace_end)"

definition used_size :: "acl \<Rightarrow> nat option" where
  "used_size a =
     (if acl_size a < 8 \<or> length (acl_data a) < unat (acl_size a)
       \<or> acl_revision a \<noteq> ACL_REVISION \<and> acl_revision a \<noteq> ACL_REVISION_DS
       \<or> MAX_ACES < unat (ace_count a) then None
      else used_size_loop (acl_data a) (unat (acl_size a)) (unat (ace_count a)) 8)"

definition acl_is_valid :: "acl \<Rightarrow> bool" where
  "acl_is_valid a \<longleftrightarrow> used_size a \<noteq> None"

definition write_ace :: "ace_type \<Rightarrow> ace_flags \<Rightarrow> u16 \<Rightarrow> u32 \<Rightarrow> sid \<Rightarrow> nat \<Rightarrow> u8 list \<Rightarrow> u8 list" where
  "write_ace t flags ace_size msk s offset d =
     (let d1 = d[offset := ace_type_as_u8 t, offset + 1 := flags,
            offset + 2 := ucast (ace_size AND 255), offset + 3 := ucast (drop_bit 8 ace_size)];
          d2 = d1[offset + 4 := ucast (msk AND 255), offset + 5 := ucast (drop_bit 8 msk AND 255),
            offset + 6 := ucast (drop_bit 16 msk AND 255),
            offset + 7 := ucast (drop_bit 24 msk AND 255)];
          sid_offset = offset + ACE_HEADER_SIZE + 4;
          d3 = overwrite (d2[sid_offset := sid_revision s, sid_offset + 1 := sub_authority_count s])
            (sid_offset + 2) (identifier_authority s)
      in fold (\<lambda>i d. overwrite d (sid_offset + 8 + i * 4) (u32_to_le_bytes (sub_authority s ! i)))
           [0..<subauthority_count s] d3)"

definition add_ace :: "ace_type \<Rightarrow> ace_flags \<Rightarrow> u32 \<Rightarrow> sid \<Rightarrow> acl \<Rightarrow> bool \<times> acl" where
  "add_ace t flags msk s a =
     (if \<not> sid_is_valid s \<or> MAX_ACES \<le> unat (ace_count a) then (False, a)
      else let sid_bytes = sid_size s;
               ace_size = (of_nat (ACE_HEADER_SIZE + 4 + sid_bytes) :: u16) in
        case used_size a of
          None \<Rightarrow> (False, a)
        | Some offset \<Rightarrow>
            if length (acl_data a) < offset + unat ace_size then (False, a)
            else (True, a\<lparr>acl_data := write_ace t flags ace_size msk s offset (acl_data a),
                     ace_count := ace_count a + 1,
                     acl_size := of_nat (offset + unat ace_size)\<rparr>))"

definition add_access_allowed :: "sid \<Rightarrow> u32 \<Rightarrow> ace_flags \<Rightarrow> acl \<Rightarrow> bool \<times> acl" where
  "add_access_allowed s msk flags a = add_ace AccessAllowed flags msk s a"

definition add_access_denied :: "sid \<Rightarrow> u32 \<Rightarrow> ace_flags \<Rightarrow> acl \<Rightarrow> bool \<times> acl" where
  "add_access_denied s msk flags a = add_ace AccessDenied flags msk s a"

definition create_default_dacl :: acl where
  "create_default_dacl = acl_new"

definition is_null_dacl :: "acl option \<Rightarrow> bool" where
  "is_null_dacl acl0 = (case acl0 of None \<Rightarrow> True
     | Some a \<Rightarrow> acl_size a = 0 \<and> ace_count a = 0)"

section \<open>Entry types\<close>

lemma ace_type_from_as_u8 [simp]: "ace_type_from_u8 (ace_type_as_u8 t) = Some t"
  by (cases t) (simp_all add: ace_type_from_u8_def)

lemma ace_type_as_from_u8: "ace_type_from_u8 v = Some t \<Longrightarrow> ace_type_as_u8 t = v"
  by (auto simp: ace_type_from_u8_def split: if_splits)

lemma is_allowed_not_denied: "is_allowed t \<Longrightarrow> \<not> is_denied t"
  by (auto simp: is_allowed_def is_denied_def)

section \<open>The view of a list\<close>

text \<open>The entry as bytes, the way \<open>add_ace\<close> writes it.\<close>

definition encode_ace :: "ace_type \<Rightarrow> ace_flags \<Rightarrow> u32 \<Rightarrow> sid \<Rightarrow> u8 list" where
  "encode_ace t flags msk s =
     (let n = (of_nat (8 + sid_size s) :: u16) in
      [ace_type_as_u8 t, flags, ucast n, ucast (drop_bit 8 n)] @ u32_to_le_bytes msk
      @ sid_to_bytes s)"

text \<open>The encoded entries that the validity check accepts.\<close>

definition raw_ace :: "u8 list \<Rightarrow> bool" where
  "raw_ace r \<longleftrightarrow> 8 \<le> length r \<and> length r = ace_size_at r 0
     \<and> ace_type_from_u8 (r ! 0) \<noteq> None
     \<and> (sid_ace_byte (r ! 0) \<longrightarrow> 16 \<le> length r \<and> sid_from_bytes (drop 8 r) \<noteq> None)"

definition acl_rep :: "acl \<Rightarrow> u8 list list \<Rightarrow> bool" where
  "acl_rep a rs \<longleftrightarrow> wf_acl a \<and> (acl_revision a = ACL_REVISION \<or> acl_revision a = ACL_REVISION_DS)
     \<and> 8 \<le> unat (acl_size a) \<and> unat (acl_size a) \<le> MAX_ACES * 32
     \<and> unat (ace_count a) = length rs \<and> length rs \<le> MAX_ACES
     \<and> (\<forall>r \<in> set rs. raw_ace r)
     \<and> drop 8 (take (unat (acl_size a)) (acl_data a)) = concat rs"

section \<open>The validity check accepts exactly the lists that have a view\<close>

lemma raw_ace_ne: "raw_ace r \<Longrightarrow> r \<noteq> []"
  by (auto simp: raw_ace_def)

lemma raw_ace_step:
  assumes "drop off (take lim d) = r @ rest" "lim \<le> length d" "raw_ace r"
  shows "off + length r \<le> lim" "8 \<le> length r" "ace_size_at d off = length r"
    "\<And>k. k < 8 \<Longrightarrow> d ! (off + k) = r ! k" "d ! off = r ! 0"
    "slice_of d (off + 8) (off + length r) = drop 8 r"
    "drop (off + length r) (take lim d) = rest"
proof -
  note st = drop_take_step [OF assms(1,2) raw_ace_ne [OF assms(3)]]
  show "off + length r \<le> lim" "drop (off + length r) (take lim d) = rest"
    "slice_of d (off + 8) (off + length r) = drop 8 r"
    by (fact st)+
  show len: "8 \<le> length r" using assms(3) by (simp add: raw_ace_def)
  show nth: "d ! (off + k) = r ! k" if "k < 8" for k using st(2) [of k] that len by simp
  from nth [of 0] show "d ! off = r ! 0" by simp
  show "ace_size_at d off = length r"
    using assms(3) nth [of 2] nth [of 3]
    by (simp add: raw_ace_def ace_size_at_def numeral_2_eq_2)
qed

lemma used_size_loop_rep:
  assumes "\<forall>r \<in> set rs. raw_ace r" "drop off (take lim d) = concat rs" "off \<le> lim" "lim \<le> length d"
  shows "used_size_loop d lim (length rs) off = Some lim"
  using assms
proof (induction rs arbitrary: off)
  case Nil
  then show ?case by simp
next
  case (Cons r rs)
  have raw: "raw_ace r" and d: "drop off (take lim d) = r @ concat rs" using Cons.prems by auto
  note st = raw_ace_step [OF d Cons.prems(4) raw]
  have "used_size_loop d lim (length rs) (off + length r) = Some lim"
    using Cons.prems st(1,7) by (intro Cons.IH) simp_all
  then show ?case
    using raw st by (auto simp: Let_def raw_ace_def se_consts)
qed

lemma used_size_loop_SomeD:
  "used_size_loop d lim n off = Some m \<Longrightarrow> off \<le> lim \<Longrightarrow> lim \<le> length d \<Longrightarrow>
     m = lim \<and> (\<exists>rs. length rs = n \<and> (\<forall>r \<in> set rs. raw_ace r) \<and> drop off (take lim d) = concat rs)"
proof (induction n arbitrary: off)
  case 0
  then show ?case by (auto split: if_splits)
next
  case (Suc n)
  define sz where "sz = ace_size_at d off"
  have ok: "off + 4 \<le> lim" "8 \<le> sz" "off + sz \<le> lim" "ace_type_from_u8 (d ! off) \<noteq> None"
    "sid_ace_byte (d ! off) \<longrightarrow> 16 \<le> sz \<and> sid_from_bytes (slice_of d (off + 8) (off + sz)) \<noteq> None"
    and rest: "used_size_loop d lim n (off + sz) = Some m"
    using Suc.prems(1) by (auto simp: Let_def se_consts sz_def split: if_splits)
  from Suc.IH [OF rest ok(3) Suc.prems(3)]
  obtain rs where rs: "m = lim" "length rs = n" "\<forall>r \<in> set rs. raw_ace r"
    "drop (off + sz) (take lim d) = concat rs" by blast
  define r where "r = take sz (drop off d)"
  have len: "length r = sz" using ok(3) Suc.prems(3) by (simp add: r_def)
  have nth: "r ! k = d ! (off + k)" if "k < sz" for k
    using that ok(3) Suc.prems(3) by (simp add: r_def)
  have "drop 8 r = slice_of d (off + 8) (off + sz)"
    by (simp add: r_def slice_of_def drop_take add.commute)
  moreover have "ace_size_at r 0 = sz"
    using ok(2) nth [of 2] nth [of 3] by (simp add: sz_def ace_size_at_def numeral_2_eq_2)
  ultimately have "raw_ace r"
    using ok len nth [of 0] by (simp add: raw_ace_def)
  moreover have "drop off (take lim d) = r @ concat rs"
  proof -
    have "take sz (drop off (take lim d)) = r"
      using ok(3) by (simp add: r_def drop_take min_absorb1)
    moreover have "drop sz (drop off (take lim d)) = concat rs"
      using rs(4) by (simp add: add.commute)
    ultimately show ?thesis by (metis append_take_drop_id)
  qed
  ultimately show ?case
    using rs(1-3) by (intro conjI exI [of _ "r # rs"]) auto
qed

lemma acl_repD:
  assumes "acl_rep a rs"
  shows "length (acl_data a) = 512" "8 \<le> unat (acl_size a)" "unat (acl_size a) \<le> 512"
    "unat (ace_count a) = length rs" "length rs \<le> 16" "\<forall>r \<in> set rs. raw_ace r"
    "drop 8 (take (unat (acl_size a)) (acl_data a)) = concat rs"
  using assms by (simp_all add: acl_rep_def wf_acl_def se_consts)

lemma used_size_rep:
  assumes "acl_rep a rs"
  shows "used_size a = Some (unat (acl_size a))"
proof -
  note r = acl_repD [OF assms]
  have "used_size_loop (acl_data a) (unat (acl_size a)) (length rs) 8 = Some (unat (acl_size a))"
    using r by (intro used_size_loop_rep) simp_all
  then show ?thesis
    using assms r by (auto simp: used_size_def acl_rep_def se_consts word_less_nat_alt)
qed

lemma used_size_SomeD:
  assumes "wf_acl a" "used_size a = Some n"
  obtains rs where "acl_rep a rs" "n = unat (acl_size a)"
proof -
  have ok: "8 \<le> unat (acl_size a)" "unat (acl_size a) \<le> 512" "unat (ace_count a) \<le> 16"
    "acl_revision a = ACL_REVISION \<or> acl_revision a = ACL_REVISION_DS"
    and loop: "used_size_loop (acl_data a) (unat (acl_size a)) (unat (ace_count a)) 8 = Some n"
    using assms by (auto simp: used_size_def wf_acl_def se_consts word_less_nat_alt split: if_splits)
  from used_size_loop_SomeD [OF loop] ok assms(1)
  obtain rs where "n = unat (acl_size a)" "length rs = unat (ace_count a)" "\<forall>r \<in> set rs. raw_ace r"
    "drop 8 (take (unat (acl_size a)) (acl_data a)) = concat rs"
    by (auto simp: wf_acl_def se_consts)
  with ok assms(1) have "acl_rep a rs" "n = unat (acl_size a)"
    by (simp_all add: acl_rep_def se_consts)
  then show thesis by (rule that)
qed

lemma acl_is_valid_iff_rep: "wf_acl a \<Longrightarrow> acl_is_valid a \<longleftrightarrow> (\<exists>rs. acl_rep a rs)"
  by (metis acl_is_valid_def not_None_eq used_size_SomeD used_size_rep)

text \<open>The view is determined by the bytes: an entry starts with its own length.\<close>

lemma concat_raw_unique:
  "\<forall>r \<in> set rs. raw_ace r \<Longrightarrow> \<forall>r \<in> set rs'. raw_ace r \<Longrightarrow> concat rs = concat rs' \<Longrightarrow> rs = rs'"
proof (induction rs arbitrary: rs')
  case Nil
  then show ?case by (cases rs') (auto simp: raw_ace_def)
next
  case (Cons r rs)
  then obtain r' rs'' where rs': "rs' = r' # rs''"
    by (cases rs') (auto simp: raw_ace_def)
  have eq: "r @ concat rs = r' @ concat rs''" using Cons.prems rs' by simp
  have r: "8 \<le> length r" "length r = ace_size_at r 0"
    "8 \<le> length r'" "length r' = ace_size_at r' 0"
    using Cons.prems rs' by (auto simp: raw_ace_def)
  have "r ! k = r' ! k" if "k < 8" for k
    using that r(1,3) arg_cong [OF eq, of "\<lambda>xs. xs ! k"] by (simp add: nth_append)
  then have "length r = length r'" using r(2,4) by (simp add: ace_size_at_def)
  then have "r = r'" "concat rs = concat rs''" using eq by simp_all
  moreover have "rs = rs''" using Cons.prems(1,2) rs' calculation(2) by (intro Cons.IH) auto
  ultimately show ?case by (simp add: rs')
qed

lemma acl_rep_unique: "acl_rep a rs \<Longrightarrow> acl_rep a rs' \<Longrightarrow> rs = rs'"
  by (metis acl_repD(6) acl_repD(7) concat_raw_unique)

lemma acl_rep_new [rep_intros]: "acl_rep acl_new []"
  by (simp add: acl_rep_def acl_new_def wf_acl_def se_consts)

section \<open>Adding an entry appends its encoding\<close>

lemma length_encode_ace: "wf_sid s \<Longrightarrow> length (encode_ace t f m s) = 8 + sid_size s"
  by (simp add: encode_ace_def Let_def length_sid_to_bytes)

lemma sid_size_le: "sid_size s \<le> 40"
  using subauthority_count_le [of s] by (simp add: sid_size_def)

lemma write_ace_overwrite:
  assumes "wf_sid s" "offset + 8 + sid_size s \<le> length d"
  shows "write_ace t f (of_nat (8 + sid_size s)) m s offset d = overwrite d offset (encode_ace t f m s)"
proof -
  define n :: u16 where "n = of_nat (8 + sid_size s)"
  let ?hd = "[ace_type_as_u8 t, f, ucast n, ucast (drop_bit 8 n), ucast m, ucast (drop_bit 8 m),
     ucast (drop_bit 16 m), ucast (drop_bit 24 m), sid_revision s, sub_authority_count s]"
  have room: "offset + 16 + 4 * subauthority_count s \<le> length d"
    using assms(2) by (simp add: sid_size_def)
  have upd: "d[offset := a, offset + 1 := b, offset + 2 := c, offset + 3 := e, offset + 4 := g,
      offset + 5 := h, offset + 6 := i, offset + 7 := j, offset + 8 := k, offset + 9 := l]
      = overwrite d offset [a, b, c, e, g, h, i, j, k, l]" for a b c e g h i j k l
    using room
    by (subst list_update_overwrite, simp) ((subst update_after_overwrite, simp, simp)+, simp)
  have ia: "overwrite (overwrite d offset ?hd) (offset + 10) (identifier_authority s)
      = overwrite d offset (?hd @ identifier_authority s)"
    using room wf_sidD(1) [OF assms(1)] by (intro overwrite_after_overwrite) simp_all
  have "write_ace t f n m s offset d =
      fold (\<lambda>i d. overwrite d (offset + length (?hd @ identifier_authority s) + i * 4)
           (u32_to_le_bytes (sub_authority s ! i))) [0..<subauthority_count s]
        (overwrite d offset (?hd @ identifier_authority s))"
    unfolding write_ace_def Let_def ucast_and_255 ia [symmetric] upd [symmetric]
    using wf_sidD(1) [OF assms(1)]
    by (simp add: se_consts ac_simps)
  also have "\<dots> = overwrite d offset ((?hd @ identifier_authority s)
      @ concat (map u32_to_le_bytes (take (subauthority_count s) (sub_authority s))))"
    using room assms(1) subauthority_count_le [of s]
    by (intro fold_overwrite_words) (simp_all add: wf_sid_def)
  also have "\<dots> = overwrite d offset (encode_ace t f m s)"
    by (simp add: encode_ace_def sid_to_bytes_def Let_def n_def u32_to_le_bytes_def)
  finally show ?thesis by (simp only: n_def)
qed

lemma raw_encode_ace:
  assumes "storable_sid s"
  shows "raw_ace (encode_ace t f m s)" "sid_from_bytes (drop 8 (encode_ace t f m s)) = Some (canon s)"
    "encode_ace t f m s ! 0 = ace_type_as_u8 t" "encode_ace t f m s ! 1 = f"
    "ace_header_mask (encode_ace t f m s) = m"
proof -
  have wf: "wf_sid s" using assms by (simp add: storable_sid_def)
  have len: "length (encode_ace t f m s) = 8 + sid_size s" by (rule length_encode_ace [OF wf])
  have d: "drop 8 (encode_ace t f m s) = sid_to_bytes s" by (simp add: encode_ace_def Let_def)
  then show sd: "sid_from_bytes (drop 8 (encode_ace t f m s)) = Some (canon s)"
    using sid_codec.dec_enc_exact [OF assms] by simp
  show nth: "encode_ace t f m s ! 0 = ace_type_as_u8 t" "encode_ace t f m s ! 1 = f"
    by (simp_all add: encode_ace_def Let_def)
  show "ace_header_mask (encode_ace t f m s) = m"
    using len
    by (simp add: ace_header_mask_def se_consts Let_def)
      (simp add: encode_ace_def Let_def nth_append u32_to_le_bytes_def)
  have "ace_size_at (encode_ace t f m s) 0 = 8 + sid_size s"
    using sid_size_le [of s] by (simp add: ace_size_at_def encode_ace_def Let_def del: of_nat_add)
  then show "raw_ace (encode_ace t f m s)"
    using len nth sd by (simp add: raw_ace_def sid_size_def)
qed

lemma acl_rep_append:
  assumes "acl_rep a rs" "raw_ace r" "length rs < 16" "unat (acl_size a) + length r \<le> 512"
  shows "acl_rep (a\<lparr>acl_data := overwrite (acl_data a) (unat (acl_size a)) r,
      ace_count := ace_count a + 1, acl_size := of_nat (unat (acl_size a) + length r)\<rparr>) (rs @ [r])"
proof -
  note p = acl_repD [OF assms(1)]
  have "unat (ace_count a + 1) = length rs + 1"
    using p(4) assms(3) by (simp add: unat_word_ariths)
  moreover have "drop 8 (take (unat (acl_size a) + length r)
      (overwrite (acl_data a) (unat (acl_size a)) r)) = concat (rs @ [r])"
    using p by (simp add: take_overwrite_end)
  ultimately show ?thesis
    using assms p by (auto simp: acl_rep_def wf_acl_def se_consts simp del: of_nat_add)
qed

definition ace_room :: "sid \<Rightarrow> acl \<Rightarrow> bool" where
  "ace_room s a \<longleftrightarrow> sid_is_valid s \<and> unat (ace_count a) < 16 \<and> unat (acl_size a) + 8 + sid_size s \<le> 512"

lemma add_ace_rep:
  assumes "acl_rep a rs" "wf_sid s"
  shows "ace_room s a \<Longrightarrow> fst (add_ace t f m s a)
      \<and> acl_rep (snd (add_ace t f m s a)) (rs @ [encode_ace t f m s])"
    and "\<not> ace_room s a \<Longrightarrow> add_ace t f m s a = (False, a)"
proof -
  note p = acl_repD [OF assms(1)]
  have n: "unat (of_nat (8 + sid_size s) :: u16) = 8 + sid_size s"
    using sid_size_le [of s] by (intro unat_small_u16) simp
  have eq: "add_ace t f m s a = (if ace_room s a
      then (True, a\<lparr>acl_data := overwrite (acl_data a) (unat (acl_size a)) (encode_ace t f m s),
             ace_count := ace_count a + 1, acl_size := of_nat (unat (acl_size a) + (8 + sid_size s))\<rparr>)
      else (False, a))"
    using p n write_ace_overwrite [OF assms(2), of "unat (acl_size a)" "acl_data a" t f m]
    by (simp add: add_ace_def used_size_rep [OF assms(1)] ace_room_def se_consts Let_def add.assoc
        del: of_nat_add)
  show "\<not> ace_room s a \<Longrightarrow> add_ace t f m s a = (False, a)" by (simp add: eq)
  assume room: "ace_room s a"
  then have "storable_sid s" using assms(2) by (simp add: storable_sid_def ace_room_def)
  with acl_rep_append [OF assms(1) raw_encode_ace(1) [of s t f m]] room p(4)
  show "fst (add_ace t f m s a) \<and> acl_rep (snd (add_ace t f m s a)) (rs @ [encode_ace t f m s])"
    by (simp add: eq ace_room_def length_encode_ace [OF assms(2)] add.assoc del: of_nat_add)
qed

section \<open>Properties\<close>

text \<open>
  C26: The validity check accepts a list exactly when its bytes are a sequence of
  well-formed entries, and that sequence is unique.
\<close>

theorem acl_valid_iff_entries:
  assumes "wf_acl a"
  shows "acl_is_valid a \<longleftrightarrow> (\<exists>!rs. acl_rep a rs)"
  using acl_is_valid_iff_rep [OF assms] acl_rep_unique by blast

theorem acl_valid_iff_entries_witness: "acl_is_valid acl_new \<and> (\<exists>!rs. acl_rep acl_new rs)"
proof -
  have "wf_acl acl_new" using acl_rep_new by (simp add: acl_rep_def)
  from acl_valid_iff_entries [OF this] show ?thesis using acl_rep_new acl_rep_unique by blast
qed

end
