(* ===== verification/Acl_Mgmt.thy ===== *)
theory Acl_Mgmt
  imports Acl
begin

text \<open>
  The editing interface of access control lists, \<open>src/nt61/src/se/aclmgmt.rs\<close>.  A
  pointer into the byte array is given by its offset.  The functions walk the encoded
  entries; the lemmas relate each of them to the list of entries that the array
  represents: \<open>get_ace\<close> finds the entry of an index, \<open>delete_ace\<close> removes exactly
  that entry, \<open>find_ace_by_sid\<close> returns the first entry of an identifier, and
  \<open>first_free_ace\<close> the end of the last entry.
\<close>

definition valid_revision :: "u8 \<Rightarrow> bool" where
  "valid_revision r \<longleftrightarrow> r = ACL_REVISION \<or> r = ACL_REVISION_DS"

definition create_acl :: "acl option \<Rightarrow> u32 \<Rightarrow> u8 \<Rightarrow> bool \<times> acl option" where
  "create_acl acl0 acl_length revision = (case acl0 of None \<Rightarrow> (False, None)
     | Some a \<Rightarrow>
         if acl_length < 8 \<or> length (acl_data acl_new) < unat acl_length then (False, Some a)
         else if \<not> valid_revision revision then (False, Some a)
         else (True, Some (a\<lparr>acl_revision := revision, acl_sbz1 := 0, acl_size := 8,
                ace_count := 0, acl_sbz2 := 0,
                acl_data := map (\<lambda>_. 0) (acl_data a)\<rparr>)))"

definition on_acl :: "(acl \<Rightarrow> bool \<times> acl) \<Rightarrow> acl option \<Rightarrow> u8 \<Rightarrow> bool \<times> acl option" where
  "on_acl f acl0 revision = (case acl0 of None \<Rightarrow> (False, None)
     | Some a \<Rightarrow> if \<not> valid_revision revision then (False, Some a)
                else (case f a of (ok, a') \<Rightarrow> (ok, Some a')))"

definition add_access_allowed_ace :: "acl option \<Rightarrow> u8 \<Rightarrow> u32 \<Rightarrow> sid \<Rightarrow> bool \<times> acl option" where
  "add_access_allowed_ace acl0 revision access s =
     on_acl (add_access_allowed s access ACE_NONE) acl0 revision"

definition add_access_allowed_ace_ex ::
  "acl option \<Rightarrow> u8 \<Rightarrow> ace_flags \<Rightarrow> u32 \<Rightarrow> sid \<Rightarrow> bool \<times> acl option" where
  "add_access_allowed_ace_ex acl0 revision flags access s =
     on_acl (add_access_allowed s access flags) acl0 revision"

definition add_access_denied_ace :: "acl option \<Rightarrow> u8 \<Rightarrow> u32 \<Rightarrow> sid \<Rightarrow> bool \<times> acl option" where
  "add_access_denied_ace acl0 revision access s =
     on_acl (add_access_denied s access ACE_NONE) acl0 revision"

definition add_access_denied_ace_ex ::
  "acl option \<Rightarrow> u8 \<Rightarrow> ace_flags \<Rightarrow> u32 \<Rightarrow> sid \<Rightarrow> bool \<times> acl option" where
  "add_access_denied_ace_ex acl0 revision flags access s =
     on_acl (add_access_denied s access flags) acl0 revision"

definition add_mandatory_ace ::
  "acl option \<Rightarrow> u8 \<Rightarrow> ace_flags \<Rightarrow> u32 \<Rightarrow> sid \<Rightarrow> bool \<times> acl option" where
  "add_mandatory_ace acl0 revision flags policy label_sid =
     on_acl (add_ace SystemMandatoryLabel flags policy label_sid) acl0 revision"

text \<open>The size field as these functions compute it, with \<open>usize\<close> operations.\<close>

definition ace_size_or :: "u8 list \<Rightarrow> nat \<Rightarrow> nat" where
  "ace_size_or d offset = unat (d ! (offset + 2)) OR push_bit 8 (unat (d ! (offset + 3)))"

definition used_or :: "nat \<Rightarrow> acl \<Rightarrow> nat" where
  "used_or n a = (case used_size a of None \<Rightarrow> n | Some u \<Rightarrow> u)"

function get_ace_loop :: "acl \<Rightarrow> nat \<Rightarrow> nat \<Rightarrow> nat \<Rightarrow> nat option" where
  "get_ace_loop a ace_index offset current_index =
     (if offset + 4 \<le> used_or 0 a \<and> current_index \<le> ace_index then
        let ace_size = ace_size_or (acl_data a) offset in
        if ace_size < 8 \<or> used_or 0 a < offset + ace_size then None
        else if current_index = ace_index then Some offset
        else get_ace_loop a ace_index (offset + ace_size) (current_index + 1)
      else None)"
  by pat_completeness auto
termination by (relation "measure (\<lambda>(_, i, _, c). Suc i - c)") auto

declare get_ace_loop.simps [simp del]

definition get_ace :: "acl option \<Rightarrow> u32 \<Rightarrow> nat option" where
  "get_ace acl0 ace_index = (case acl0 of None \<Rightarrow> None
     | Some a \<Rightarrow> if \<not> acl_is_valid a then None
                else if unat (ace_count a) \<le> unat ace_index then None
                else get_ace_loop a (unat ace_index) 8 0)"

definition remove_ace_bytes :: "nat \<Rightarrow> nat \<Rightarrow> nat \<Rightarrow> u8 list \<Rightarrow> u8 list" where
  "remove_ace_bytes offset ace_size used d =
     (let remaining_size = used - offset - ace_size;
          d1 = (if 0 < remaining_size
                then fold (\<lambda>i d. d[offset + i := d ! (offset + ace_size + i)]) [0..<remaining_size] d
                else d)
      in fold (\<lambda>i d. let clear_offset = used - ace_size + i in
                 if clear_offset < length d then d[clear_offset := 0] else d) [0..<ace_size] d1)"

function delete_ace_loop :: "acl \<Rightarrow> nat \<Rightarrow> nat \<Rightarrow> nat \<Rightarrow> bool \<times> acl" where
  "delete_ace_loop a ace_index offset current_index =
     (if offset + 4 \<le> used_or 0 a \<and> current_index \<le> ace_index then
        let ace_size = ace_size_or (acl_data a) offset in
        if ace_size < 8 \<or> used_or 0 a < offset + ace_size then (False, a)
        else if current_index = ace_index then
          (True, a\<lparr>acl_data := remove_ace_bytes offset ace_size (used_or 0 a) (acl_data a),
             acl_size := acl_size a - of_nat ace_size, ace_count := ace_count a - 1\<rparr>)
        else delete_ace_loop a ace_index (offset + ace_size) (current_index + 1)
      else (False, a))"
  by pat_completeness auto
termination by (relation "measure (\<lambda>(_, i, _, c). Suc i - c)") auto

declare delete_ace_loop.simps [simp del]

definition delete_ace :: "acl option \<Rightarrow> u32 \<Rightarrow> bool \<times> acl option" where
  "delete_ace acl0 ace_index = (case acl0 of None \<Rightarrow> (False, None)
     | Some a \<Rightarrow> if \<not> acl_is_valid a then (False, Some a)
                else if unat (ace_count a) \<le> unat ace_index then (False, Some a)
                else (case delete_ace_loop a (unat ace_index) 8 0 of (ok, a') \<Rightarrow> (ok, Some a')))"

fun first_free_loop :: "acl \<Rightarrow> nat \<Rightarrow> nat \<Rightarrow> nat option" where
  "first_free_loop a 0 offset = Some offset"
| "first_free_loop a (Suc n) offset =
     (if used_or 0 a < offset + 4 then None
      else let ace_size = ace_size_or (acl_data a) offset in
        if ace_size < 8 \<or> used_or 0 a < offset + ace_size then None
        else first_free_loop a n (offset + ace_size))"

definition first_free_ace :: "acl option \<Rightarrow> nat option" where
  "first_free_ace acl0 = (case acl0 of None \<Rightarrow> None
     | Some a \<Rightarrow> if \<not> acl_is_valid a then None
                else (case first_free_loop a (unat (ace_count a)) 8 of
                        None \<Rightarrow> None
                      | Some offset \<Rightarrow> if length (acl_data a) \<le> offset then None else Some offset))"

text \<open>The three out parameters are options: \<open>None\<close> is a null pointer and stays null.\<close>

definition query_information_acl ::
  "acl option \<Rightarrow> u32 option \<Rightarrow> u32 option \<Rightarrow> u32 option \<Rightarrow>
     bool \<times> u32 option \<times> u32 option \<times> u32 option" where
  "query_information_acl acl0 out_count out_size out_free = (case acl0 of
     None \<Rightarrow> (False, out_count, out_size, out_free)
   | Some a \<Rightarrow> if \<not> acl_is_valid a then (False, out_count, out_size, out_free)
              else (True, map_option (\<lambda>_. ucast (ace_count a)) out_count,
                    map_option (\<lambda>_. ucast (acl_size a)) out_size,
                    map_option (\<lambda>_. of_nat (length (acl_data a) - used_or 8 a)) out_free))"

definition set_information_acl :: "acl option \<Rightarrow> u8 \<Rightarrow> bool \<times> acl option" where
  "set_information_acl acl0 revision = (case acl0 of None \<Rightarrow> (False, None)
     | Some a \<Rightarrow> if \<not> valid_revision revision then (False, Some a)
                else (True, Some (a\<lparr>acl_revision := revision\<rparr>)))"

definition valid_acl :: "acl option \<Rightarrow> bool" where
  "valid_acl acl0 = (case acl0 of None \<Rightarrow> False | Some a \<Rightarrow> acl_is_valid a)"

definition sid_ace_type :: "u8 \<Rightarrow> bool" where
  "sid_ace_type b = (case ace_type_from_u8 b of None \<Rightarrow> False
     | Some t \<Rightarrow> t \<in> {AccessAllowed, AccessDenied, SystemAudit, SystemAlarm, AccessAllowedCallback,
         AccessDeniedCallback, SystemAuditCallback, SystemAlarmCallback, SystemMandatoryLabel,
         SystemProcessTrustLabel})"

fun find_ace_loop :: "acl \<Rightarrow> sid \<Rightarrow> nat \<Rightarrow> nat \<Rightarrow> nat \<Rightarrow> nat \<Rightarrow> u32 option" where
  "find_ace_loop a s used ace_index 0 offset = None"
| "find_ace_loop a s used ace_index (Suc n) offset =
     (if used < offset + 8 then None
      else let ace_size = ace_size_or (acl_data a) offset in
        if ace_size < 8 \<or> used < offset + ace_size then None
        else if sid_ace_type (acl_data a ! offset)
           \<and> (case sid_from_bytes (slice_of (acl_data a) (offset + 8) (offset + ace_size)) of
                None \<Rightarrow> False | Some ace_sid \<Rightarrow> sid_equals ace_sid s)
          then Some (of_nat ace_index)
          else find_ace_loop a s used (ace_index + 1) n (offset + ace_size))"

definition find_ace_by_sid :: "acl option \<Rightarrow> sid \<Rightarrow> u32 option" where
  "find_ace_by_sid acl0 s = (case acl0 of None \<Rightarrow> None
     | Some a \<Rightarrow> if \<not> acl_is_valid a \<or> \<not> sid_is_valid s then None
                else (case used_size a of None \<Rightarrow> None
                      | Some used \<Rightarrow> find_ace_loop a s used 0 (unat (ace_count a)) 8))"

text \<open>A freshly allocated list is all zero; its array has the fixed length.\<close>

definition zeroed_acl :: acl where
  "zeroed_acl = \<lparr>acl_revision = 0, acl_sbz1 = 0, acl_size = 0, ace_count = 0, acl_sbz2 = 0,
     acl_data = replicate (MAX_ACES * 32) 0\<rparr>"

definition sizeof_acl :: nat where
  "sizeof_acl = 8 + MAX_ACES * 32"

definition build_default_dacl :: "sid \<Rightarrow> bool \<Rightarrow> pool \<Rightarrow> acl option \<times> pool" where
  "build_default_dacl owner is_container p =
     (case pool_allocate p of
        (False, p1) \<Rightarrow> (None, p1)
      | (True, p1) \<Rightarrow>
          (case create_acl (Some zeroed_acl) (of_nat (sizeof_acl - 8)) ACL_REVISION of
             (False, _) \<Rightarrow> (None, pool_free p1)
           | (True, acl1) \<Rightarrow>
               let flags = (if is_container then CONTAINER_INHERIT OR OBJECT_INHERIT else ACE_NONE);
                   full_control = ACCESS_GENERIC_ALL OR ACCESS_DELETE OR ACCESS_READ_CONTROL
                     OR ACCESS_WRITE_DAC OR ACCESS_WRITE_OWNER
               in (case add_access_allowed_ace_ex acl1 ACL_REVISION flags full_control owner of
                     (False, _) \<Rightarrow> (None, pool_free p1)
                   | (True, acl2) \<Rightarrow> (acl2, p1))))"

section \<open>The two readings of the size field agree\<close>

lemma ace_size_or_at [simp]: "ace_size_or d off = ace_size_at d off"
proof -
  have "unat (d ! (off + 3)) < 256" "unat (d ! (off + 2)) < 256"
    using unsigned_less [of "d ! (off + 3)", where ?'a = nat]
      unsigned_less [of "d ! (off + 2)", where ?'a = nat] by simp_all
  then show ?thesis
    unfolding ace_size_or_def ace_size_at_def le_u16_def
    by (simp add: unsigned_or_eq unsigned_push_bit_eq unsigned_ucast_eq take_bit_nat_eq_self
        push_bit_eq_mult unat_word_ariths)
qed

lemma used_or_rep [simp]: "acl_rep a rs \<Longrightarrow> used_or n a = unat (acl_size a)"
  by (simp add: used_or_def used_size_rep)

section \<open>Walking to an entry\<close>

lemma acl_rep_valid [simp]: "acl_rep a rs \<Longrightarrow> acl_is_valid a"
  by (simp add: acl_is_valid_def used_size_rep)

text \<open>\<open>at_entries a off rs\<close>: the entries \<open>rs\<close> fill the array from \<open>off\<close> to its used end.\<close>

definition at_entries :: "acl \<Rightarrow> nat \<Rightarrow> u8 list list \<Rightarrow> bool" where
  "at_entries a off rs \<longleftrightarrow> acl_is_valid a \<and> used_or 0 a = unat (acl_size a)
     \<and> unat (acl_size a) \<le> length (acl_data a) \<and> off \<le> unat (acl_size a)
     \<and> (\<forall>r \<in> set rs. raw_ace r) \<and> drop off (take (unat (acl_size a)) (acl_data a)) = concat rs"

lemma at_entries_start: "acl_rep a rs \<Longrightarrow> at_entries a 8 rs"
  using acl_repD [of a rs] by (simp add: at_entries_def)

lemma at_entries_Cons:
  assumes "at_entries a off (r # rs)"
  shows "raw_ace r" "off + length r \<le> unat (acl_size a)" "8 \<le> length r"
    "ace_size_at (acl_data a) off = length r" "acl_data a ! off = r ! 0"
    "slice_of (acl_data a) (off + 8) (off + length r) = drop 8 r"
    "at_entries a (off + length r) rs" "off + 8 \<le> unat (acl_size a)"
    "slice_of (acl_data a) off (off + length r) = r"
    "\<And>k. k < 8 \<Longrightarrow> acl_data a ! (off + k) = r ! k"
proof -
  have d: "drop off (take (unat (acl_size a)) (acl_data a)) = r @ concat rs"
    and le: "unat (acl_size a) \<le> length (acl_data a)" and raw: "raw_ace r"
    using assms by (simp_all add: at_entries_def)
  note st = raw_ace_step [OF d le raw]
  show "raw_ace r" "off + length r \<le> unat (acl_size a)" "8 \<le> length r"
    "ace_size_at (acl_data a) off = length r" "acl_data a ! off = r ! 0"
    "slice_of (acl_data a) (off + 8) (off + length r) = drop 8 r"
    by (fact raw st)+
  show "at_entries a (off + length r) rs" using assms st by (simp add: at_entries_def)
  show "off + 8 \<le> unat (acl_size a)" using st(1,2) by simp
  show "acl_data a ! (off + k) = r ! k" if "k < 8" for k using st(4) [OF that] .
  show "slice_of (acl_data a) off (off + length r) = r"
    using drop_take_step(3) [OF d le raw_ace_ne [OF raw], of 0] by simp
qed

lemma get_ace_loop_walk:
  "at_entries a off rs \<Longrightarrow> i < length rs \<Longrightarrow>
     get_ace_loop a (cur + i) off cur = Some (off + length (concat (take i rs)))"
proof (induction rs arbitrary: off cur i)
  case (Cons r rs)
  note st = at_entries_Cons [OF Cons.prems(1)]
  have u: "used_or 0 a = unat (acl_size a)" using Cons.prems(1) by (simp add: at_entries_def)
  show ?case
  proof (cases i)
    case 0
    with st u show ?thesis by (subst get_ace_loop.simps) (simp add: Let_def)
  next
    case (Suc j)
    with Cons.IH [OF st(7), of j "Suc cur"] Cons.prems(2)
    have "get_ace_loop a (cur + i) (off + length r) (cur + 1)
        = Some (off + length (concat (take i (r # rs))))"
      by (simp add: add.assoc)
    with st u Suc show ?thesis by (subst get_ace_loop.simps) (simp add: Let_def)
  qed
qed simp


lemma get_ace_rep:
  assumes "acl_rep a rs"
  shows "get_ace (Some a) i = (if unat i < length rs
    then Some (8 + length (concat (take (unat i) rs))) else None)"
  using get_ace_loop_walk [OF at_entries_start [OF assms], of "unat i" 0] acl_repD(4) [OF assms] assms
  by (auto simp: get_ace_def)

text \<open>The entry found starts at the offset returned.\<close>

lemma at_entries_drop:
  "at_entries a off rs \<Longrightarrow> i \<le> length rs \<Longrightarrow>
     at_entries a (off + length (concat (take i rs))) (drop i rs)"
proof (induction rs arbitrary: off i)
  case (Cons r rs)
  then show ?case
    using Cons.IH [OF at_entries_Cons(7) [OF Cons.prems(1)]]
    by (cases i) (auto simp: add.assoc)
qed simp

lemma get_ace_slice:
  assumes "acl_rep a rs" "unat i < length rs" "get_ace (Some a) i = Some off"
  shows "slice_of (acl_data a) off (off + length (rs ! unat i)) = rs ! unat i"
proof -
  have off: "off = 8 + length (concat (take (unat i) rs))"
    using assms by (simp add: get_ace_rep)
  have "at_entries a off (rs ! unat i # drop (Suc (unat i)) rs)"
    using at_entries_drop [OF at_entries_start [OF assms(1)], of "unat i"] assms(2)
    by (simp add: off Cons_nth_drop_Suc)
  then show ?thesis by (rule at_entries_Cons(9))
qed

section \<open>Removing an entry\<close>

lemma remove_ace_bytes_spec:
  assumes "8 \<le> offset" "offset + n \<le> used" "used \<le> length d"
    and "drop 8 (take used d) = xs @ r @ ys" "offset = 8 + length xs" "length r = n"
  shows "drop 8 (take (used - n) (remove_ace_bytes offset n used d)) = xs @ ys"
    "length (remove_ace_bytes offset n used d) = length d"
proof -
  define m where "m = take (used - offset - n) (drop (offset + n) d)"
  define d1 where "d1 = overwrite d offset m"
  have len: "length m = used - offset - n" using assms(2,3) by (simp add: m_def)
  have l1: "length d1 = length d" using assms(2,3) len by (simp add: d1_def)
  have mv: "(if 0 < used - offset - n
      then fold (\<lambda>i d. d[offset + i := d ! (offset + n + i)]) [0..<used - offset - n] d else d) = d1"
    using fold_move_down [of offset n "used - offset - n" d] assms(2,3)
    by (auto simp: d1_def m_def)
  have eq: "remove_ace_bytes offset n used d = overwrite d1 (used - n) (replicate n 0)"
    unfolding remove_ace_bytes_def Let_def mv
    by (rule fold_clear [unfolded Let_def]) (use assms(2,3) l1 in simp)
  then show "length (remove_ace_bytes offset n used d) = length d"
    using assms(2,3) l1 by simp
  have un: "used - n = offset + length m" using len assms(2) by simp
  have "take (used - n) (remove_ace_bytes offset n used d) = take (used - n) d1"
    unfolding eq using assms(2,3) l1 by simp
  also have "\<dots> = take offset d @ m"
    using assms(2,3) unfolding un d1_def by (subst take_overwrite_end) simp_all
  finally have t: "take (used - n) (remove_ace_bytes offset n used d) = take offset d @ m" .
  have "drop 8 (take offset d) = take (length xs) (drop 8 (take used d))"
    using assms(2,5) by (simp add: drop_take)
  then have "drop 8 (take offset d) = xs" using assms(4) by simp
  moreover have "m = drop (length xs + n) (drop 8 (take used d))"
    using assms(2,5) by (simp add: m_def drop_take ac_simps)
  then have "m = ys" using assms(4,6) by simp
  ultimately show "drop 8 (take (used - n) (remove_ace_bytes offset n used d)) = xs @ ys"
    using t assms(1-3) by simp
qed

lemma delete_ace_loop_walk:
  "at_entries a off rs \<Longrightarrow> i < length rs \<Longrightarrow>
     delete_ace_loop a (cur + i) off cur =
       (let pos = off + length (concat (take i rs)); n = length (rs ! i) in
        (True, a\<lparr>acl_data := remove_ace_bytes pos n (unat (acl_size a)) (acl_data a),
           acl_size := acl_size a - of_nat n, ace_count := ace_count a - 1\<rparr>))"
proof (induction rs arbitrary: off cur i)
  case (Cons r rs)
  note st = at_entries_Cons [OF Cons.prems(1)]
  have u: "used_or 0 a = unat (acl_size a)" using Cons.prems(1) by (simp add: at_entries_def)
  show ?case
  proof (cases i)
    case 0
    with st u show ?thesis by (subst delete_ace_loop.simps) (simp add: Let_def)
  next
    case (Suc j)
    have "delete_ace_loop a (Suc cur + j) (off + length r) (Suc cur) =
       (let pos = off + length r + length (concat (take j rs)); n = length (rs ! j) in
        (True, a\<lparr>acl_data := remove_ace_bytes pos n (unat (acl_size a)) (acl_data a),
           acl_size := acl_size a - of_nat n, ace_count := ace_count a - 1\<rparr>))"
      using Cons.prems(2) Suc by (intro Cons.IH st(7)) simp
    with st u Suc show ?thesis
      by (subst delete_ace_loop.simps) (simp add: Let_def add.assoc)
  qed
qed simp

lemma delete_ace_rep:
  assumes "acl_rep a rs" "unat i < length rs"
  obtains a' where "delete_ace (Some a) i = (True, Some a')"
    "acl_rep a' (take (unat i) rs @ drop (Suc (unat i)) rs)"
proof -
  define k where "k = unat i"
  define off where "off = 8 + length (concat (take k rs))"
  define n where "n = length (rs ! k)"
  define a' where "a' = a\<lparr>acl_data := remove_ace_bytes off n (unat (acl_size a)) (acl_data a),
           acl_size := acl_size a - of_nat n, ace_count := ace_count a - 1\<rparr>"
  note p = acl_repD [OF assms(1)]
  have k: "k < length rs" using assms(2) by (simp add: k_def)
  have split: "concat rs = concat (take k rs) @ rs ! k @ concat (drop (Suc k) rs)"
    using arg_cong [OF id_take_nth_drop [OF k], of concat] by simp
  have at: "at_entries a off (rs ! k # drop (Suc k) rs)"
    using at_entries_drop [OF at_entries_start [OF assms(1)], of k] k
    by (simp add: off_def Cons_nth_drop_Suc)
  have le: "off + n \<le> unat (acl_size a)" "8 \<le> n"
    using at_entries_Cons(2,3) [OF at] by (simp_all add: n_def)
  have d: "drop 8 (take (unat (acl_size a)) (acl_data a))
      = concat (take k rs) @ rs ! k @ concat (drop (Suc k) rs)"
    by (simp only: p(7) split [symmetric])
  have "8 \<le> off" "unat (acl_size a) \<le> length (acl_data a)" using p(1,3) by (simp_all add: off_def)
  note rm = remove_ace_bytes_spec [OF this(1) le(1) this(2) d off_def n_def [symmetric]]
  have bytes: "drop 8 (take (unat (acl_size a) - n) (acl_data a')) = concat (take k rs @ drop (Suc k) rs)"
    "length (acl_data a') = 512"
    using rm p(1) by (simp_all add: a'_def)
  have sz: "unat (acl_size a') = unat (acl_size a) - n"
    using le p(3) by (simp add: a'_def unat_sub_if' word_le_nat_alt)
  have cnt: "unat (ace_count a') = length rs - 1"
    using p(4) k by (simp add: a'_def unat_sub_if' word_le_nat_alt)
  have "acl_rep a' (take k rs @ drop (Suc k) rs)"
    unfolding acl_rep_def sz
    using assms(1) p(3,5,6) bytes cnt le k off_def
    by (auto simp: acl_rep_def wf_acl_def se_consts a'_def dest: in_set_takeD in_set_dropD)
  moreover have "delete_ace (Some a) i = (True, Some a')"
    using delete_ace_loop_walk [OF at_entries_start [OF assms(1)] k, of 0] p(4) assms
    by (simp add: delete_ace_def k_def a'_def off_def n_def Let_def)
  ultimately show thesis using that by (simp add: k_def)
qed

lemma delete_ace_out_of_range:
  "acl_rep a rs \<Longrightarrow> length rs \<le> unat i \<Longrightarrow> delete_ace (Some a) i = (False, Some a)"
  by (simp add: delete_ace_def acl_repD(4))

section \<open>The list as an editable store\<close>

definition add_entry :: "ace_type \<times> ace_flags \<times> u32 \<times> sid \<Rightarrow> acl \<Rightarrow> bool \<times> acl" where
  "add_entry e a = (case e of (t, f, m, s) \<Rightarrow> add_ace t f m s a)"

definition enc_entry :: "ace_type \<times> ace_flags \<times> u32 \<times> sid \<Rightarrow> u8 list" where
  "enc_entry e = (case e of (t, f, m, s) \<Rightarrow> encode_ace t f m s)"

definition delete_from :: "u32 \<Rightarrow> acl \<Rightarrow> bool \<times> acl" where
  "delete_from i a = (case delete_ace (Some a) i of
     (ok, Some a') \<Rightarrow> (ok, a') | (ok, None) \<Rightarrow> (ok, a))"

lemmas entry_simps = add_entry_def enc_entry_def split_def

interpretation acl_store: editable_store acl_rep add_entry enc_entry
  "\<lambda>e. wf_sid (snd (snd (snd e)))" "\<lambda>e. ace_room (snd (snd (snd e)))" delete_from unat
proof unfold_locales
  fix a rs and e :: "ace_type \<times> ace_flags \<times> u32 \<times> sid"
  assume "acl_rep a rs" "wf_sid (snd (snd (snd e)))"
  note add = add_ace_rep [OF this, of "fst e" "fst (snd e)" "fst (snd (snd e))"]
  show "ace_room (snd (snd (snd e))) a \<Longrightarrow>
      fst (add_entry e a) \<and> acl_rep (snd (add_entry e a)) (rs @ [enc_entry e])"
    using add(1) by (simp add: entry_simps)
  show "\<not> ace_room (snd (snd (snd e))) a \<Longrightarrow> add_entry e a = (False, a)"
    using add(2) by (simp add: entry_simps)
next
  fix a rs and i :: u32
  assume r: "acl_rep a rs"
  show "fst (delete_from i a) \<and>
      acl_rep (snd (delete_from i a)) (take (unat i) rs @ drop (Suc (unat i)) rs)"
    if i: "unat i < length rs"
    by (rule delete_ace_rep [OF r i]) (simp add: delete_from_def)
  show "delete_from i a = (False, a)" if "length rs \<le> unat i"
    using delete_ace_out_of_range [OF r that] by (simp add: delete_from_def)
qed

section \<open>Searching an entry\<close>

definition ace_of_sid :: "sid \<Rightarrow> u8 list \<Rightarrow> bool" where
  "ace_of_sid s r \<longleftrightarrow> sid_ace_type (r ! 0)
     \<and> (case sid_from_bytes (drop 8 r) of None \<Rightarrow> False | Some x \<Rightarrow> sid_equals x s)"

definition first_index :: "('a \<Rightarrow> bool) \<Rightarrow> 'a list \<Rightarrow> nat option" where
  "first_index P xs = (let i = length (takeWhile (\<lambda>x. \<not> P x) xs) in
     if i < length xs then Some i else None)"

lemma find_ace_loop_walk:
  "at_entries a off rs \<Longrightarrow> find_ace_loop a s (unat (acl_size a)) k (length rs) off =
     map_option (\<lambda>i. of_nat (k + i)) (first_index (ace_of_sid s) rs)"
proof (induction rs arbitrary: off k)
  case Nil
  then show ?case by (simp add: first_index_def)
next
  case (Cons r rs)
  note st = at_entries_Cons [OF Cons.prems]
  have "first_index (ace_of_sid s) (r # rs) =
      (if ace_of_sid s r then Some 0 else map_option Suc (first_index (ace_of_sid s) rs))"
    by (simp add: first_index_def Let_def)
  moreover have "sid_ace_type (acl_data a ! off)
      \<and> (case sid_from_bytes (slice_of (acl_data a) (off + 8) (off + length r)) of
           None \<Rightarrow> False | Some x \<Rightarrow> sid_equals x s) \<longleftrightarrow> ace_of_sid s r"
    by (simp add: st(5,6) ace_of_sid_def)
  ultimately show ?case
    using st(2-4,8) Cons.IH [OF st(7), of "Suc k"]
    by (simp add: Let_def option.map_comp comp_def ac_simps)
qed

lemma find_ace_by_sid_rep:
  assumes "acl_rep a rs" "sid_is_valid s"
  shows "find_ace_by_sid (Some a) s = map_option of_nat (first_index (ace_of_sid s) rs)"
  using find_ace_loop_walk [OF at_entries_start [OF assms(1)], of s 0] assms acl_repD(4) [OF assms(1)]
  by (simp add: find_ace_by_sid_def used_size_rep)

lemma first_free_loop_walk:
  "at_entries a off rs \<Longrightarrow> first_free_loop a (length rs) off = Some (unat (acl_size a))"
proof (induction rs arbitrary: off)
  case Nil
  then show ?case by (auto simp: at_entries_def)
next
  case (Cons r rs)
  have u: "used_or 0 a = unat (acl_size a)" using Cons.prems by (simp add: at_entries_def)
  note st = at_entries_Cons [OF Cons.prems]
  from Cons.IH [OF st(7)] st u show ?case by (simp add: Let_def)
qed

lemma first_free_ace_rep:
  assumes "acl_rep a rs"
  shows "first_free_ace (Some a) = (if unat (acl_size a) < 512 then Some (unat (acl_size a)) else None)"
  using first_free_loop_walk [OF at_entries_start [OF assms]] acl_repD [OF assms] assms
  by (simp add: first_free_ace_def)

section \<open>Creating lists\<close>

lemma create_acl_rep:
  assumes "wf_acl a" "8 \<le> unat n" "unat n \<le> 512" "valid_revision r"
  obtains a' where "create_acl (Some a) n r = (True, Some a')" "acl_rep a' []"
  using assms
  by (auto simp: create_acl_def acl_rep_def wf_acl_def acl_new_def valid_revision_def
      word_less_nat_alt se_consts)

lemma set_information_acl_rep:
  "acl_rep a rs \<Longrightarrow> valid_revision r \<Longrightarrow>
     set_information_acl (Some a) r = (True, Some (a\<lparr>acl_revision := r\<rparr>))
     \<and> acl_rep (a\<lparr>acl_revision := r\<rparr>) rs"
  by (auto simp: set_information_acl_def acl_rep_def wf_acl_def valid_revision_def)

definition full_control :: u32 where
  "full_control = ACCESS_GENERIC_ALL OR ACCESS_DELETE OR ACCESS_READ_CONTROL
     OR ACCESS_WRITE_DAC OR ACCESS_WRITE_OWNER"

definition inherit_flags :: "bool \<Rightarrow> ace_flags" where
  "inherit_flags c = (if c then CONTAINER_INHERIT OR OBJECT_INHERIT else ACE_NONE)"

lemma build_default_dacl_Some:
  assumes "wf_sid owner" "build_default_dacl owner c p = (Some a, p')"
  shows "acl_rep a [encode_ace AccessAllowed (inherit_flags c) full_control owner]"
    "sid_is_valid owner" "pool_live p' = pool_live p + 1"
proof -
  obtain a0 where a0: "create_acl (Some zeroed_acl) (of_nat (sizeof_acl - 8)) ACL_REVISION
      = (True, Some a0)" "acl_rep a0 []"
    by (rule create_acl_rep [of zeroed_acl "of_nat (sizeof_acl - 8)" ACL_REVISION])
      (auto simp: zeroed_acl_def wf_acl_def sizeof_acl_def valid_revision_def se_consts)
  obtain p1 where p1: "pool_allocate p = (True, p1)" "p' = p1"
    "add_access_allowed_ace_ex (Some a0) ACL_REVISION (inherit_flags c) full_control owner = (True, Some a)"
    using assms(2) a0(1)
    by (auto simp: build_default_dacl_def Let_def inherit_flags_def full_control_def
        split: prod.splits bool.splits)
  have add: "add_ace AccessAllowed (inherit_flags c) full_control owner a0 = (True, a)"
    using p1(3) by (auto simp: add_access_allowed_ace_ex_def on_acl_def add_access_allowed_def
        valid_revision_def split: prod.splits)
  have room: "ace_room owner a0" using add_ace_rep(2) [OF a0(2) assms(1)] add by fastforce
  then show "sid_is_valid owner" by (simp add: ace_room_def)
  show "acl_rep a [encode_ace AccessAllowed (inherit_flags c) full_control owner]"
    using add_ace_rep(1) [OF a0(2) assms(1) room, of AccessAllowed "inherit_flags c" full_control] add
    by simp
  show "pool_live p' = pool_live p + 1" using pool_live_allocate [OF p1(1)] p1(2) by simp
qed

lemma on_acl_ne: "on_acl f (Some a) r \<noteq> (b, None)" "create_acl (Some a) n r \<noteq> (b, None)"
  by (simp_all add: on_acl_def create_acl_def split: prod.splits)

lemma build_default_dacl_None:
  assumes "build_default_dacl owner c p = (None, p')"
  shows "pool_live p' = pool_live p"
proof -
  have ne: "add_access_allowed_ace_ex a1 r f m s \<noteq> (True, None)" for a1 r f m s
    by (cases a1) (simp_all add: add_access_allowed_ace_ex_def on_acl_def split: prod.splits)
  obtain b p1 where p1: "pool_allocate p = (b, p1)" by (cases "pool_allocate p")
  with assms have "p' = p1 \<and> \<not> b \<or> p' = pool_free p1 \<and> b"
    by (auto simp: build_default_dacl_def Let_def ne split: prod.splits bool.splits)
  with pool_live_allocate [OF p1] show ?thesis by auto
qed

section \<open>Lists with two entries\<close>

lemma two_entry_acl:
  obtains a where "acl_rep a [encode_ace ty f m (well_known j), encode_ace ty' f' m' (well_known k)]"
proof -
  let ?a1 = "snd (add_ace ty f m (well_known j) acl_new)"
  have "ace_room (well_known j) acl_new"
    using sid_size_le [of "well_known j"] valid_well_known [of j] by (simp add: ace_room_def acl_new_def)
  then have 1: "acl_rep ?a1 [encode_ace ty f m (well_known j)]"
    using add_ace_rep(1) [OF acl_rep_new wf_well_known] by simp
  have "length (drop 8 (take (unat (acl_size ?a1)) (acl_data ?a1))) = 8 + sid_size (well_known j)"
    using acl_repD(7) [OF 1] by (simp add: length_encode_ace wf_well_known)
  then have "ace_room (well_known k) ?a1"
    using acl_repD(1-4) [OF 1] valid_well_known [of k] sid_size_le [of "well_known j"] sid_size_le [of "well_known k"]
    by (simp add: ace_room_def)
  then show thesis
    using add_ace_rep(1) [OF 1 wf_well_known [of k], of ty' f' m'] that by auto
qed

section \<open>Properties\<close>

text \<open>
  C25: Adding an entry through the management interface appends the encoded entry when
  there is room and otherwise refuses and leaves the list as it was.
\<close>

theorem add_entry_refines_append:
  assumes "acl_rep a rs" "wf_sid s" "valid_revision r"
  shows "if ace_room s a
    then (\<exists>a'. add_access_denied_ace_ex (Some a) r f m s = (True, Some a')
           \<and> acl_rep a' (rs @ [encode_ace AccessDenied f m s]))
       \<and> (\<exists>a'. add_access_allowed_ace_ex (Some a) r f m s = (True, Some a')
           \<and> acl_rep a' (rs @ [encode_ace AccessAllowed f m s]))
    else add_access_denied_ace_ex (Some a) r f m s = (False, Some a)
       \<and> add_access_allowed_ace_ex (Some a) r f m s = (False, Some a)"
proof (cases "ace_room s a")
  case True
  then show ?thesis
    using add_ace_rep(1) [OF assms(1,2), of AccessDenied f m] add_ace_rep(1) [OF assms(1,2), of AccessAllowed f m] assms(3)
    by (simp add: add_access_denied_ace_ex_def add_access_allowed_ace_ex_def on_acl_def
        add_access_allowed_def add_access_denied_def split_def)
next
  case False
  then show ?thesis
    using add_ace_rep(2) [OF assms(1,2)] assms(3)
    by (simp add: add_access_denied_ace_ex_def add_access_allowed_ace_ex_def on_acl_def
        add_access_allowed_def add_access_denied_def split_def)
qed

theorem add_entry_refines_append_witness:
  "\<exists>a'. add_access_denied_ace_ex (Some acl_new) ACL_REVISION 0 7 (well_known Guests) = (True, Some a')
     \<and> acl_rep a' [encode_ace AccessDenied 0 7 (well_known Guests)]"
proof -
  have "sid_is_valid (well_known Guests)" by (rule valid_well_known)
  then have room: "ace_room (well_known Guests) acl_new"
    using sid_size_le [of "well_known Guests"] by (simp add: ace_room_def acl_new_def del: well_known.simps)
  have "valid_revision ACL_REVISION" by (simp add: valid_revision_def)
  from add_entry_refines_append [OF acl_rep_new wf_well_known this, of Guests 0 7] room
  show ?thesis by (simp del: well_known.simps)
qed

text \<open>
  C3: Deleting the entry of an index removes exactly that entry and keeps the others in
  order; an index beyond the entries is refused and changes nothing.
\<close>

theorem delete_entry_refines_removal:
  assumes "acl_rep a rs"
  shows "if unat i < length rs
    then \<exists>a'. delete_ace (Some a) i = (True, Some a') \<and> acl_rep a' (take (unat i) rs @ drop (Suc (unat i)) rs)
    else delete_ace (Some a) i = (False, Some a)"
proof (cases "unat i < length rs")
  case True
  then obtain a' where "delete_ace (Some a) i = (True, Some a')"
    "acl_rep a' (take (unat i) rs @ drop (Suc (unat i)) rs)"
    by (rule delete_ace_rep [OF assms])
  with True show ?thesis by simp
next
  case False
  with delete_ace_out_of_range [OF assms, of i] show ?thesis by simp
qed

theorem delete_entry_refines_removal_witness:
  "\<exists>a a'. delete_ace (Some a) 0 = (True, Some a') \<and> acl_rep a' [encode_ace AccessDenied 0 2 (well_known Guests)]"
proof -
  obtain a where "acl_rep a [encode_ace AccessAllowed 0 1 (well_known World), encode_ace AccessDenied 0 2 (well_known Guests)]"
    by (rule two_entry_acl)
  from delete_entry_refines_removal [OF this, of 0] show ?thesis by (auto simp del: well_known.simps)
qed

text \<open>
  Searching for an identifier returns the index of the first entry for it, and
  fetching an index returns the offset at which exactly that entry's bytes lie.
\<close>

theorem find_and_get_entry:
  assumes "acl_rep a rs" "sid_is_valid s"
  shows "find_ace_by_sid (Some a) s = map_option of_nat (first_index (ace_of_sid s) rs)
    \<and> (case get_ace (Some a) i of None \<Rightarrow> length rs \<le> unat i
       | Some off \<Rightarrow> unat i < length rs
           \<and> slice_of (acl_data a) off (off + length (rs ! unat i)) = rs ! unat i)"
proof (cases "unat i < length rs")
  case True
  with get_ace_slice [OF assms(1) True] get_ace_rep [OF assms(1), of i] find_ace_by_sid_rep [OF assms]
  show ?thesis by simp
next
  case False
  with get_ace_rep [OF assms(1), of i] find_ace_by_sid_rep [OF assms] show ?thesis by simp
qed

theorem find_and_get_entry_witness:
  "\<exists>a. find_ace_by_sid (Some a) (well_known Guests) = Some 1"
proof -
  let ?r0 = "encode_ace AccessAllowed 0 1 (well_known World)"
  let ?r1 = "encode_ace AccessDenied 0 2 (well_known Guests)"
  obtain a where a: "acl_rep a [?r0, ?r1]"
    by (rule two_entry_acl)
  have c: "canon (well_known World) = well_known World" "canon (well_known Guests) = well_known Guests" by simp_all
  have "\<not> ace_of_sid (well_known Guests) ?r0" "ace_of_sid (well_known Guests) ?r1"
    using raw_encode_ace(2,3) [OF storable_well_known, of AccessAllowed 0 1 World]
      raw_encode_ace(2,3) [OF storable_well_known, of AccessDenied 0 2 Guests] well_known_equals_iff [of World Guests]
    unfolding c by (simp_all add: ace_of_sid_def sid_ace_type_def ace_type_from_u8_def del: well_known.simps)
  then have "first_index (ace_of_sid (well_known Guests)) [?r0, ?r1] = Some 1"
    by (simp add: first_index_def del: well_known.simps)
  then show ?thesis using find_and_get_entry [OF a valid_well_known [of Guests]] by auto
qed

end
