(* ===== verification/Sec_Desc.thy ===== *)
theory Sec_Desc
  imports Sid_Mgmt Acl_Mgmt
begin

text \<open>
  Security descriptors.  The absolute descriptor of \<open>src/nt61/src/se/descriptor.rs\<close>
  holds pointers to its owner, group and lists; the descriptor that the access check
  uses, \<open>SecurityDescriptor\<close> of \<open>src/nt61/src/se/seaccess.rs\<close>, holds the two
  identifiers by value.  Lemmas: a setter changes its own field and exactly its own
  control bits, and setters of different fields commute.
\<close>

section \<open>Control bits\<close>

definition SE_OWNER_DEFAULTED :: u16 where [se_consts]: "SE_OWNER_DEFAULTED = 0x0001"
definition SE_GROUP_DEFAULTED :: u16 where [se_consts]: "SE_GROUP_DEFAULTED = 0x0002"
definition SE_DACL_PRESENT :: u16 where [se_consts]: "SE_DACL_PRESENT = 0x0004"
definition SE_DACL_DEFAULTED :: u16 where [se_consts]: "SE_DACL_DEFAULTED = 0x0008"
definition SE_SACL_PRESENT :: u16 where [se_consts]: "SE_SACL_PRESENT = 0x0010"
definition SE_SACL_DEFAULTED :: u16 where [se_consts]: "SE_SACL_DEFAULTED = 0x0020"
definition SE_SELF_RELATIVE :: u16 where [se_consts]: "SE_SELF_RELATIVE = 0x8000"
definition SECURITY_DESCRIPTOR_REVISION :: u8 where [se_consts]: "SECURITY_DESCRIPTOR_REVISION = 1"

section \<open>The absolute descriptor\<close>

record abs_desc =
  ad_revision :: u8
  ad_sbz1 :: u8
  ad_control :: u16
  ad_owner :: "sid option"
  ad_group :: "sid option"
  ad_sacl :: "acl option"
  ad_dacl :: "acl option"

definition abs_desc_new :: abs_desc where
  "abs_desc_new = \<lparr>ad_revision = SECURITY_DESCRIPTOR_REVISION, ad_sbz1 = 0, ad_control = 0,
     ad_owner = None, ad_group = None, ad_sacl = None, ad_dacl = None\<rparr>"

definition init_absolute :: "abs_desc \<Rightarrow> abs_desc" where
  "init_absolute sd = sd\<lparr>ad_revision := SECURITY_DESCRIPTOR_REVISION, ad_sbz1 := 0, ad_control := 0,
     ad_owner := None, ad_group := None, ad_sacl := None, ad_dacl := None\<rparr>"

definition put_flag :: "u16 \<Rightarrow> bool \<Rightarrow> u16 \<Rightarrow> u16" where
  "put_flag f on c = (if on then c OR f else c AND NOT f)"

definition set_owner :: "sid option \<Rightarrow> bool \<Rightarrow> abs_desc \<Rightarrow> abs_desc" where
  "set_owner s defaulted sd =
     sd\<lparr>ad_owner := s, ad_control := put_flag SE_OWNER_DEFAULTED defaulted (ad_control sd)\<rparr>"

definition set_group :: "sid option \<Rightarrow> bool \<Rightarrow> abs_desc \<Rightarrow> abs_desc" where
  "set_group s defaulted sd =
     sd\<lparr>ad_group := s, ad_control := put_flag SE_GROUP_DEFAULTED defaulted (ad_control sd)\<rparr>"

definition set_dacl :: "acl option \<Rightarrow> bool \<Rightarrow> bool \<Rightarrow> abs_desc \<Rightarrow> abs_desc" where
  "set_dacl d present defaulted sd = sd\<lparr>ad_dacl := d, ad_control :=
     put_flag SE_DACL_DEFAULTED defaulted (put_flag SE_DACL_PRESENT present (ad_control sd))\<rparr>"

definition set_sacl :: "acl option \<Rightarrow> bool \<Rightarrow> bool \<Rightarrow> abs_desc \<Rightarrow> abs_desc" where
  "set_sacl d present defaulted sd = sd\<lparr>ad_sacl := d, ad_control :=
     put_flag SE_SACL_DEFAULTED defaulted (put_flag SE_SACL_PRESENT present (ad_control sd))\<rparr>"

definition acl_ok :: "acl option \<Rightarrow> bool" where
  "acl_ok a = (case a of None \<Rightarrow> True | Some x \<Rightarrow> acl_is_valid x)"

definition abs_desc_is_valid :: "abs_desc \<Rightarrow> bool" where
  "abs_desc_is_valid sd =
     (if ad_revision sd \<noteq> SECURITY_DESCRIPTOR_REVISION then False
      else if ad_owner sd = None then False
      else if ad_control sd AND SE_DACL_PRESENT \<noteq> 0 \<and> \<not> acl_ok (ad_dacl sd) then False
      else if ad_control sd AND SE_SACL_PRESENT \<noteq> 0 \<and> \<not> acl_ok (ad_sacl sd) then False
      else True)"

definition length_self_relative :: "abs_desc \<Rightarrow> nat" where
  "length_self_relative sd = 20
     + (case ad_owner sd of None \<Rightarrow> 0 | Some s \<Rightarrow> sid_size s)
     + (case ad_group sd of None \<Rightarrow> 0 | Some s \<Rightarrow> sid_size s)
     + (case ad_sacl sd of None \<Rightarrow> 0 | Some a \<Rightarrow> acl_size_usize a)
     + (case ad_dacl sd of None \<Rightarrow> 0 | Some a \<Rightarrow> acl_size_usize a)"

definition create_security_descriptor :: "abs_desc option \<Rightarrow> u8 \<Rightarrow> bool \<times> abs_desc option" where
  "create_security_descriptor sd0 revision = (case sd0 of None \<Rightarrow> (False, None)
     | Some sd \<Rightarrow> if revision \<noteq> SECURITY_DESCRIPTOR_REVISION then (False, Some sd)
                 else (True, Some (init_absolute sd)))"

definition valid_security_descriptor :: "abs_desc option \<Rightarrow> bool" where
  "valid_security_descriptor sd0 = (case sd0 of None \<Rightarrow> False | Some sd \<Rightarrow> abs_desc_is_valid sd)"

definition on_desc :: "(abs_desc \<Rightarrow> abs_desc) \<Rightarrow> abs_desc option \<Rightarrow> bool \<times> abs_desc option" where
  "on_desc f sd0 = (case sd0 of None \<Rightarrow> (False, None) | Some sd \<Rightarrow> (True, Some (f sd)))"

definition set_owner_security_descriptor ::
  "abs_desc option \<Rightarrow> sid option \<Rightarrow> bool \<Rightarrow> bool \<times> abs_desc option" where
  "set_owner_security_descriptor sd0 s defaulted = on_desc (set_owner s defaulted) sd0"

definition set_group_security_descriptor ::
  "abs_desc option \<Rightarrow> sid option \<Rightarrow> bool \<Rightarrow> bool \<times> abs_desc option" where
  "set_group_security_descriptor sd0 s defaulted = on_desc (set_group s defaulted) sd0"

definition set_dacl_security_descriptor ::
  "abs_desc option \<Rightarrow> bool \<Rightarrow> acl option \<Rightarrow> bool \<Rightarrow> bool \<times> abs_desc option" where
  "set_dacl_security_descriptor sd0 present d defaulted = on_desc (set_dacl d present defaulted) sd0"

definition set_sacl_security_descriptor ::
  "abs_desc option \<Rightarrow> bool \<Rightarrow> acl option \<Rightarrow> bool \<Rightarrow> bool \<times> abs_desc option" where
  "set_sacl_security_descriptor sd0 present d defaulted = on_desc (set_sacl d present defaulted) sd0"

section \<open>The descriptor of the access check\<close>

record sec_desc =
  sd_revision :: u8
  sd_sbz1 :: u8
  sd_control :: u16
  sd_owner :: sid
  sd_group :: sid
  sd_sacl :: "acl option"
  sd_dacl :: "acl option"

definition zeroed_sid :: sid where
  "zeroed_sid = \<lparr>sid_revision = 0, sub_authority_count = 0, identifier_authority = replicate 6 0,
     sub_authority = replicate 8 0\<rparr>"

text \<open>The descriptor as it leaves the pool.\<close>

definition zeroed_sec_desc :: sec_desc where
  "zeroed_sec_desc = \<lparr>sd_revision = 0, sd_sbz1 = 0, sd_control = 0, sd_owner = zeroed_sid,
     sd_group = zeroed_sid, sd_sacl = None, sd_dacl = None\<rparr>"

definition sec_desc_is_valid :: "sec_desc \<Rightarrow> bool" where
  "sec_desc_is_valid sd =
     (if sd_revision sd \<noteq> 1 then False
      else if sd_control sd AND SE_DACL_PRESENT \<noteq> 0 \<and> \<not> acl_ok (sd_dacl sd) then False
      else if sd_control sd AND SE_SACL_PRESENT \<noteq> 0 \<and> \<not> acl_ok (sd_sacl sd) then False
      else True)"

definition create_security_descriptor_for_sid ::
  "sid option \<Rightarrow> sid option \<Rightarrow> pool \<Rightarrow> sec_desc option \<times> pool" where
  "create_security_descriptor_for_sid own grp p = (case own of None \<Rightarrow> (None, p)
     | Some s \<Rightarrow> (case pool_allocate p of
         (False, p1) \<Rightarrow> (None, p1)
       | (True, p1) \<Rightarrow> (Some (zeroed_sec_desc\<lparr>sd_revision := 1, sd_sbz1 := 0, sd_control := 0,
            sd_owner := s, sd_group := (case grp of None \<Rightarrow> s | Some g \<Rightarrow> g),
            sd_sacl := None, sd_dacl := None\<rparr>), p1)))"

section \<open>Setters\<close>

text \<open>The control bit of a flag: both \<open>OR\<close> and \<open>AND NOT\<close> touch that bit only.\<close>

lemma bit_put_flag:
  "bit (put_flag f on c) n \<longleftrightarrow> (if bit f n then on \<and> n < 16 else bit c n)"
  by (auto simp: put_flag_def bit_simps dest: bit_imp_le_length)

lemma put_flag_commute:
  assumes "f AND g = 0"
  shows "put_flag f a (put_flag g b c) = put_flag g b (put_flag f a c)"
proof (rule bit_word_eqI)
  fix n
  have "\<not> (bit f n \<and> bit g n)" using assms by (metis bit_and_iff bit_0_eq bot_apply bot_bool_def)
  then show "bit (put_flag f a (put_flag g b c)) n \<longleftrightarrow> bit (put_flag g b (put_flag f a c)) n"
    by (auto simp: bit_put_flag)
qed

lemma put_flag_test:
  "put_flag f on c AND f = (if on then f else 0)"
  by (rule bit_word_eqI) (auto simp: bit_simps bit_put_flag dest: bit_imp_le_length)

lemma put_flag_other: "f AND g = 0 \<Longrightarrow> put_flag f on c AND g = c AND g"
proof (rule bit_word_eqI)
  fix n
  assume "f AND g = 0"
  then have "\<not> (bit f n \<and> bit g n)" by (metis bit_and_iff bit_0_eq bot_apply bot_bool_def)
  then show "bit (put_flag f on c AND g) n \<longleftrightarrow> bit (c AND g) n" by (auto simp: bit_simps bit_put_flag)
qed

lemma set_dacl_controls:
  "ad_control (set_dacl d present defaulted sd) AND SE_DACL_PRESENT \<noteq> 0 \<longleftrightarrow> present"
  "ad_control (set_dacl d present defaulted sd) AND SE_SACL_PRESENT = ad_control sd AND SE_SACL_PRESENT"
  by (simp_all add: set_dacl_def put_flag_other put_flag_test se_consts)

lemma set_owner_dacl_commute:
  "set_owner s a (set_dacl d b c sd) = set_dacl d b c (set_owner s a sd)"
  by (simp add: set_owner_def set_dacl_def put_flag_commute se_consts)

lemma create_then_set_valid:
  assumes "create_security_descriptor (Some sd) 1 = (True, Some sd1)" "acl_ok d"
  shows "abs_desc_is_valid (set_dacl d present dd (set_owner (Some s) od sd1))"
  using assms
  by (simp add: create_security_descriptor_def abs_desc_is_valid_def set_dacl_def set_owner_def
      init_absolute_def se_consts put_flag_def) auto

end
