(* ===== verification/Token.thy ===== *)
theory Token
  imports Acl_Mgmt
begin

text \<open>
  Access tokens, \<open>src/nt61/src/se/token.rs\<close>: the token structure with its fixed-size
  group and privilege arrays, the queries that the access checks use, and the
  allocation of tokens.  The invariant \<open>wf_token\<close> bounds the two counts by the array
  sizes.  Lemmas: every constructor and operation keeps the invariant, the group and
  privilege arrays are bounded stores, and a privilege is held exactly when an entry
  of the used part of the array enables it.
\<close>

section \<open>Identifiers, groups and privileges\<close>

definition TOKEN_USER :: u32 where [se_consts]: "TOKEN_USER = 1"
definition TOKEN_GROUPS :: u32 where [se_consts]: "TOKEN_GROUPS = 2"
definition TOKEN_PRIVILEGES :: u32 where [se_consts]: "TOKEN_PRIVILEGES = 3"
definition TOKEN_TYPE :: u32 where [se_consts]: "TOKEN_TYPE = 8"
definition TOKEN_IMPERSONATION_LEVEL :: u32 where [se_consts]: "TOKEN_IMPERSONATION_LEVEL = 9"
definition TOKEN_SESSION_ID :: u32 where [se_consts]: "TOKEN_SESSION_ID = 12"
definition TOKEN_INTEGRITY_LEVEL :: u32 where [se_consts]: "TOKEN_INTEGRITY_LEVEL = 25"

datatype token_type_enum = TokenPrimary | TokenImpersonation

definition SE_GROUP_MANDATORY :: u32 where [se_consts]: "SE_GROUP_MANDATORY = 0x00000001"
definition SE_GROUP_ENABLED_BY_DEFAULT :: u32 where [se_consts]: "SE_GROUP_ENABLED_BY_DEFAULT = 0x00000002"
definition SE_GROUP_ENABLED :: u32 where [se_consts]: "SE_GROUP_ENABLED = 0x00000004"
definition SE_GROUP_USE_FOR_DENY_ONLY :: u32 where [se_consts]: "SE_GROUP_USE_FOR_DENY_ONLY = 0x00000010"
definition SE_GROUP_INTEGRITY :: u32 where [se_consts]: "SE_GROUP_INTEGRITY = 0x00000020"
definition SE_GROUP_INTEGRITY_ENABLED :: u32 where [se_consts]: "SE_GROUP_INTEGRITY_ENABLED = 0x00000040"
definition SE_GROUP_LOGON_ID :: u32 where [se_consts]: "SE_GROUP_LOGON_ID = 0xC0000000"

definition SE_PRIVILEGE_ENABLED_BY_DEFAULT :: u32 where
  [se_consts]: "SE_PRIVILEGE_ENABLED_BY_DEFAULT = 0x00000001"
definition SE_PRIVILEGE_ENABLED :: u32 where [se_consts]: "SE_PRIVILEGE_ENABLED = 0x00000002"
definition SE_PRIVILEGE_REMOVED :: u32 where [se_consts]: "SE_PRIVILEGE_REMOVED = 0x00000004"

text \<open>\<open>high_part\<close> is an \<open>i32\<close>; it is kept as its bit pattern.\<close>

record luid =
  low_part :: u32
  high_part :: i32

definition luid_new :: luid where
  "luid_new = \<lparr>low_part = 0, high_part = 0\<rparr>"

definition luid_from_u64 :: "u64 \<Rightarrow> luid" where
  "luid_from_u64 v = \<lparr>low_part = ucast (v AND 0xFFFFFFFF), high_part = ucast (drop_bit 32 v)\<rparr>"

definition luid_to_u64 :: "luid \<Rightarrow> u64" where
  "luid_to_u64 l = push_bit 32 (scast (high_part l)) OR ucast (low_part l)"

definition luid_equals :: "luid \<Rightarrow> luid \<Rightarrow> bool" where
  "luid_equals a b \<longleftrightarrow> low_part a = low_part b \<and> high_part a = high_part b"

record token_group =
  grp_sid :: sid
  grp_attributes :: u32

definition token_group_new :: "sid \<Rightarrow> u32 \<Rightarrow> token_group" where
  "token_group_new s a = \<lparr>grp_sid = s, grp_attributes = a\<rparr>"

definition grp_is_enabled :: "token_group \<Rightarrow> bool" where
  "grp_is_enabled g \<longleftrightarrow> grp_attributes g AND SE_GROUP_ENABLED \<noteq> 0"

definition grp_is_mandatory :: "token_group \<Rightarrow> bool" where
  "grp_is_mandatory g \<longleftrightarrow> grp_attributes g AND SE_GROUP_MANDATORY \<noteq> 0"

definition grp_is_logon_id :: "token_group \<Rightarrow> bool" where
  "grp_is_logon_id g \<longleftrightarrow> grp_attributes g AND SE_GROUP_LOGON_ID \<noteq> 0"

definition deny_only :: "token_group \<Rightarrow> bool" where
  "deny_only g \<longleftrightarrow> grp_attributes g AND SE_GROUP_USE_FOR_DENY_ONLY \<noteq> 0"

record token_privilege =
  prv_luid :: luid
  prv_attributes :: u32

definition token_privilege_new :: "luid \<Rightarrow> u32 \<Rightarrow> token_privilege" where
  "token_privilege_new l a = \<lparr>prv_luid = l, prv_attributes = a\<rparr>"

definition prv_is_enabled :: "token_privilege \<Rightarrow> bool" where
  "prv_is_enabled p \<longleftrightarrow> prv_attributes p AND SE_PRIVILEGE_ENABLED \<noteq> 0"

definition prv_enable :: "token_privilege \<Rightarrow> token_privilege" where
  "prv_enable p = p\<lparr>prv_attributes := prv_attributes p OR SE_PRIVILEGE_ENABLED\<rparr>"

definition TOKEN_MAX_GROUPS :: nat where [se_consts]: "TOKEN_MAX_GROUPS = 16"
definition TOKEN_MAX_PRIVILEGES :: nat where [se_consts]: "TOKEN_MAX_PRIVILEGES = 16"
definition TOKEN_WRITE_RESTRICTED :: u32 where [se_consts]: "TOKEN_WRITE_RESTRICTED = 0x0008"

definition SECURITY_MANDATORY_LOW :: u32 where [se_consts]: "SECURITY_MANDATORY_LOW = 0x1000"
definition SECURITY_MANDATORY_MEDIUM :: u32 where [se_consts]: "SECURITY_MANDATORY_MEDIUM = 0x2000"
definition SECURITY_MANDATORY_HIGH :: u32 where [se_consts]: "SECURITY_MANDATORY_HIGH = 0x3000"
definition SECURITY_MANDATORY_SYSTEM :: u32 where [se_consts]: "SECURITY_MANDATORY_SYSTEM = 0x4000"

datatype impersonation_level_enum =
  SecurityAnonymous | SecurityIdentification | SecurityImpersonation | SecurityDelegation

section \<open>The token\<close>

record token =
  token_id :: luid
  authentication_id :: luid
  user :: sid
  primary_group :: sid
  default_dacl :: "acl option"
  session_id :: u32
  tok_flags :: u32
  integrity_level_rid :: u32
  token_type :: token_type_enum
  impersonation_level :: impersonation_level_enum
  groups :: "token_group list"
  group_count :: nat
  privileges :: "token_privilege list"
  privilege_count :: nat
  refcount :: u32

definition token_new :: token where
  "token_new = \<lparr>token_id = luid_new, authentication_id = luid_new, user = well_known WkNull,
     primary_group = well_known WkNull, default_dacl = None, session_id = 0, tok_flags = 0,
     integrity_level_rid = SECURITY_MANDATORY_MEDIUM, token_type = TokenPrimary,
     impersonation_level = SecurityImpersonation,
     groups = replicate TOKEN_MAX_GROUPS
       \<lparr>grp_sid = \<lparr>sid_revision = 1, sub_authority_count = 0, identifier_authority = replicate 6 0,
          sub_authority = replicate 8 0\<rparr>, grp_attributes = 0\<rparr>,
     group_count = 0,
     privileges = replicate TOKEN_MAX_PRIVILEGES \<lparr>prv_luid = luid_new, prv_attributes = 0\<rparr>,
     privilege_count = 0, refcount = 0\<rparr>"

definition new_primary :: "sid \<Rightarrow> token" where
  "new_primary user_sid = token_new\<lparr>token_id := luid_new, authentication_id := luid_new,
     user := user_sid, primary_group := SID_USERS, token_type := TokenPrimary,
     default_dacl := None, session_id := 0, tok_flags := 0,
     integrity_level_rid := SECURITY_MANDATORY_MEDIUM,
     impersonation_level := SecurityImpersonation, refcount := 1\<rparr>"

definition new_impersonation :: "sid \<Rightarrow> impersonation_level_enum \<Rightarrow> token" where
  "new_impersonation user_sid level = token_new\<lparr>token_id := luid_new, authentication_id := luid_new,
     user := user_sid, primary_group := SID_USERS, token_type := TokenImpersonation,
     impersonation_level := level, default_dacl := None, refcount := 1\<rparr>"

definition add_group :: "token_group \<Rightarrow> token \<Rightarrow> token" where
  "add_group g t = (if group_count t < TOKEN_MAX_GROUPS
     then t\<lparr>groups := (groups t)[group_count t := g], group_count := group_count t + 1\<rparr> else t)"

definition add_privilege :: "token_privilege \<Rightarrow> token \<Rightarrow> token" where
  "add_privilege p t = (if privilege_count t < TOKEN_MAX_PRIVILEGES
     then t\<lparr>privileges := (privileges t)[privilege_count t := p],
            privilege_count := privilege_count t + 1\<rparr> else t)"

definition has_privilege :: "luid \<Rightarrow> token \<Rightarrow> bool" where
  "has_privilege l t \<longleftrightarrow> list_ex (\<lambda>i. luid_equals (prv_luid (privileges t ! i)) l
     \<and> prv_is_enabled (privileges t ! i)) [0..<privilege_count t]"

definition is_local_system :: "token \<Rightarrow> bool" where
  "is_local_system t \<longleftrightarrow> sid_equals (user t) (well_known LocalSystem)"

definition is_admin :: "token \<Rightarrow> bool" where
  "is_admin t \<longleftrightarrow> is_local_system t \<or> list_ex (\<lambda>g.
     grp_attributes g AND SE_GROUP_USE_FOR_DENY_ONLY = 0
     \<and> sid_equals (grp_sid g) (well_known Administrators)) (take (group_count t) (groups t))"

definition add_ref :: "token \<Rightarrow> token" where
  "add_ref t = t\<lparr>refcount := refcount t + 1\<rparr>"

definition release :: "token \<Rightarrow> u32 \<times> token" where
  "release t = (let t' = (if 0 < refcount t then t\<lparr>refcount := refcount t - 1\<rparr> else t)
     in (refcount t', t'))"

section \<open>Privilege identifiers\<close>

datatype privilege_name =
    SE_CREATE_TOKEN_PRIVILEGE
  | SE_ASSIGN_PRIMARY_TOKEN_PRIVILEGE
  | SE_LOCK_MEMORY_PRIVILEGE
  | SE_INCREASE_QUOTA_PRIVILEGE
  | SE_MACHINE_ACCOUNT_PRIVILEGE
  | SE_TCB_PRIVILEGE
  | SE_SECURITY_PRIVILEGE
  | SE_TAKE_OWNERSHIP_PRIVILEGE
  | SE_LOAD_DRIVER_PRIVILEGE
  | SE_SYSTEM_PROFILE_PRIVILEGE
  | SE_SYSTEMTIME_PRIVILEGE
  | SE_PROFILE_SINGLE_PROCESS_PRIVILEGE
  | SE_INCREASE_BASE_PRIORITY_PRIVILEGE
  | SE_CREATE_PAGEFILE_PRIVILEGE
  | SE_CREATE_PERMANENT_PRIVILEGE
  | SE_BACKUP_PRIVILEGE
  | SE_RESTORE_PRIVILEGE
  | SE_SHUTDOWN_PRIVILEGE
  | SE_DEBUG_PRIVILEGE
  | SE_AUDIT_PRIVILEGE
  | SE_SYSTEM_ENVIRONMENT_PRIVILEGE
  | SE_CHANGE_NOTIFY_PRIVILEGE
  | SE_REMOTE_SHUTDOWN_PRIVILEGE
  | SE_UNDOCK_PRIVILEGE
  | SE_SYNC_AGENT_PRIVILEGE
  | SE_ENABLE_DELEGATION_PRIVILEGE
  | SE_MANAGE_VOLUME_PRIVILEGE
  | SE_IMPERSONATE_PRIVILEGE
  | SE_CREATE_GLOBAL_PRIVILEGE
  | SE_TRUSTED_CREDMAN_ACCESS_PRIVILEGE
  | SE_RELABEL_PRIVILEGE
  | SE_TIME_ZONE_PRIVILEGE
  | SE_CREATE_SYMBOLIC_LINK_PRIVILEGE

primrec privilege_luid :: "privilege_name \<Rightarrow> luid" where
  "privilege_luid SE_CREATE_TOKEN_PRIVILEGE = \<lparr>low_part = 0x00000002, high_part = 0\<rparr>"
| "privilege_luid SE_ASSIGN_PRIMARY_TOKEN_PRIVILEGE = \<lparr>low_part = 0x00000003, high_part = 0\<rparr>"
| "privilege_luid SE_LOCK_MEMORY_PRIVILEGE = \<lparr>low_part = 0x00000004, high_part = 0\<rparr>"
| "privilege_luid SE_INCREASE_QUOTA_PRIVILEGE = \<lparr>low_part = 0x00000005, high_part = 0\<rparr>"
| "privilege_luid SE_MACHINE_ACCOUNT_PRIVILEGE = \<lparr>low_part = 0x00000006, high_part = 0\<rparr>"
| "privilege_luid SE_TCB_PRIVILEGE = \<lparr>low_part = 0x00000007, high_part = 0\<rparr>"
| "privilege_luid SE_SECURITY_PRIVILEGE = \<lparr>low_part = 0x00000008, high_part = 0\<rparr>"
| "privilege_luid SE_TAKE_OWNERSHIP_PRIVILEGE = \<lparr>low_part = 0x00000009, high_part = 0\<rparr>"
| "privilege_luid SE_LOAD_DRIVER_PRIVILEGE = \<lparr>low_part = 0x0000000A, high_part = 0\<rparr>"
| "privilege_luid SE_SYSTEM_PROFILE_PRIVILEGE = \<lparr>low_part = 0x0000000B, high_part = 0\<rparr>"
| "privilege_luid SE_SYSTEMTIME_PRIVILEGE = \<lparr>low_part = 0x0000000C, high_part = 0\<rparr>"
| "privilege_luid SE_PROFILE_SINGLE_PROCESS_PRIVILEGE = \<lparr>low_part = 0x0000000D, high_part = 0\<rparr>"
| "privilege_luid SE_INCREASE_BASE_PRIORITY_PRIVILEGE = \<lparr>low_part = 0x0000000E, high_part = 0\<rparr>"
| "privilege_luid SE_CREATE_PAGEFILE_PRIVILEGE = \<lparr>low_part = 0x0000000F, high_part = 0\<rparr>"
| "privilege_luid SE_CREATE_PERMANENT_PRIVILEGE = \<lparr>low_part = 0x00000010, high_part = 0\<rparr>"
| "privilege_luid SE_BACKUP_PRIVILEGE = \<lparr>low_part = 0x00000011, high_part = 0\<rparr>"
| "privilege_luid SE_RESTORE_PRIVILEGE = \<lparr>low_part = 0x00000012, high_part = 0\<rparr>"
| "privilege_luid SE_SHUTDOWN_PRIVILEGE = \<lparr>low_part = 0x00000013, high_part = 0\<rparr>"
| "privilege_luid SE_DEBUG_PRIVILEGE = \<lparr>low_part = 0x00000014, high_part = 0\<rparr>"
| "privilege_luid SE_AUDIT_PRIVILEGE = \<lparr>low_part = 0x00000015, high_part = 0\<rparr>"
| "privilege_luid SE_SYSTEM_ENVIRONMENT_PRIVILEGE = \<lparr>low_part = 0x00000016, high_part = 0\<rparr>"
| "privilege_luid SE_CHANGE_NOTIFY_PRIVILEGE = \<lparr>low_part = 0x00000017, high_part = 0\<rparr>"
| "privilege_luid SE_REMOTE_SHUTDOWN_PRIVILEGE = \<lparr>low_part = 0x00000018, high_part = 0\<rparr>"
| "privilege_luid SE_UNDOCK_PRIVILEGE = \<lparr>low_part = 0x00000019, high_part = 0\<rparr>"
| "privilege_luid SE_SYNC_AGENT_PRIVILEGE = \<lparr>low_part = 0x0000001A, high_part = 0\<rparr>"
| "privilege_luid SE_ENABLE_DELEGATION_PRIVILEGE = \<lparr>low_part = 0x0000001B, high_part = 0\<rparr>"
| "privilege_luid SE_MANAGE_VOLUME_PRIVILEGE = \<lparr>low_part = 0x0000001C, high_part = 0\<rparr>"
| "privilege_luid SE_IMPERSONATE_PRIVILEGE = \<lparr>low_part = 0x0000001D, high_part = 0\<rparr>"
| "privilege_luid SE_CREATE_GLOBAL_PRIVILEGE = \<lparr>low_part = 0x0000001E, high_part = 0\<rparr>"
| "privilege_luid SE_TRUSTED_CREDMAN_ACCESS_PRIVILEGE = \<lparr>low_part = 0x0000001F, high_part = 0\<rparr>"
| "privilege_luid SE_RELABEL_PRIVILEGE = \<lparr>low_part = 0x00000020, high_part = 0\<rparr>"
| "privilege_luid SE_TIME_ZONE_PRIVILEGE = \<lparr>low_part = 0x00000021, high_part = 0\<rparr>"
| "privilege_luid SE_CREATE_SYMBOLIC_LINK_PRIVILEGE = \<lparr>low_part = 0x00000022, high_part = 0\<rparr>"

section \<open>Allocation\<close>

definition create_system_token :: "pool \<Rightarrow> token option \<times> pool" where
  "create_system_token p = (case pool_allocate p of
     (False, p1) \<Rightarrow> (None, p1)
   | (True, p1) \<Rightarrow> (Some (new_primary (well_known LocalSystem)), p1))"

definition create_user_token :: "sid \<Rightarrow> pool \<Rightarrow> token option \<times> pool" where
  "create_user_token user_sid p = (case pool_allocate p of
     (False, p1) \<Rightarrow> (None, p1) | (True, p1) \<Rightarrow> (Some (new_primary user_sid), p1))"

definition persist_token :: "token \<Rightarrow> pool \<Rightarrow> token option \<times> pool" where
  "persist_token template p = (case pool_allocate p of
     (False, p1) \<Rightarrow> (None, p1) | (True, p1) \<Rightarrow> (Some template, p1))"

definition duplicate_for_process :: "token \<Rightarrow> pool \<Rightarrow> token option \<times> pool" where
  "duplicate_for_process template p = (case persist_token template p of
     (None, p1) \<Rightarrow> (None, p1)
   | (Some t, p1) \<Rightarrow> (case default_dacl t of
        None \<Rightarrow> (Some t, p1)
      | Some d \<Rightarrow> (case pool_allocate p1 of
           (False, p2) \<Rightarrow> (None, pool_free p2)
         | (True, p2) \<Rightarrow> (Some (t\<lparr>default_dacl := Some d\<rparr>), p2))))"

section \<open>The invariant\<close>

definition wf_token :: "token \<Rightarrow> bool" where
  "wf_token t \<longleftrightarrow> wf_sid (user t) \<and> wf_sid (primary_group t)
     \<and> length (groups t) = TOKEN_MAX_GROUPS \<and> group_count t \<le> TOKEN_MAX_GROUPS
     \<and> (\<forall>g \<in> set (groups t). wf_sid (grp_sid g))
     \<and> length (privileges t) = TOKEN_MAX_PRIVILEGES \<and> privilege_count t \<le> TOKEN_MAX_PRIVILEGES
     \<and> (case default_dacl t of None \<Rightarrow> True | Some a \<Rightarrow> wf_acl a)"

text \<open>The entries in use.\<close>

definition token_groups :: "token \<Rightarrow> token_group list" where
  "token_groups t = take (group_count t) (groups t)"

definition token_privileges :: "token \<Rightarrow> token_privilege list" where
  "token_privileges t = take (privilege_count t) (privileges t)"

lemma wf_tokenD:
  assumes "wf_token t"
  shows "wf_sid (user t)" "wf_sid (primary_group t)" "length (groups t) = 16" "group_count t \<le> 16"
    "\<And>g. g \<in> set (groups t) \<Longrightarrow> wf_sid (grp_sid g)"
    "length (privileges t) = 16" "privilege_count t \<le> 16"
  using assms by (auto simp: wf_token_def se_consts)

lemma wf_token_groups: "wf_token t \<Longrightarrow> g \<in> set (token_groups t) \<Longrightarrow> wf_sid (grp_sid g)"
  by (auto simp: token_groups_def dest: in_set_takeD wf_tokenD(5))

lemma wf_token_new [wf_intros]: "wf_token token_new"
  by (simp add: wf_token_def token_new_def wf_well_known wf_sid_def wk1_def)

lemma wf_new_primary [wf_intros]: "wf_sid s \<Longrightarrow> wf_token (new_primary s)"
  using wf_token_new wf_well_known [of Users]
  by (simp add: wf_token_def new_primary_def SID_USERS_def del: well_known.simps)

lemma wf_new_impersonation [wf_intros]: "wf_sid s \<Longrightarrow> wf_token (new_impersonation s l)"
  using wf_token_new wf_well_known [of Users]
  by (simp add: wf_token_def new_impersonation_def SID_USERS_def del: well_known.simps)

section \<open>Groups and privileges as bounded stores\<close>

lemma set_update_sub: "\<forall>x \<in> set xs. P x \<Longrightarrow> P y \<Longrightarrow> \<forall>x \<in> set (xs[i := y]). P x"
  using set_update_subset_insert [of xs i y] by auto

lemma wf_add_group [wf_intros]: "wf_token t \<Longrightarrow> wf_sid (grp_sid g) \<Longrightarrow> wf_token (add_group g t)"
  using set_update_sub [of "groups t" "\<lambda>g. wf_sid (grp_sid g)" g "group_count t"]
  by (simp add: wf_token_def add_group_def)

lemma wf_add_privilege [wf_intros]: "wf_token t \<Longrightarrow> wf_token (add_privilege p t)"
  by (simp add: wf_token_def add_privilege_def)

definition groups_rep :: "token \<Rightarrow> token_group list \<Rightarrow> bool" where
  "groups_rep t gs \<longleftrightarrow> wf_token t \<and> token_groups t = gs"

definition privileges_rep :: "token \<Rightarrow> token_privilege list \<Rightarrow> bool" where
  "privileges_rep t ps \<longleftrightarrow> wf_token t \<and> token_privileges t = ps"

definition try_add_group :: "token_group \<Rightarrow> token \<Rightarrow> bool \<times> token" where
  "try_add_group g t = (group_count t < TOKEN_MAX_GROUPS, add_group g t)"

definition try_add_privilege :: "token_privilege \<Rightarrow> token \<Rightarrow> bool \<times> token" where
  "try_add_privilege p t = (privilege_count t < TOKEN_MAX_PRIVILEGES, add_privilege p t)"

lemma token_groups_add:
  assumes "wf_token t"
  shows "token_groups (add_group g t) =
    (if group_count t < TOKEN_MAX_GROUPS then token_groups t @ [g] else token_groups t)"
  using wf_tokenD(3) [OF assms]
  by (simp add: add_group_def token_groups_def take_Suc_conv_app_nth se_consts)

lemma token_privileges_add:
  assumes "wf_token t"
  shows "token_privileges (add_privilege p t) =
    (if privilege_count t < TOKEN_MAX_PRIVILEGES then token_privileges t @ [p] else token_privileges t)"
  using wf_tokenD(6) [OF assms]
  by (simp add: add_privilege_def token_privileges_def take_Suc_conv_app_nth se_consts)

interpretation group_store: append_store groups_rep try_add_group id "\<lambda>g. wf_sid (grp_sid g)"
  "\<lambda>g t. group_count t < TOKEN_MAX_GROUPS"
  by unfold_locales
    (simp_all add: groups_rep_def try_add_group_def wf_add_group token_groups_add, simp add: add_group_def)

interpretation privilege_store: append_store privileges_rep try_add_privilege id "\<lambda>_. True"
  "\<lambda>p t. privilege_count t < TOKEN_MAX_PRIVILEGES"
  by unfold_locales
    (simp_all add: privileges_rep_def try_add_privilege_def wf_add_privilege token_privileges_add,
     simp add: add_privilege_def)

lemma list_ex_upt_take:
  "n \<le> length xs \<Longrightarrow> list_ex (\<lambda>i. P (xs ! i)) [0..<n] \<longleftrightarrow> (\<exists>x \<in> set (take n xs). P x)"
  by (simp add: list_ex_iff nth_image [symmetric])

lemma luid_equals_iff: "luid_equals a b \<longleftrightarrow> a = b"
  by (cases a; cases b) (simp add: luid_equals_def)

lemma has_privilege_iff:
  "wf_token t \<Longrightarrow> has_privilege l t \<longleftrightarrow> (\<exists>p \<in> set (token_privileges t). prv_luid p = l \<and> prv_is_enabled p)"
  using list_ex_upt_take [of "privilege_count t" "privileges t" "\<lambda>p. luid_equals (prv_luid p) l \<and> prv_is_enabled p"]
  by (simp add: has_privilege_def token_privileges_def wf_tokenD luid_equals_iff)

section \<open>Identifiers\<close>

lemma luid_u64_round_trip: "luid_to_u64 (luid_from_u64 v) = v"
proof (rule bit_word_eqI)
  fix n assume "n < LENGTH(64)"
  moreover have "v AND 0xFFFFFFFF = take_bit 32 v"
    by (simp add: take_bit_eq_mask mask_eq_exp_minus_1)
  ultimately show "bit (luid_to_u64 (luid_from_u64 v)) n \<longleftrightarrow> bit v n"
    by (cases "n < 32") (auto simp: luid_to_u64_def luid_from_u64_def bit_simps)
qed

lemma luid_from_u64_inject: "luid_from_u64 v = luid_from_u64 w \<longleftrightarrow> v = w"
  by (metis luid_u64_round_trip)

section \<open>Allocation\<close>

lemma duplicate_for_process_spec:
  assumes "duplicate_for_process t p = (r, p')"
  shows "r = None \<or> r = Some t"
    and "pool_live p' = pool_live p + (case r of None \<Rightarrow> 0 | Some _ \<Rightarrow> if default_dacl t = None then 1 else 2)"
proof -
  show "r = None \<or> r = Some t"
    using assms by (auto simp: duplicate_for_process_def persist_token_def
        split: prod.splits bool.splits option.splits)
  show "pool_live p' = pool_live p + (case r of None \<Rightarrow> 0 | Some _ \<Rightarrow> if default_dacl t = None then 1 else 2)"
    using assms by (auto simp: duplicate_for_process_def persist_token_def
        dest!: pool_live_allocate split: prod.splits bool.splits option.splits)
qed

section \<open>Adding to a fresh token\<close>

lemma token_lists_primary:
  "token_groups (new_primary s) = []" "token_privileges (new_primary s) = []"
  "group_count (new_primary s) = 0" "privilege_count (new_primary s) = 0" "user (new_primary s) = s"
  by (simp_all add: new_primary_def token_new_def token_groups_def token_privileges_def)

lemma adding_counts:
  "group_count (add_group g t) = (if group_count t < 16 then Suc (group_count t) else group_count t)"
  "privilege_count (add_group g t) = privilege_count t" "user (add_group g t) = user t"
  "token_privileges (add_group g t) = token_privileges t"
  "privilege_count (add_privilege p t) = (if privilege_count t < 16 then Suc (privilege_count t) else privilege_count t)"
  "group_count (add_privilege p t) = group_count t" "user (add_privilege p t) = user t"
  "token_groups (add_privilege p t) = token_groups t"
  by (simp_all add: add_group_def add_privilege_def token_groups_def token_privileges_def se_consts)

lemma flags_lists:
  "token_groups (t\<lparr>tok_flags := f\<rparr>) = token_groups t" "token_privileges (t\<lparr>tok_flags := f\<rparr>) = token_privileges t"
  "wf_token (t\<lparr>tok_flags := f\<rparr>) = wf_token t"
  by (simp_all add: token_groups_def token_privileges_def wf_token_def)

lemmas token_adding = token_lists_primary adding_counts flags_lists

end
