(* ===== verification/Token_Mgmt.thy ===== *)
theory Token_Mgmt
  imports Token
begin

text \<open>
  Token management, \<open>src/nt61/src/se/tokenmgmt.rs\<close>: creation, duplication, filtering,
  adjustment of privileges and groups, and the query and set operations.  The static
  counters of the source and the pool are the state \<open>se_state\<close>; a previous-state
  vector is an option in and out.  Lemmas: every operation keeps the token invariant,
  filtering only removes rights, disabling all privileges leaves none enabled, an
  adjustment reports failure exactly when it ran out of room, and adjusting with the
  saved previous state restores the privileges.
\<close>

record se_state =
  se_pool :: pool
  next_token_id :: u64
  next_auth_id :: u64
  next_dup_token_id :: u64

definition initial_counters :: "pool \<Rightarrow> se_state" where
  "initial_counters p = \<lparr>se_pool = p, next_token_id = 1000, next_auth_id = 2000,
     next_dup_token_id = 1000\<rparr>"

definition se_create_token ::
  "sid \<Rightarrow> token_group list \<Rightarrow> token_privilege list \<Rightarrow> token_type_enum \<Rightarrow>
     impersonation_level_enum \<Rightarrow> se_state \<Rightarrow> token option \<times> se_state" where
  "se_create_token usr grps prvs ttype level st =
     (if TOKEN_MAX_GROUPS < length grps \<or> TOKEN_MAX_PRIVILEGES < length prvs then (None, st)
      else case pool_allocate (se_pool st) of
        (False, p1) \<Rightarrow> (None, st\<lparr>se_pool := p1\<rparr>)
      | (True, p1) \<Rightarrow>
          (Some (token_new\<lparr>user := usr, token_type := ttype, impersonation_level := level,
              refcount := 1,
              groups := overwrite (groups token_new) 0 grps, group_count := length grps,
              privileges := overwrite (privileges token_new) 0 prvs, privilege_count := length prvs,
              primary_group := SID_USERS,
              token_id := luid_from_u64 (next_token_id st),
              authentication_id := luid_from_u64 (next_auth_id st)\<rparr>),
           st\<lparr>se_pool := p1, next_token_id := next_token_id st + 1,
              next_auth_id := next_auth_id st + 1\<rparr>))"

definition se_duplicate_token ::
  "token option \<Rightarrow> impersonation_level_enum \<Rightarrow> token_type_enum \<Rightarrow> se_state \<Rightarrow>
     token option \<times> se_state" where
  "se_duplicate_token existing level ttype st = (case existing of None \<Rightarrow> (None, st)
     | Some src \<Rightarrow> (case pool_allocate (se_pool st) of
         (False, p1) \<Rightarrow> (None, st\<lparr>se_pool := p1\<rparr>)
       | (True, p1) \<Rightarrow>
           (Some (src\<lparr>token_type := ttype, impersonation_level := level,
               token_id := luid_from_u64 (next_dup_token_id st),
               authentication_id := authentication_id src, refcount := 1\<rparr>),
            st\<lparr>se_pool := p1, next_dup_token_id := next_dup_token_id st + 1\<rparr>)))"

definition disable_sid :: "sid \<Rightarrow> token \<Rightarrow> token" where
  "disable_sid s t = fold (\<lambda>i t.
     if sid_equals (grp_sid (groups t ! i)) s
     then let g = groups t ! i;
              a = (grp_attributes g AND NOT SE_GROUP_ENABLED) OR SE_GROUP_USE_FOR_DENY_ONLY
          in t\<lparr>groups := (groups t)[i := g\<lparr>grp_attributes := a\<rparr>]\<rparr>
     else t) [0..<group_count t] t"

definition delete_privilege :: "luid \<Rightarrow> token \<Rightarrow> token" where
  "delete_privilege l t = fold (\<lambda>i t.
     if luid_equals (prv_luid (privileges t ! i)) l
     then t\<lparr>privileges := (privileges t)[i := (privileges t ! i)\<lparr>prv_attributes := SE_PRIVILEGE_REMOVED\<rparr>]\<rparr>
     else t) [0..<privilege_count t] t"

definition add_restricted_sid :: "sid \<Rightarrow> token \<Rightarrow> token" where
  "add_restricted_sid s t = (if group_count t < TOKEN_MAX_GROUPS
     then t\<lparr>groups := (groups t)[group_count t :=
              \<lparr>grp_sid = s, grp_attributes = SE_GROUP_ENABLED OR SE_GROUP_USE_FOR_DENY_ONLY\<rparr>],
            group_count := group_count t + 1\<rparr>
     else t)"

definition filter_body :: "sid list \<Rightarrow> luid list \<Rightarrow> sid list \<Rightarrow> token \<Rightarrow> token" where
  "filter_body sids_to_disable privileges_to_delete restricted_sids t =
     (let t1 = fold disable_sid sids_to_disable t;
          t2 = fold delete_privilege privileges_to_delete t1;
          t3 = fold add_restricted_sid restricted_sids t2
      in t3\<lparr>tok_flags := tok_flags t3 OR TOKEN_WRITE_RESTRICTED\<rparr>)"

definition se_filter_token ::
  "token option \<Rightarrow> u32 \<Rightarrow> sid list \<Rightarrow> luid list \<Rightarrow> sid list \<Rightarrow> se_state \<Rightarrow>
     token option \<times> se_state" where
  "se_filter_token existing flags sids_to_disable privileges_to_delete restricted_sids st =
     (case existing of None \<Rightarrow> (None, st)
      | Some e \<Rightarrow> (case se_duplicate_token existing (impersonation_level e) (token_type e) st of
          (None, st1) \<Rightarrow> (None, st1)
        | (Some t, st1) \<Rightarrow>
            (Some (filter_body sids_to_disable privileges_to_delete restricted_sids t), st1)))"

definition se_token_is_restricted :: "token option \<Rightarrow> bool" where
  "se_token_is_restricted tok0 = (case tok0 of None \<Rightarrow> False
     | Some t \<Rightarrow> tok_flags t AND TOKEN_WRITE_RESTRICTED \<noteq> 0)"

section \<open>Adjusting privileges and groups\<close>

type_synonym 'a saved = "'a list option"

definition save :: "'a \<Rightarrow> 'a saved \<Rightarrow> 'a saved" where
  "save x prev = map_option (\<lambda>xs. xs @ [x]) prev"

definition disable_all_step :: "nat \<Rightarrow> token \<times> token_privilege saved \<Rightarrow> token \<times> token_privilege saved" where
  "disable_all_step i s = (case s of (t, prev) \<Rightarrow>
     let p = privileges t ! i in
     (t\<lparr>privileges := (privileges t)[i :=
          p\<lparr>prv_attributes := prv_attributes p AND NOT SE_PRIVILEGE_ENABLED\<rparr>]\<rparr>, save p prev))"

definition adjust_privilege ::
  "token_privilege \<Rightarrow> bool \<times> token \<times> token_privilege saved \<Rightarrow> bool \<times> token \<times> token_privilege saved" where
  "adjust_privilege new_priv s = (case s of (all_found, t, prev) \<Rightarrow>
     case find_from (\<lambda>p. luid_equals (prv_luid p) (prv_luid new_priv)) (privileges t) (privilege_count t) of
       Some i \<Rightarrow> (all_found,
          t\<lparr>privileges := (privileges t)[i :=
              (privileges t ! i)\<lparr>prv_attributes := prv_attributes new_priv\<rparr>]\<rparr>,
          save (privileges t ! i) prev)
     | None \<Rightarrow>
         if privilege_count t < TOKEN_MAX_PRIVILEGES
         then (all_found, t\<lparr>privileges := (privileges t)[privilege_count t :=
                  \<lparr>prv_luid = prv_luid new_priv, prv_attributes = prv_attributes new_priv\<rparr>],
                privilege_count := privilege_count t + 1\<rparr>, prev)
         else (False, t, prev))"

definition se_adjust_privileges_token ::
  "token option \<Rightarrow> bool \<Rightarrow> token_privilege list \<Rightarrow> token_privilege saved \<Rightarrow>
     bool \<times> token option \<times> token_privilege saved" where
  "se_adjust_privileges_token tok0 disable_all new_state prev = (case tok0 of
     None \<Rightarrow> (False, None, prev)
   | Some t \<Rightarrow>
       if disable_all
       then (case fold disable_all_step [0..<privilege_count t] (t, prev) of
               (t', prev') \<Rightarrow> (True, Some t', prev'))
       else (case fold adjust_privilege new_state (True, t, prev) of
               (ok, t', prev') \<Rightarrow> (ok, Some t', prev')))"

definition reset_group_step :: "nat \<Rightarrow> token \<times> token_group saved \<Rightarrow> token \<times> token_group saved" where
  "reset_group_step i s = (case s of (t, prev) \<Rightarrow>
     let g = groups t ! i;
         a = (if grp_attributes g AND SE_GROUP_ENABLED_BY_DEFAULT \<noteq> 0
              then grp_attributes g OR SE_GROUP_ENABLED
              else grp_attributes g AND NOT SE_GROUP_ENABLED)
     in (t\<lparr>groups := (groups t)[i := g\<lparr>grp_attributes := a\<rparr>]\<rparr>, save g prev))"

definition adjust_group ::
  "token_group \<Rightarrow> bool \<times> token \<times> token_group saved \<Rightarrow> bool \<times> token \<times> token_group saved" where
  "adjust_group new_group s = (case s of (all_found, t, prev) \<Rightarrow>
     case find_from (\<lambda>g. sid_equals (grp_sid g) (grp_sid new_group)) (groups t) (group_count t) of
       Some i \<Rightarrow> (all_found,
          t\<lparr>groups := (groups t)[i := (groups t ! i)\<lparr>grp_attributes := grp_attributes new_group\<rparr>]\<rparr>,
          save (groups t ! i) prev)
     | None \<Rightarrow>
         if group_count t < TOKEN_MAX_GROUPS
         then (all_found, t\<lparr>groups := (groups t)[group_count t :=
                  \<lparr>grp_sid = grp_sid new_group, grp_attributes = grp_attributes new_group\<rparr>],
                group_count := group_count t + 1\<rparr>, prev)
         else (False, t, prev))"

definition se_adjust_groups_token ::
  "token option \<Rightarrow> bool \<Rightarrow> token_group list \<Rightarrow> token_group saved \<Rightarrow>
     bool \<times> token option \<times> token_group saved" where
  "se_adjust_groups_token tok0 reset_to_default new_state prev = (case tok0 of
     None \<Rightarrow> (False, None, prev)
   | Some t \<Rightarrow>
       if reset_to_default
       then (case fold reset_group_step [0..<group_count t] (t, prev) of
               (t', prev') \<Rightarrow> (True, Some t', prev'))
       else (case fold adjust_group new_state (True, t, prev) of
               (ok, t', prev') \<Rightarrow> (ok, Some t', prev')))"

section \<open>Queries and settings\<close>

text \<open>What a query writes into the caller's buffer.\<close>

datatype token_info =
    InfoUser sid
  | InfoGroups u32 "token_group list"
  | InfoPrivileges u32 "token_privilege list"
  | InfoType token_type_enum
  | InfoLevel impersonation_level_enum
  | InfoU32 u32

definition sizeof_sid :: nat where "sizeof_sid = 40"
definition sizeof_token_group :: nat where "sizeof_token_group = 44"
definition sizeof_token_privilege :: nat where "sizeof_token_privilege = 12"

definition token_info_of :: "token \<Rightarrow> u32 \<Rightarrow> (nat \<times> token_info) option" where
  "token_info_of t info_class =
     (if info_class = TOKEN_USER then Some (sizeof_sid, InfoUser (user t))
      else if info_class = TOKEN_GROUPS
        then Some (4 + group_count t * sizeof_token_group,
          InfoGroups (of_nat (group_count t)) (map (\<lambda>i. groups t ! i) [0..<group_count t]))
      else if info_class = TOKEN_PRIVILEGES
        then Some (4 + privilege_count t * sizeof_token_privilege,
          InfoPrivileges (of_nat (privilege_count t)) (map (\<lambda>i. privileges t ! i) [0..<privilege_count t]))
      else if info_class = TOKEN_TYPE then Some (1, InfoType (token_type t))
      else if info_class = TOKEN_IMPERSONATION_LEVEL then Some (4, InfoLevel (impersonation_level t))
      else if info_class = TOKEN_SESSION_ID then Some (4, InfoU32 (session_id t))
      else if info_class = TOKEN_INTEGRITY_LEVEL then Some (4, InfoU32 (integrity_level_rid t))
      else None)"

text \<open>
  The result, the returned length (\<open>None\<close> when the pointer is null and nothing is
  written) and the contents written to the buffer; \<open>has_buffer\<close> says that the buffer
  pointer is not null.
\<close>

definition se_query_information_token ::
  "token option \<Rightarrow> u32 \<Rightarrow> bool \<Rightarrow> u32 \<Rightarrow> bool \<Rightarrow> bool \<times> u32 option \<times> token_info option" where
  "se_query_information_token tok0 info_class has_buffer buffer_length has_return_length =
     (case tok0 of None \<Rightarrow> (False, None, None)
      | Some t \<Rightarrow> if \<not> has_return_length then (False, None, None)
          else (case token_info_of t info_class of
             None \<Rightarrow> (False, Some 0, None)
           | Some (required, info) \<Rightarrow>
               if \<not> has_buffer \<or> buffer_length < of_nat required
               then (False, Some (of_nat required), None)
               else (True, Some (of_nat required), Some info)))"

definition se_set_information_token ::
  "token option \<Rightarrow> u32 \<Rightarrow> u8 list option \<Rightarrow> u32 \<Rightarrow> bool \<times> token option" where
  "se_set_information_token tok0 info_class buffer buffer_length = (case (tok0, buffer) of
     (Some t, Some b) \<Rightarrow>
       if info_class = TOKEN_SESSION_ID then
         (if buffer_length < 4 then (False, Some t)
          else (True, Some (t\<lparr>session_id := le_u32 (b ! 0) (b ! 1) (b ! 2) (b ! 3)\<rparr>)))
       else if info_class = TOKEN_INTEGRITY_LEVEL then
         (if buffer_length < 4 then (False, Some t)
          else (True, Some (t\<lparr>integrity_level_rid := le_u32 (b ! 0) (b ! 1) (b ! 2) (b ! 3)\<rparr>)))
       else (False, Some t)
   | _ \<Rightarrow> (False, tok0))"

definition se_token_type :: "token option \<Rightarrow> token_type_enum" where
  "se_token_type tok0 = (case tok0 of None \<Rightarrow> TokenPrimary | Some t \<Rightarrow> token_type t)"

definition se_token_impersonation_level :: "token option \<Rightarrow> impersonation_level_enum" where
  "se_token_impersonation_level tok0 =
     (case tok0 of None \<Rightarrow> SecurityAnonymous | Some t \<Rightarrow> impersonation_level t)"

section \<open>Filtering\<close>

definition map_groups :: "(token_group \<Rightarrow> token_group) \<Rightarrow> token \<Rightarrow> token" where
  "map_groups f t = t\<lparr>groups := map f (token_groups t) @ drop (group_count t) (groups t)\<rparr>"

definition map_privileges :: "(token_privilege \<Rightarrow> token_privilege) \<Rightarrow> token \<Rightarrow> token" where
  "map_privileges f t = t\<lparr>privileges := map f (token_privileges t) @ drop (privilege_count t) (privileges t)\<rparr>"

lemma map_groups_simps [simp]:
  "user (map_groups f t) = user t" "group_count (map_groups f t) = group_count t"
  "privileges (map_groups f t) = privileges t" "privilege_count (map_groups f t) = privilege_count t"
  "integrity_level_rid (map_groups f t) = integrity_level_rid t"
  "token_privileges (map_groups f t) = token_privileges t"
  by (simp_all add: map_groups_def token_privileges_def)

lemma map_privileges_simps [simp]:
  "user (map_privileges f t) = user t" "privilege_count (map_privileges f t) = privilege_count t"
  "groups (map_privileges f t) = groups t" "group_count (map_privileges f t) = group_count t"
  "integrity_level_rid (map_privileges f t) = integrity_level_rid t"
  "token_groups (map_privileges f t) = token_groups t"
  by (simp_all add: map_privileges_def token_groups_def)

lemma token_groups_map [simp]:
  "wf_token t \<Longrightarrow> token_groups (map_groups f t) = map f (token_groups t)"
  using wf_tokenD(3,4) [of t] by (simp add: map_groups_def token_groups_def)

lemma token_privileges_map [simp]:
  "wf_token t \<Longrightarrow> token_privileges (map_privileges f t) = map f (token_privileges t)"
  using wf_tokenD(6,7) [of t] by (simp add: map_privileges_def token_privileges_def)

lemma wf_map_groups [wf_intros]:
  assumes "wf_token t" "\<And>g. grp_sid (f g) = grp_sid g"
  shows "wf_token (map_groups f t)"
  using assms wf_tokenD [OF assms(1)]
  by (auto simp: wf_token_def map_groups_def token_groups_def se_consts dest: in_set_takeD in_set_dropD)

lemma wf_map_privileges [wf_intros]: "wf_token t \<Longrightarrow> wf_token (map_privileges f t)"
  by (simp add: wf_token_def map_privileges_def token_privileges_def se_consts)

lemma fold_groups_map:
  assumes "n \<le> length (groups t)"
    and step: "\<And>i t. h i t = t\<lparr>groups := (groups t)[i := f (groups t ! i)]\<rparr>"
  shows "fold h [0..<n] t = t\<lparr>groups := map f (take n (groups t)) @ drop n (groups t)\<rparr>"
  using assms(1)
proof (induction n)
  case (Suc n)
  then have n: "n < length (groups t)" by simp
  have "fold h [0..<Suc n] t = h n (fold h [0..<n] t)" by simp
  also have "fold h [0..<n] t = t\<lparr>groups := map f (take n (groups t)) @ drop n (groups t)\<rparr>"
    using Suc by simp
  finally show ?case by (simp add: step take_drop_update [OF n])
qed simp

lemma fold_privileges_map:
  assumes "n \<le> length (privileges t)"
    and step: "\<And>i t. h i t = t\<lparr>privileges := (privileges t)[i := f (privileges t ! i)]\<rparr>"
  shows "fold h [0..<n] t = t\<lparr>privileges := map f (take n (privileges t)) @ drop n (privileges t)\<rparr>"
  using assms(1)
proof (induction n)
  case (Suc n)
  then have n: "n < length (privileges t)" by simp
  have "fold h [0..<Suc n] t = h n (fold h [0..<n] t)" by simp
  also have "fold h [0..<n] t = t\<lparr>privileges := map f (take n (privileges t)) @ drop n (privileges t)\<rparr>"
    using Suc by simp
  finally show ?case by (simp add: step take_drop_update [OF n])
qed simp

definition disabled_group :: "sid \<Rightarrow> token_group \<Rightarrow> token_group" where
  "disabled_group s g = (if sid_equals (grp_sid g) s
     then g\<lparr>grp_attributes := (grp_attributes g AND NOT SE_GROUP_ENABLED) OR SE_GROUP_USE_FOR_DENY_ONLY\<rparr>
     else g)"

definition removed_privilege :: "luid \<Rightarrow> token_privilege \<Rightarrow> token_privilege" where
  "removed_privilege l p = (if prv_luid p = l then p\<lparr>prv_attributes := SE_PRIVILEGE_REMOVED\<rparr> else p)"

lemma disable_sid_map:
  assumes "wf_token t"
  shows "disable_sid s t = map_groups (disabled_group s) t"
  unfolding disable_sid_def map_groups_def token_groups_def
  using wf_tokenD(3,4) [OF assms]
  by (intro fold_groups_map) (simp_all add: disabled_group_def Let_def)

lemma delete_privilege_map:
  assumes "wf_token t"
  shows "delete_privilege l t = map_privileges (removed_privilege l) t"
  unfolding delete_privilege_def map_privileges_def token_privileges_def
  using wf_tokenD(6,7) [OF assms]
  by (intro fold_privileges_map) (simp_all add: removed_privilege_def luid_equals_iff)

lemma add_restricted_sid_group:
  "add_restricted_sid s t = add_group \<lparr>grp_sid = s,
     grp_attributes = SE_GROUP_ENABLED OR SE_GROUP_USE_FOR_DENY_ONLY\<rparr> t"
  by (simp add: add_restricted_sid_def add_group_def)

text \<open>
  \<open>weaker t' t\<close>: everything that can speak for an access request in \<open>t'\<close> also does
  in \<open>t\<close>, and everything that can speak against one in \<open>t\<close> still does in \<open>t'\<close>.
\<close>

definition allow_sids :: "token \<Rightarrow> sid set" where
  "allow_sids t = grp_sid ` {g \<in> set (token_groups t). \<not> deny_only g}"

definition all_sids :: "token \<Rightarrow> sid set" where
  "all_sids t = grp_sid ` set (token_groups t)"

definition enabled_luids :: "token \<Rightarrow> luid set" where
  "enabled_luids t = prv_luid ` {p \<in> set (token_privileges t). prv_is_enabled p}"

definition weaker :: "token \<Rightarrow> token \<Rightarrow> bool" where
  "weaker t' t \<longleftrightarrow> user t' = user t \<and> integrity_level_rid t' = integrity_level_rid t
     \<and> allow_sids t' \<subseteq> allow_sids t \<and> all_sids t \<subseteq> all_sids t' \<and> enabled_luids t' \<subseteq> enabled_luids t"

lemmas weaker_defs = weaker_def allow_sids_def all_sids_def enabled_luids_def

lemma weaker_refl [simp]: "weaker t t"
  by (simp add: weaker_def)

lemma weaker_trans: "weaker a b \<Longrightarrow> weaker b c \<Longrightarrow> weaker a c"
  unfolding weaker_def by auto

lemma attr_deny_only: "deny_only (g\<lparr>grp_attributes := a OR SE_GROUP_USE_FOR_DENY_ONLY\<rparr>)"
  by (simp add: deny_only_def se_consts bit.conj_disj_distrib2)

lemma disabled_group_simps [simp]:
  "grp_sid (disabled_group s g) = grp_sid g"
  "sid_equals (grp_sid g) s \<Longrightarrow> deny_only (disabled_group s g)"
  "\<not> deny_only (disabled_group s g) \<Longrightarrow> \<not> deny_only g"
  by (auto simp: disabled_group_def attr_deny_only split: if_splits)

lemma removed_privilege_simps [simp]:
  "prv_luid (removed_privilege l p) = prv_luid p"
  "prv_is_enabled (removed_privilege l p) \<longleftrightarrow> prv_luid p \<noteq> l \<and> prv_is_enabled p"
  by (auto simp: removed_privilege_def prv_is_enabled_def se_consts)

lemma weaker_disable_sid: "wf_token t \<Longrightarrow> weaker (disable_sid s t) t"
  by (auto simp: disable_sid_map weaker_defs image_iff dest: disabled_group_simps(3))

lemma weaker_delete_privilege: "wf_token t \<Longrightarrow> weaker (delete_privilege l t) t"
  by (auto simp: delete_privilege_map weaker_defs image_iff)

lemma weaker_add_restricted: "wf_token t \<Longrightarrow> weaker (add_restricted_sid s t) t"
proof -
  assume t: "wf_token t"
  have "deny_only \<lparr>grp_sid = s, grp_attributes = SE_GROUP_ENABLED OR SE_GROUP_USE_FOR_DENY_ONLY\<rparr>"
    by (simp add: deny_only_def se_consts)
  then show ?thesis
    unfolding add_restricted_sid_group weaker_defs token_groups_add [OF t]
    by (auto simp: add_group_def token_privileges_def)
qed

lemma wf_disable_sid [wf_intros]: "wf_token t \<Longrightarrow> wf_token (disable_sid s t)"
  by (simp add: disable_sid_map wf_map_groups)

lemma wf_delete_privilege [wf_intros]: "wf_token t \<Longrightarrow> wf_token (delete_privilege l t)"
  by (simp add: delete_privilege_map wf_map_privileges)

lemma wf_add_restricted [wf_intros]: "wf_token t \<Longrightarrow> wf_sid s \<Longrightarrow> wf_token (add_restricted_sid s t)"
  by (simp add: add_restricted_sid_group wf_add_group)

lemma fold_weaker:
  assumes "wf_token t" "\<And>x t. x \<in> set xs \<Longrightarrow> wf_token t \<Longrightarrow> wf_token (f x t) \<and> weaker (f x t) t"
  shows "wf_token (fold f xs t) \<and> weaker (fold f xs t) t"
  using assms
proof (induction xs arbitrary: t)
  case (Cons x xs)
  have "wf_token (f x t)" "weaker (f x t) t" using Cons.prems by simp_all
  moreover have "wf_token (fold f xs (f x t)) \<and> weaker (fold f xs (f x t)) (f x t)"
    using Cons.prems calculation(1) by (intro Cons.IH) simp_all
  ultimately show ?case using weaker_trans [of "fold f xs (f x t)" "f x t" t] by simp
qed simp

lemma filter_body_weaker:
  assumes "wf_token t" "\<forall>s \<in> set rsids. wf_sid s"
  shows "wf_token (filter_body sids luids rsids t)" "weaker (filter_body sids luids rsids t) t"
proof -
  define t1 where "t1 = fold disable_sid sids t"
  define t2 where "t2 = fold delete_privilege luids t1"
  define t3 where "t3 = fold add_restricted_sid rsids t2"
  have 1: "wf_token t1 \<and> weaker t1 t"
    unfolding t1_def using assms(1)
    by (intro fold_weaker conjI weaker_disable_sid wf_intros)
  have 2: "wf_token t2 \<and> weaker t2 t1"
    unfolding t2_def using 1
    by (intro fold_weaker conjI weaker_delete_privilege wf_intros) simp_all
  have 3: "wf_token t3 \<and> weaker t3 t2"
    unfolding t3_def using 2 assms(2)
    by (intro fold_weaker conjI weaker_add_restricted wf_intros) simp_all
  have "weaker t3 t"
    using 1 2 3 weaker_trans [of t3 t2 t1] weaker_trans [of t3 t1 t] by simp
  then show "weaker (filter_body sids luids rsids t) t"
    by (simp add: filter_body_def Let_def t1_def t2_def t3_def weaker_defs token_groups_def token_privileges_def)
  show "wf_token (filter_body sids luids rsids t)"
    using 3 by (simp add: filter_body_def Let_def t1_def t2_def t3_def wf_token_def)
qed

lemma enabled_luids_delete:
  assumes "wf_token t"
  shows "enabled_luids (delete_privilege l t) = enabled_luids t - {l}"
proof -
  have eq: "enabled_luids u = set (map prv_luid (filter prv_is_enabled (token_privileges u)))" for u
    by (simp add: enabled_luids_def)
  show ?thesis
    unfolding eq delete_privilege_map [OF assms] token_privileges_map [OF assms] filter_map map_map
    by (auto simp: comp_def)
qed

lemma filter_removes_privileges:
  assumes "wf_token t" "\<forall>s \<in> set rsids. wf_sid s" "l \<in> set luids"
  shows "\<not> has_privilege l (filter_body sids luids rsids t)"
proof -
  define t1 where "t1 = fold disable_sid sids t"
  have t1: "wf_token t1"
    unfolding t1_def using assms(1) fold_weaker [of t sids disable_sid] weaker_disable_sid wf_disable_sid
    by blast
  have gone: "wf_token (fold delete_privilege ls u) \<and> enabled_luids (fold delete_privilege ls u) \<subseteq> - set ls"
    if "wf_token u" for ls u
    using that
  proof (induction ls arbitrary: u rule: rev_induct)
    case (snoc x ls)
    then have "wf_token (fold delete_privilege ls u)"
      "enabled_luids (fold delete_privilege ls u) \<subseteq> - set ls" by blast+
    then show ?case by (auto simp: wf_delete_privilege enabled_luids_delete)
  qed simp
  have keep: "enabled_luids (fold add_restricted_sid rs u) = enabled_luids u" for rs u
  proof (induction rs arbitrary: u)
    case (Cons x rs)
    have "enabled_luids (add_restricted_sid x u) = enabled_luids u"
      by (simp add: add_restricted_sid_def enabled_luids_def token_privileges_def)
    with Cons show ?case by simp
  qed simp
  have "enabled_luids (filter_body sids luids rsids t) = enabled_luids (fold delete_privilege luids t1)"
    using keep by (simp add: filter_body_def Let_def t1_def enabled_luids_def token_privileges_def)
  then have "l \<notin> enabled_luids (filter_body sids luids rsids t)"
    using gone [OF t1, of luids] assms(3) by auto
  then show ?thesis
    using has_privilege_iff [OF filter_body_weaker(1) [OF assms(1,2)]]
    by (auto simp: enabled_luids_def)
qed

section \<open>Disabling every privilege\<close>

definition disabled_privilege :: "token_privilege \<Rightarrow> token_privilege" where
  "disabled_privilege p = p\<lparr>prv_attributes := prv_attributes p AND NOT SE_PRIVILEGE_ENABLED\<rparr>"

lemma fold_disable_all:
  assumes "n \<le> length (privileges t)"
  shows "fold disable_all_step [0..<n] (t, prev) =
    (t\<lparr>privileges := map disabled_privilege (take n (privileges t)) @ drop n (privileges t)\<rparr>,
     map_option (\<lambda>xs. xs @ take n (privileges t)) prev)"
  using assms
proof (induction n)
  case 0
  then show ?case by (cases prev) simp_all
next
  case (Suc n)
  then have n: "n < length (privileges t)" by simp
  note upd = take_drop_update [OF n, of disabled_privilege]
  have "fold disable_all_step [0..<Suc n] (t, prev) = disable_all_step n
     (t\<lparr>privileges := map disabled_privilege (take n (privileges t)) @ drop n (privileges t)\<rparr>,
      map_option (\<lambda>xs. xs @ take n (privileges t)) prev)"
    using Suc by simp
  also have "\<dots> = (t\<lparr>privileges := map disabled_privilege (take (Suc n) (privileges t)) @ drop (Suc n) (privileges t)\<rparr>,
     map_option (\<lambda>xs. xs @ take (Suc n) (privileges t)) prev)"
    using n upd by (simp add: disable_all_step_def Let_def disabled_privilege_def save_def
        option.map_comp comp_def take_Suc_conv_app_nth [OF n])
  finally show ?case .
qed

lemma disabled_privilege_off [simp]: "\<not> prv_is_enabled (disabled_privilege p)"
  by (simp add: disabled_privilege_def prv_is_enabled_def se_consts and.assoc)

lemma disable_all_spec:
  assumes "wf_token t"
  shows "se_adjust_privileges_token (Some t) True ns prev =
    (True, Some (map_privileges disabled_privilege t), map_option (\<lambda>xs. xs @ token_privileges t) prev)"
  using fold_disable_all [of "privilege_count t" t prev] wf_tokenD(6,7) [OF assms]
  by (simp add: se_adjust_privileges_token_def map_privileges_def token_privileges_def)

section \<open>Adjusting listed privileges\<close>

lemma wf_adjust_privilege:
  "wf_token t \<Longrightarrow> wf_token (fst (snd (adjust_privilege np (ok, t, prev))))"
  by (auto simp: adjust_privilege_def wf_token_def split: option.splits)

lemma wf_fold_adjust_privilege:
  "wf_token (fst (snd s)) \<Longrightarrow> wf_token (fst (snd (fold adjust_privilege ns s)))"
proof (induction ns arbitrary: s)
  case (Cons np ns)
  then show ?case using wf_adjust_privilege [of "fst (snd s)" np "fst s" "snd (snd s)"] by simp
qed simp

text \<open>A listed privilege is present afterwards, or the array was full and the call reports it.\<close>

definition held_luids :: "token \<Rightarrow> luid set" where
  "held_luids t = set (take (privilege_count t) (map prv_luid (privileges t)))"

lemma adjust_privilegeE:
  assumes "adjust_privilege np (ok, t, prev) = (ok', t', prev')"
  obtains (found) i where "i < privilege_count t" "prv_luid (privileges t ! i) = prv_luid np" "ok' = ok"
      "t' = t\<lparr>privileges := (privileges t)[i := (privileges t ! i)\<lparr>prv_attributes := prv_attributes np\<rparr>]\<rparr>"
      "prev' = save (privileges t ! i) prev"
    | (add) "\<forall>i < privilege_count t. prv_luid (privileges t ! i) \<noteq> prv_luid np"
      "privilege_count t < TOKEN_MAX_PRIVILEGES" "ok' = ok"
      "t' = add_privilege \<lparr>prv_luid = prv_luid np, prv_attributes = prv_attributes np\<rparr> t" "prev' = prev"
    | (full) "\<forall>i < privilege_count t. prv_luid (privileges t ! i) \<noteq> prv_luid np"
      "\<not> privilege_count t < TOKEN_MAX_PRIVILEGES" "\<not> ok'" "t' = t" "prev' = prev"
proof (cases "find_from (\<lambda>p. luid_equals (prv_luid p) (prv_luid np)) (privileges t) (privilege_count t)")
  case None
  then have n: "\<forall>i < privilege_count t. prv_luid (privileges t ! i) \<noteq> prv_luid np"
    by (simp add: find_from_None luid_equals_iff)
  show thesis
  proof (cases "privilege_count t < TOKEN_MAX_PRIVILEGES")
    case True
    with None n assms show thesis by (intro add) (simp_all add: adjust_privilege_def add_privilege_def)
  next
    case False
    with None n assms show thesis by (intro full) (simp_all add: adjust_privilege_def)
  qed
next
  case (Some i)
  with find_from_Some [OF Some] assms show thesis
    by (intro found [of i]) (simp_all add: adjust_privilege_def luid_equals_iff)
qed

lemma adjust_privilege_held:
  assumes "wf_token t" "adjust_privilege np (ok, t, prev) = (ok', t', prev')"
  shows "held_luids t \<subseteq> held_luids t'
    \<and> (prv_luid np \<in> held_luids t' \<and> ok' = ok \<or> \<not> ok' \<and> privilege_count t' = 16)"
  using assms(2)
proof (cases rule: adjust_privilegeE)
  case (found i)
  note len = wf_tokenD(6,7) [OF assms(1)]
  have "map prv_luid (privileges t') = map prv_luid (privileges t)"
    using found(1,4) len by (simp add: map_update list_update_same_conv)
  then have "held_luids t' = held_luids t" using found(4) by (simp add: held_luids_def)
  moreover have "prv_luid np \<in> held_luids t"
    using found(1,2) len unfolding held_luids_def in_set_conv_nth
    by (intro exI [of _ i]) simp
  ultimately show ?thesis using found(3) by simp
next
  case add
  then show ?thesis
    using wf_tokenD(6,7) [OF assms(1)]
    by (auto simp: held_luids_def add_privilege_def se_consts map_update take_Suc_conv_app_nth)
next
  case full
  then show ?thesis using wf_tokenD(7) [OF assms(1)] by (simp add: se_consts)
qed

lemma fold_adjust_privilege_held:
  assumes "wf_token t" "fold adjust_privilege ns (ok, t, prev) = (ok', t', prev')"
  shows "held_luids t \<subseteq> held_luids t' \<and> (ok' \<longrightarrow> ok \<and> prv_luid ` set ns \<subseteq> held_luids t')
    \<and> (\<not> ok' \<longrightarrow> \<not> ok \<or> privilege_count t' = 16)"
  using assms
proof (induction ns arbitrary: ok t prev)
  case (Cons np ns)
  obtain ok1 t1 prev1 where 1: "adjust_privilege np (ok, t, prev) = (ok1, t1, prev1)"
    by (metis prod_cases3)
  have wf1: "wf_token t1" using wf_adjust_privilege [OF Cons.prems(1), of np ok prev] 1 by simp
  have f: "fold adjust_privilege ns (ok1, t1, prev1) = (ok', t', prev')" using Cons.prems(2) 1 by simp
  have mono: "privilege_count t1 \<le> privilege_count t'"
    using wf1 f
  proof (induction ns arbitrary: ok1 t1 prev1)
    case (Cons x xs)
    obtain o2 t2 p2 where 2: "adjust_privilege x (ok1, t1, prev1) = (o2, t2, p2)" by (metis prod_cases3)
    then have "privilege_count t1 \<le> privilege_count t2"
      by (cases rule: adjust_privilegeE) (simp_all add: add_privilege_def)
    moreover have "privilege_count t2 \<le> privilege_count t'"
      using Cons.prems 2 wf_adjust_privilege [of t1 x ok1 prev1] by (intro Cons.IH) simp_all
    ultimately show ?case by simp
  qed simp
  have wf': "wf_token t'" using wf_fold_adjust_privilege [of "(ok1, t1, prev1)" ns] wf1 f by simp
  from Cons.IH [OF wf1 f] adjust_privilege_held [OF Cons.prems(1) 1] mono wf_tokenD(7) [OF wf']
  show ?case by auto
qed simp

section \<open>The saved previous state restores the privileges\<close>

definition set_attributes :: "token_privilege \<Rightarrow> token_privilege \<Rightarrow> token_privilege" where
  "set_attributes np p = (if prv_luid p = prv_luid np then p\<lparr>prv_attributes := prv_attributes np\<rparr> else p)"

lemma luid_set_attributes [simp]: "prv_luid (set_attributes np p) = prv_luid p"
  by (simp add: set_attributes_def)

lemma luid_fold_set_attributes [simp]: "prv_luid (fold set_attributes ns p) = prv_luid p"
  by (induction ns arbitrary: p) simp_all

lemma fold_set_attributes_other:
  "prv_luid p \<notin> prv_luid ` set ns \<Longrightarrow> fold set_attributes ns p = p"
  by (induction ns) (auto simp: set_attributes_def)

lemma fold_set_attributes_hit:
  "prv_luid p \<in> prv_luid ` set ns \<Longrightarrow> \<forall>e \<in> set ns. prv_luid e = prv_luid p \<longrightarrow> prv_attributes e = a \<Longrightarrow>
     fold set_attributes ns p = p\<lparr>prv_attributes := a\<rparr>"
proof (induction ns arbitrary: p)
  case (Cons n ns)
  show ?case
  proof (cases "prv_luid p \<in> prv_luid ` set ns")
    case True
    have "fold set_attributes ns (set_attributes n p) = (set_attributes n p)\<lparr>prv_attributes := a\<rparr>"
      using True Cons.prems(2) by (intro Cons.IH) simp_all
    moreover have "(set_attributes n p)\<lparr>prv_attributes := a\<rparr> = p\<lparr>prv_attributes := a\<rparr>"
      by (simp add: set_attributes_def)
    ultimately show ?thesis by simp
  next
    case False
    with Cons.prems have "prv_luid n = prv_luid p" "prv_attributes n = a" by auto
    moreover have "fold set_attributes ns (set_attributes n p) = set_attributes n p"
      using False by (intro fold_set_attributes_other) simp
    ultimately show ?thesis by (simp add: set_attributes_def [of n p])
  qed
qed simp

definition distinct_privileges :: "token \<Rightarrow> bool" where
  "distinct_privileges t \<longleftrightarrow> distinct (map prv_luid (token_privileges t))"

lemma distinct_privileges_eq:
  "distinct_privileges t \<Longrightarrow> e \<in> set (token_privileges t) \<Longrightarrow> p \<in> set (token_privileges t) \<Longrightarrow>
     prv_luid e = prv_luid p \<Longrightarrow> e = p"
  by (auto simp: distinct_privileges_def distinct_map dest: inj_onD)

lemma map_privileges_comp:
  "wf_token t \<Longrightarrow> map_privileges g (map_privileges f t) = map_privileges (g \<circ> f) t"
  using wf_tokenD(6,7) [of t] token_privileges_map [of t f]
  by (simp add: map_privileges_def [of g] token_privileges_def) (simp add: map_privileges_def token_privileges_def)

lemma map_privileges_id:
  "(\<And>p. p \<in> set (token_privileges t) \<Longrightarrow> f p = p) \<Longrightarrow> map_privileges f t = t"
  by (simp add: map_privileges_def map_idI) (simp add: token_privileges_def)

lemma distinct_map_privileges:
  "wf_token t \<Longrightarrow> (\<And>p. prv_luid (f p) = prv_luid p) \<Longrightarrow>
     distinct_privileges (map_privileges f t) \<longleftrightarrow> distinct_privileges t"
  by (simp add: distinct_privileges_def comp_def)

lemma held_luids_privileges:
  "held_luids t = prv_luid ` set (token_privileges t)"
  by (simp add: held_luids_def token_privileges_def take_map)

lemma adjust_privilege_found:
  assumes "wf_token t" "distinct_privileges t" "prv_luid np \<in> held_luids t"
  obtains e where "e \<in> set (token_privileges t)" "prv_luid e = prv_luid np"
    "adjust_privilege np (ok, t, prev) = (ok, map_privileges (set_attributes np) t, save e prev)"
proof -
  note len = wf_tokenD(6,7) [OF assms(1)]
  let ?n = "privilege_count t"
  have ex: "\<exists>i < ?n. prv_luid (privileges t ! i) = prv_luid np"
    using assms(3) len by (auto simp: held_luids_def in_set_conv_nth)
  obtain ok' t' prev' where res: "adjust_privilege np (ok, t, prev) = (ok', t', prev')"
    by (metis prod_cases3)
  then show thesis
  proof (cases rule: adjust_privilegeE)
    case (found i)
    have uniq: "j = i" if "j < ?n" "prv_luid (privileges t ! j) = prv_luid np" for j
      using nth_eq_iff_index_eq [OF assms(2) [unfolded distinct_privileges_def], of j i] that found(1,2) len
      by (simp add: token_privileges_def)
    let ?l = "(privileges t)[i := (privileges t ! i)\<lparr>prv_attributes := prv_attributes np\<rparr>]"
    let ?r = "map (set_attributes np) (take ?n (privileges t)) @ drop ?n (privileges t)"
    have "?l ! k = ?r ! k" if k: "k < 16" for k
    proof (cases "k < ?n")
      case True
      then have r: "?r ! k = set_attributes np (privileges t ! k)" using len by (simp add: nth_append)
      show ?thesis
      proof (cases "k = i")
        case True
        with r k len found(2) show ?thesis by (simp add: set_attributes_def)
      next
        case False
        with uniq [OF \<open>k < ?n\<close>] r show ?thesis by (auto simp: set_attributes_def)
      qed
    next
      case False
      with k len found(1) show ?thesis by (simp add: nth_append)
    qed
    then have "?l = ?r" using len by (intro nth_equalityI) simp_all
    then have "t' = map_privileges (set_attributes np) t"
      using found(4) by (simp add: map_privileges_def token_privileges_def)
    moreover have "privileges t ! i \<in> set (token_privileges t)"
      using found(1) len by (auto simp: token_privileges_def in_set_conv_nth intro!: exI [of _ i])
    ultimately show thesis using that [of "privileges t ! i"] found res by simp
  qed (use ex in blast)+
qed

lemma fold_adjust_found:
  assumes "wf_token t" "distinct_privileges t" "prv_luid ` set ns \<subseteq> held_luids t"
  shows "\<exists>es. fold adjust_privilege ns (ok, t, prev) =
      (ok, map_privileges (fold set_attributes ns) t, map_option (\<lambda>xs. xs @ es) prev)
    \<and> map prv_luid es = map prv_luid ns
    \<and> (distinct (map prv_luid ns) \<longrightarrow> set es \<subseteq> set (token_privileges t))"
  using assms
proof (induction ns arbitrary: t prev)
  case Nil
  have "map_privileges (\<lambda>p. p) t = t" by (rule map_privileges_id) simp
  then show ?case by (intro exI [of _ "[]"]) (simp add: option.map_ident id_def)
next
  case (Cons np ns)
  obtain e where e: "e \<in> set (token_privileges t)" "prv_luid e = prv_luid np"
    "adjust_privilege np (ok, t, prev) = (ok, map_privileges (set_attributes np) t, save e prev)"
    using Cons.prems by (auto intro: adjust_privilege_found)
  let ?t = "map_privileges (set_attributes np) t"
  have "wf_token ?t" "distinct_privileges ?t" "prv_luid ` set ns \<subseteq> held_luids ?t"
    using Cons.prems by (simp_all add: wf_map_privileges distinct_map_privileges held_luids_privileges image_image)
  from Cons.IH [OF this, of "save e prev"] obtain es where es:
    "fold adjust_privilege ns (ok, ?t, save e prev) =
      (ok, map_privileges (fold set_attributes ns) ?t, map_option (\<lambda>xs. xs @ es) (save e prev))"
    "map prv_luid es = map prv_luid ns"
    "distinct (map prv_luid ns) \<longrightarrow> set es \<subseteq> set (token_privileges ?t)" by blast
  have "set (e # es) \<subseteq> set (token_privileges t)" if d: "distinct (map prv_luid (np # ns))"
  proof -
    have "x \<in> set (token_privileges t)" if x: "x \<in> set es" for x
    proof -
      have "prv_luid x \<in> prv_luid ` set ns" using arg_cong [OF es(2), of set] x by auto
      then have "prv_luid x \<noteq> prv_luid np" using d by auto
      moreover obtain y where "y \<in> set (token_privileges t)" "x = set_attributes np y"
        using es(3) d x Cons.prems(1) by auto
      ultimately show ?thesis by (auto simp: set_attributes_def split: if_splits)
    qed
    with e(1) show ?thesis by auto
  qed
  then show ?case
    using e es Cons.prems(1)
    by (intro exI [of _ "e # es"]) (simp add: map_privileges_comp save_def option.map_comp comp_def)
qed

lemma adjust_restore:
  assumes "wf_token t" "distinct_privileges t" "prv_luid ` set ns \<subseteq> held_luids t"
    "distinct (map prv_luid ns)"
  obtains t' saved where
    "se_adjust_privileges_token (Some t) False ns (Some []) = (True, Some t', Some saved)"
    "se_adjust_privileges_token (Some t') False saved None = (True, Some t, None)"
proof -
  let ?t' = "map_privileges (fold set_attributes ns) t"
  obtain es where es: "fold adjust_privilege ns (True, t, Some []) = (True, ?t', Some es)"
    "map prv_luid es = map prv_luid ns" "set es \<subseteq> set (token_privileges t)"
    using fold_adjust_found [OF assms(1-3), of True "Some []"] assms(4) by auto
  have luids: "prv_luid ` set es = prv_luid ` set ns" using arg_cong [OF es(2), of set] by simp
  have "wf_token ?t'" "distinct_privileges ?t'" "prv_luid ` set es \<subseteq> held_luids ?t'"
    using assms luids
    by (simp_all add: wf_map_privileges distinct_map_privileges held_luids_privileges image_image)
  from fold_adjust_found [OF this, of True None]
  have undo: "fold adjust_privilege es (True, ?t', None)
      = (True, map_privileges (fold set_attributes es \<circ> fold set_attributes ns) t, None)"
    using assms(1) by (auto simp: map_privileges_comp)
  have "fold set_attributes es (fold set_attributes ns p) = p" if p: "p \<in> set (token_privileges t)" for p
  proof (cases "prv_luid p \<in> prv_luid ` set ns")
    case True
    have "e = p" if "e \<in> set es" "prv_luid e = prv_luid p" for e
      using that p es(3) distinct_privileges_eq [OF assms(2)] by blast
    then have "fold set_attributes es (fold set_attributes ns p)
        = (fold set_attributes ns p)\<lparr>prv_attributes := prv_attributes p\<rparr>"
      using True luids by (intro fold_set_attributes_hit) auto
    also have "\<dots> = p" by (intro token_privilege.equality) simp_all
    finally show ?thesis .
  next
    case False
    with luids show ?thesis by (simp add: fold_set_attributes_other)
  qed
  then have "map_privileges (fold set_attributes es \<circ> fold set_attributes ns) t = t"
    by (intro map_privileges_id) simp
  with es(1) undo show thesis by (intro that [of ?t' es]) (simp_all add: se_adjust_privileges_token_def)
qed

section \<open>Creation, duplication and group adjustment\<close>

lemma set_overwrite: "set (overwrite xs off ys) \<subseteq> set xs \<union> set ys"
  by (auto simp: overwrite_def dest: in_set_takeD in_set_dropD)

lemma se_create_token_Some:
  assumes "se_create_token usr grps prvs ty lv st = (Some t, st')"
    and "wf_sid usr" "\<forall>g \<in> set grps. wf_sid (grp_sid g)"
  shows "wf_token t" "token_groups t = grps" "token_privileges t = prvs" "user t = usr"
    "token_id t = luid_from_u64 (next_token_id st)" "next_token_id st' = next_token_id st + 1"
    "pool_live (se_pool st') = pool_live (se_pool st) + 1"
proof -
  obtain p1 where p1: "pool_allocate (se_pool st) = (True, p1)"
    and len: "length grps \<le> 16" "length prvs \<le> 16"
    and t: "t = token_new\<lparr>user := usr, token_type := ty, impersonation_level := lv, refcount := 1,
              groups := overwrite (groups token_new) 0 grps, group_count := length grps,
              privileges := overwrite (privileges token_new) 0 prvs, privilege_count := length prvs,
              primary_group := SID_USERS, token_id := luid_from_u64 (next_token_id st),
              authentication_id := luid_from_u64 (next_auth_id st)\<rparr>"
    and st': "st' = st\<lparr>se_pool := p1, next_token_id := next_token_id st + 1,
              next_auth_id := next_auth_id st + 1\<rparr>"
    using assms(1) by (auto simp: se_create_token_def se_consts split: if_splits prod.splits bool.splits)
  have new: "length (groups token_new) = 16" "length (privileges token_new) = 16"
    "\<forall>g \<in> set (groups token_new). wf_sid (grp_sid g)"
    by (simp_all add: token_new_def se_consts wf_sid_def)
  have "\<forall>g \<in> set (overwrite (groups token_new) 0 grps). wf_sid (grp_sid g)"
    using set_overwrite [of "groups token_new" 0 grps] new(3) assms(3) by blast
  then show "wf_token t"
    using len new assms(2) wf_well_known [of Users]
    by (simp add: t wf_token_def SID_USERS_def se_consts del: well_known.simps)
      (simp add: token_new_def)
  show "token_groups t = grps" "token_privileges t = prvs"
    by (simp_all add: t token_groups_def token_privileges_def overwrite_def)
  show "user t = usr" "token_id t = luid_from_u64 (next_token_id st)" by (simp_all add: t)
  show "next_token_id st' = next_token_id st + 1"
    "pool_live (se_pool st') = pool_live (se_pool st) + 1"
    using pool_live_allocate [OF p1] by (simp_all add: st')
qed

lemma se_create_token_None:
  assumes "se_create_token usr grps prvs ty lv st = (None, st')"
  shows "pool_live (se_pool st') = pool_live (se_pool st)" "next_token_id st' = next_token_id st"
  using assms by (auto simp: se_create_token_def dest: pool_live_allocate
      split: if_splits prod.splits bool.splits)

lemma se_duplicate_token_Some:
  assumes "se_duplicate_token (Some e) lv ty st = (Some t, st')"
  shows "t = e\<lparr>token_type := ty, impersonation_level := lv,
      token_id := luid_from_u64 (next_dup_token_id st), refcount := 1\<rparr>"
    "pool_live (se_pool st') = pool_live (se_pool st) + 1"
  using assms by (auto simp: se_duplicate_token_def pool_live_allocate split: prod.splits bool.splits)

lemma wf_duplicate: "wf_token e \<Longrightarrow> se_duplicate_token (Some e) lv ty st = (Some t, st') \<Longrightarrow> wf_token t"
  by (auto simp: wf_token_def dest!: se_duplicate_token_Some(1))

lemma weaker_duplicate:
  "se_duplicate_token (Some e) lv ty st = (Some t, st') \<Longrightarrow> weaker t e"
  by (auto simp: weaker_defs token_groups_def token_privileges_def dest!: se_duplicate_token_Some(1))

lemma se_filter_token_Some:
  assumes "se_filter_token (Some e) flags sids luids rsids st = (Some t, st')"
    "wf_token e" "\<forall>s \<in> set rsids. wf_sid s"
  shows "wf_token t" "weaker t e" "\<And>l. l \<in> set luids \<Longrightarrow> \<not> has_privilege l t"
proof -
  obtain d where d: "se_duplicate_token (Some e) (impersonation_level e) (token_type e) st = (Some d, st')"
    and t: "t = filter_body sids luids rsids d"
    using assms(1) by (auto simp: se_filter_token_def split: prod.splits option.splits)
  have wf: "wf_token d" by (rule wf_duplicate [OF assms(2) d])
  show "wf_token t" "\<And>l. l \<in> set luids \<Longrightarrow> \<not> has_privilege l t"
    using filter_body_weaker(1) [OF wf assms(3)] filter_removes_privileges [OF wf assms(3)]
    by (simp_all add: t)
  show "weaker t e"
    using weaker_trans [OF filter_body_weaker(2) [OF wf assms(3)] weaker_duplicate [OF d]] by (simp add: t)
qed

lemma wf_adjust_group:
  assumes "wf_token t" "wf_sid (grp_sid ng)"
  shows "wf_token (fst (snd (adjust_group ng (ok, t, prev))))"
proof (cases "find_from (\<lambda>g. sid_equals (grp_sid g) (grp_sid ng)) (groups t) (group_count t)")
  case None
  with assms wf_add_group [OF assms(1), of "\<lparr>grp_sid = grp_sid ng, grp_attributes = grp_attributes ng\<rparr>"]
  show ?thesis by (auto simp: adjust_group_def add_group_def split: if_splits)
next
  case (Some i)
  have "i < length (groups t)" using find_from_Some(1) [OF Some] wf_tokenD(3,4) [OF assms(1)] by simp
  then have "wf_sid (grp_sid (groups t ! i))" using wf_tokenD(5) [OF assms(1)] by simp
  then show ?thesis
    using Some assms(1) set_update_sub [of "groups t" "\<lambda>g. wf_sid (grp_sid g)"
        "(groups t ! i)\<lparr>grp_attributes := grp_attributes ng\<rparr>" i]
    by (simp add: adjust_group_def wf_token_def)
qed

lemma wf_fold_adjust_group:
  "wf_token (fst (snd s)) \<Longrightarrow> \<forall>g \<in> set ns. wf_sid (grp_sid g) \<Longrightarrow>
     wf_token (fst (snd (fold adjust_group ns s)))"
proof (induction ns arbitrary: s)
  case (Cons ng ns)
  then show ?case using wf_adjust_group [of "fst (snd s)" ng "fst s" "snd (snd s)"] by simp
qed simp

lemma wf_fold_reset_group:
  assumes "wf_token (fst s)" "n \<le> group_count (fst s)"
  shows "wf_token (fst (fold reset_group_step [0..<n] s)) \<and>
    group_count (fst (fold reset_group_step [0..<n] s)) = group_count (fst s)"
  using assms(2)
proof (induction n)
  case (Suc n)
  define t where "t = fst (fold reset_group_step [0..<n] s)"
  obtain prev where s: "fold reset_group_step [0..<n] s = (t, prev)"
    using t_def by (metis prod.collapse)
  have wf: "wf_token t" and gc: "group_count t = group_count (fst s)" using Suc t_def by simp_all
  have "n < length (groups t)" using Suc.prems gc wf_tokenD(3,4) [OF wf] by simp
  then have "wf_sid (grp_sid (groups t ! n))" using wf_tokenD(5) [OF wf] by simp
  then have "wf_token (t\<lparr>groups := (groups t)[n := (groups t ! n)\<lparr>grp_attributes := a\<rparr>]\<rparr>)" for a
    using wf set_update_sub [of "groups t" "\<lambda>g. wf_sid (grp_sid g)"
        "(groups t ! n)\<lparr>grp_attributes := a\<rparr>" n] by (simp add: wf_token_def)
  then have "wf_token (fst (reset_group_step n (t, prev)))
      \<and> group_count (fst (reset_group_step n (t, prev))) = group_count (fst s)"
    using gc by (simp add: reset_group_step_def Let_def)
  then show ?case by (simp add: s)
qed (use assms(1) in simp)

lemma wf_se_adjust_groups:
  assumes "wf_token t" "\<forall>g \<in> set ns. wf_sid (grp_sid g)"
    "se_adjust_groups_token (Some t) r ns prev = (ok, Some t', prev')"
  shows "wf_token t'"
  using assms wf_fold_adjust_group [of "(True, t, prev)" ns]
    wf_fold_reset_group [of "(t, prev)" "group_count t"]
  by (auto simp: se_adjust_groups_token_def split: if_splits prod.splits)

lemma wf_se_adjust_privileges:
  assumes "wf_token t" "se_adjust_privileges_token (Some t) d ns prev = (ok, Some t', prev')"
  shows "wf_token t'"
proof (cases d)
  case True
  with assms disable_all_spec [OF assms(1), of ns prev] wf_map_privileges [OF assms(1)]
  show ?thesis by auto
next
  case False
  with assms(2) wf_fold_adjust_privilege [of "(True, t, prev)" ns] assms(1)
  show ?thesis by (auto simp: se_adjust_privileges_token_def split: prod.splits)
qed

section \<open>A sample token and state\<close>

text \<open>The state after boot with a pool that answers the next allocations.\<close>

definition boot :: "bool list \<Rightarrow> se_state" where
  "boot script = initial_counters \<lparr>pool_script = script, pool_live = 0\<rparr>"

definition sample_token :: token where
  "sample_token = add_privilege \<lparr>prv_luid = privilege_luid SE_DEBUG_PRIVILEGE, prv_attributes = SE_PRIVILEGE_ENABLED\<rparr>
     (add_group \<lparr>grp_sid = well_known Administrators, grp_attributes = SE_GROUP_ENABLED\<rparr>
       (new_primary (well_known LocalSystem)))"

lemma wf_sample_token: "wf_token sample_token"
  unfolding sample_token_def
  by (intro wf_add_privilege wf_add_group wf_new_primary) (simp_all add: wf_well_known del: well_known.simps)

lemma token_privileges_sample:
  "token_privileges sample_token = [\<lparr>prv_luid = privilege_luid SE_DEBUG_PRIVILEGE, prv_attributes = SE_PRIVILEGE_ENABLED\<rparr>]"
  by (simp add: sample_token_def token_privileges_add token_adding wf_add_group wf_new_primary wf_well_known se_consts
      del: well_known.simps)

section \<open>Properties\<close>

text \<open>
  C29: A created token keeps the token invariant, holds exactly the groups and privileges
  it was given, takes the next identifier and one pool block; a refused creation takes
  neither.
\<close>

theorem create_token_exact:
  assumes "wf_sid usr" "\<forall>g \<in> set grps. wf_sid (grp_sid g)"
  shows "case se_create_token usr grps prvs ty lv st of
      (Some t, st') \<Rightarrow> wf_token t \<and> user t = usr \<and> token_groups t = grps \<and> token_privileges t = prvs
        \<and> token_id t = luid_from_u64 (next_token_id st) \<and> next_token_id st' = next_token_id st + 1
        \<and> pool_live (se_pool st') = pool_live (se_pool st) + 1
    | (None, st') \<Rightarrow> next_token_id st' = next_token_id st \<and> pool_live (se_pool st') = pool_live (se_pool st)"
proof (cases "se_create_token usr grps prvs ty lv st")
  case (Pair r st')
  show ?thesis
  proof (cases r)
    case None
    with Pair se_create_token_None [of usr grps prvs ty lv st st'] show ?thesis by simp
  next
    case (Some t)
    with Pair se_create_token_Some [of usr grps prvs ty lv st t st'] assms show ?thesis by simp
  qed
qed

theorem create_token_exact_witness:
  "case se_create_token (well_known LocalSystem) [] [] TokenPrimary SecurityImpersonation (boot [True]) of
      (Some t, st') \<Rightarrow> wf_token t \<and> user t = well_known LocalSystem \<and> token_groups t = [] \<and> token_privileges t = []
        \<and> token_id t = luid_from_u64 (next_token_id (boot [True])) \<and> next_token_id st' = next_token_id (boot [True]) + 1
        \<and> pool_live (se_pool st') = pool_live (se_pool (boot [True])) + 1
    | (None, st') \<Rightarrow> next_token_id st' = next_token_id (boot [True])
        \<and> pool_live (se_pool st') = pool_live (se_pool (boot [True]))"
  by (rule create_token_exact) (rule wf_well_known, simp)

text \<open>
  A filtered token is well formed, is weaker than the token it was made from (the
  same user and level, no new identifier that can grant, every identifier that can
  deny, no new enabled privilege) and holds none of the privileges to delete.
\<close>

theorem filter_token_weakens:
  assumes "wf_token e" "\<forall>s \<in> set restricted. wf_sid s"
    "se_filter_token (Some e) flags disabled deleted restricted st = (Some t, st')"
  shows "wf_token t \<and> weaker t e \<and> (\<forall>l \<in> set deleted. \<not> has_privilege l t)"
  using se_filter_token_Some [OF assms(3,1,2)] by blast

theorem filter_token_weakens_witness:
  "\<exists>t st'. se_filter_token (Some sample_token) 0 [well_known Administrators] [privilege_luid SE_DEBUG_PRIVILEGE] []
       (boot [True]) = (Some t, st')
     \<and> weaker t sample_token \<and> \<not> has_privilege (privilege_luid SE_DEBUG_PRIVILEGE) t"
proof -
  obtain t st' where t: "se_filter_token (Some sample_token) 0 [well_known Administrators]
      [privilege_luid SE_DEBUG_PRIVILEGE] [] (boot [True]) = (Some t, st')"
    by (simp add: se_filter_token_def se_duplicate_token_def boot_def initial_counters_def pool_allocate_def)
  from filter_token_weakens [OF wf_sample_token _ t] t show ?thesis by auto
qed

text \<open>
  Adjusting privileges that the token holds, saving the previous state, and then
  adjusting with the saved state gives back the original token.
\<close>

theorem adjust_privileges_restores:
  assumes "wf_token t" "distinct_privileges t" "prv_luid ` set ns \<subseteq> held_luids t"
    "distinct (map prv_luid ns)"
  shows "\<exists>t' saved. se_adjust_privileges_token (Some t) False ns (Some []) = (True, Some t', Some saved)
    \<and> se_adjust_privileges_token (Some t') False saved None = (True, Some t, None)"
  using adjust_restore [OF assms] by blast

theorem adjust_privileges_restores_witness:
  "\<exists>t' saved. se_adjust_privileges_token (Some sample_token) False
       [\<lparr>prv_luid = privilege_luid SE_DEBUG_PRIVILEGE, prv_attributes = 0\<rparr>] (Some []) = (True, Some t', Some saved)
    \<and> se_adjust_privileges_token (Some t') False saved None = (True, Some sample_token, None)"
  by (rule adjust_privileges_restores)
    (simp_all add: wf_sample_token distinct_privileges_def held_luids_privileges token_privileges_sample)

text \<open>
  An adjustment never forgets a privilege; it reports success exactly when all the
  listed privileges are present afterwards, and failure only with a full array.
\<close>

theorem adjust_privileges_reports:
  assumes "wf_token t" "se_adjust_privileges_token (Some t) False ns prev = (ok, Some t', prev')"
  shows "held_luids t \<subseteq> held_luids t' \<and> (ok \<longrightarrow> prv_luid ` set ns \<subseteq> held_luids t')
    \<and> (\<not> ok \<longrightarrow> privilege_count t' = TOKEN_MAX_PRIVILEGES)"
proof -
  have "fold adjust_privilege ns (True, t, prev) = (ok, t', prev')"
    using assms(2) by (auto simp: se_adjust_privileges_token_def split: prod.splits)
  from fold_adjust_privilege_held [OF assms(1) this] show ?thesis by (simp add: se_consts)
qed

theorem adjust_privileges_reports_witness:
  "\<exists>ok t'. se_adjust_privileges_token (Some token_new) False
       [\<lparr>prv_luid = privilege_luid SE_TCB_PRIVILEGE, prv_attributes = 2\<rparr>] None = (ok, Some t', None)
     \<and> (ok \<longrightarrow> privilege_luid SE_TCB_PRIVILEGE \<in> held_luids t')"
proof -
  obtain ok t' where t: "se_adjust_privileges_token (Some token_new) False
       [\<lparr>prv_luid = privilege_luid SE_TCB_PRIVILEGE, prv_attributes = 2\<rparr>] None = (ok, Some t', None)"
    by (simp add: se_adjust_privileges_token_def adjust_privilege_def find_from_def token_new_def se_consts)
  from adjust_privileges_reports [OF wf_token_new t] t show ?thesis by auto
qed

text \<open>
  The counter of created tokens and the counter of duplicated tokens both start at
  1000, so the first token that is created and the first that is duplicated carry the
  same token identifier.
\<close>

theorem created_and_duplicated_ids_collide:
  "\<exists>t d st1 st2. se_create_token (well_known LocalSystem) [] [] TokenPrimary SecurityImpersonation (boot [True, True])
      = (Some t, st1)
    \<and> se_duplicate_token (Some t) SecurityImpersonation TokenPrimary st1 = (Some d, st2)
    \<and> luid_equals (token_id d) (token_id t)"
  by (simp add: se_create_token_def se_duplicate_token_def boot_def initial_counters_def pool_allocate_def
      luid_equals_def se_consts)

end
