(* ===== verification/Integrity.thy ===== *)
theory Integrity
  imports Sec_Desc Token_Mgmt
begin

text \<open>
  Mandatory integrity control, \<open>src/nt61/src/se/integrity.rs\<close>: the integrity level of a
  token and of an object (a mandatory label entry of the object's system list), the
  no-write-up check, and the low-integrity token.  Lemmas: a level written to an
  object is the level read back, reading scans the entries in order, the check
  refuses exactly the write requests from below, lowering is strict, and a
  low-integrity token holds no privilege.
\<close>

definition SECURITY_MANDATORY_UNTRUSTED_RID :: u32 where [se_consts]: "SECURITY_MANDATORY_UNTRUSTED_RID = 0x0000"
definition SECURITY_MANDATORY_LOW_RID :: u32 where [se_consts]: "SECURITY_MANDATORY_LOW_RID = 0x1000"
definition SECURITY_MANDATORY_MEDIUM_RID :: u32 where [se_consts]: "SECURITY_MANDATORY_MEDIUM_RID = 0x2000"
definition SECURITY_MANDATORY_MEDIUM_PLUS_RID :: u32 where [se_consts]: "SECURITY_MANDATORY_MEDIUM_PLUS_RID = 0x2100"
definition SECURITY_MANDATORY_HIGH_RID :: u32 where [se_consts]: "SECURITY_MANDATORY_HIGH_RID = 0x3000"
definition SECURITY_MANDATORY_SYSTEM_RID :: u32 where [se_consts]: "SECURITY_MANDATORY_SYSTEM_RID = 0x4000"
definition SECURITY_MANDATORY_PROTECTED_PROCESS_RID :: u32 where
  [se_consts]: "SECURITY_MANDATORY_PROTECTED_PROCESS_RID = 0x5000"
definition SYSTEM_MANDATORY_LABEL_NO_WRITE_UP :: u32 where
  [se_consts]: "SYSTEM_MANDATORY_LABEL_NO_WRITE_UP = 0x1"

definition create_integrity_level_sid :: "u32 \<Rightarrow> sid" where
  "create_integrity_level_sid level_rid =
     with_authority_and_subs_arr [0, 0, 0, 0, 0, 16] 1 level_rid 0 0 0 0 0 0 0"

definition se_token_integrity_level :: "token option \<Rightarrow> u32" where
  "se_token_integrity_level tok0 = (case tok0 of None \<Rightarrow> SECURITY_MANDATORY_MEDIUM_RID
     | Some t \<Rightarrow> integrity_level_rid t)"

definition label_attributes :: u32 where
  "label_attributes = SE_GROUP_INTEGRITY OR SE_GROUP_INTEGRITY_ENABLED OR SE_GROUP_ENABLED"

definition se_set_token_integrity_level :: "token option \<Rightarrow> u32 \<Rightarrow> bool \<times> token option" where
  "se_set_token_integrity_level tok0 level_rid = (case tok0 of None \<Rightarrow> (False, None)
     | Some t0 \<Rightarrow>
         let t = t0\<lparr>integrity_level_rid := level_rid\<rparr>;
             integrity_sid = create_integrity_level_sid level_rid;
             g = \<lparr>grp_sid = integrity_sid, grp_attributes = label_attributes\<rparr>
         in (True, Some (case find_from (\<lambda>g. identifier_authority_u64 (grp_sid g) = 16)
                            (groups t) (group_count t) of
               Some i \<Rightarrow> t\<lparr>groups := (groups t)[i := g]\<rparr>
             | None \<Rightarrow> add_group g t)))"

definition WRITE_ACCESS_MASK :: u32 where
  [se_consts]: "WRITE_ACCESS_MASK = 0x00000002 OR 0x00000004 OR 0x00000010 OR 0x00000100 OR 0x00010000
     OR ACCESS_GENERIC_WRITE OR ACCESS_WRITE_DAC OR ACCESS_WRITE_OWNER"

definition se_check_mandatory_integrity :: "token option \<Rightarrow> u32 \<Rightarrow> u32 \<Rightarrow> bool" where
  "se_check_mandatory_integrity subject object_integrity desired_access = (case subject of
     None \<Rightarrow> False
   | Some _ \<Rightarrow>
       let subject_level = se_token_integrity_level subject in
       if desired_access AND WRITE_ACCESS_MASK \<noteq> 0 \<and> subject_level < object_integrity then False
       else True)"

text \<open>\<open>None\<close> is the end of the loop without a label; the caller then returns the default.\<close>

fun object_level_loop :: "u8 list \<Rightarrow> nat \<Rightarrow> nat \<Rightarrow> nat \<Rightarrow> u32 option" where
  "object_level_loop d limit 0 offset = None"
| "object_level_loop d limit (Suc n) offset =
     (if limit < offset + 4 then None
      else let ace_size = ace_size_or d offset in
        if ace_size < 16 \<or> limit < offset + ace_size then None
        else if d ! offset = 0x11 then
          (case sid_from_bytes (slice_of d (offset + 8) (offset + ace_size)) of
             Some s \<Rightarrow> if identifier_authority_u64 s = 16 \<and> 1 \<le> sub_authority_count s
                       then Some (sub_authority s ! 0)
                       else object_level_loop d limit n (offset + ace_size)
           | None \<Rightarrow> object_level_loop d limit n (offset + ace_size))
        else object_level_loop d limit n (offset + ace_size))"

definition se_get_object_integrity_level :: "sec_desc option \<Rightarrow> u32" where
  "se_get_object_integrity_level sd0 = (case sd0 of None \<Rightarrow> SECURITY_MANDATORY_MEDIUM_RID
     | Some sd \<Rightarrow> (case sd_sacl sd of None \<Rightarrow> SECURITY_MANDATORY_MEDIUM_RID
       | Some sacl \<Rightarrow> (case used_size sacl of None \<Rightarrow> SECURITY_MANDATORY_MEDIUM_RID
         | Some limit \<Rightarrow>
             (case object_level_loop (acl_data sacl) limit (unat (ace_count sacl)) 8 of
                None \<Rightarrow> SECURITY_MANDATORY_MEDIUM_RID | Some l \<Rightarrow> l))))"

definition se_set_object_integrity_level ::
  "sec_desc option \<Rightarrow> u32 \<Rightarrow> u32 \<Rightarrow> pool \<Rightarrow> bool \<times> sec_desc option \<times> pool" where
  "se_set_object_integrity_level sd0 level_rid policy p = (case sd0 of None \<Rightarrow> (False, None, p)
     | Some sd \<Rightarrow>
         let label_sid = with_subs [0, 0, 0, 0, 0, 16] level_rid 0 0 0 0 0 0 0
         in (case add_ace SystemMandatoryLabel ACE_NONE policy label_sid acl_new of
               (False, _) \<Rightarrow> (False, Some sd, p)
             | (True, sacl) \<Rightarrow> (case pool_allocate p of
                 (False, p1) \<Rightarrow> (False, Some sd, p1)
               | (True, p1) \<Rightarrow> (True, Some (sd\<lparr>sd_sacl := Some sacl,
                     sd_control := sd_control sd OR SE_SACL_PRESENT\<rparr>), p1))))"

datatype integrity_comparison = Lower | Equal | Higher

definition compare_integrity_levels :: "u32 \<Rightarrow> u32 \<Rightarrow> integrity_comparison" where
  "compare_integrity_levels level1 level2 =
     (if level1 < level2 then Lower else if level2 < level1 then Higher else Equal)"

definition integrity_level_name :: "u32 \<Rightarrow> string" where
  "integrity_level_name level_rid =
     (if level_rid = SECURITY_MANDATORY_UNTRUSTED_RID then ''Untrusted''
      else if level_rid = SECURITY_MANDATORY_LOW_RID then ''Low''
      else if level_rid = SECURITY_MANDATORY_MEDIUM_RID then ''Medium''
      else if level_rid = SECURITY_MANDATORY_MEDIUM_PLUS_RID then ''Medium Plus''
      else if level_rid = SECURITY_MANDATORY_HIGH_RID then ''High''
      else if level_rid = SECURITY_MANDATORY_SYSTEM_RID then ''System''
      else if level_rid = SECURITY_MANDATORY_PROTECTED_PROCESS_RID then ''Protected Process''
      else ''Unknown'')"

definition se_token_is_low_integrity :: "token option \<Rightarrow> bool" where
  "se_token_is_low_integrity tok0 \<longleftrightarrow> se_token_integrity_level tok0 \<le> SECURITY_MANDATORY_LOW_RID"

definition se_token_is_elevated :: "token option \<Rightarrow> bool" where
  "se_token_is_elevated tok0 \<longleftrightarrow> SECURITY_MANDATORY_HIGH_RID \<le> se_token_integrity_level tok0"

definition se_lower_token_integrity :: "token option \<Rightarrow> u32 \<Rightarrow> bool \<times> token option" where
  "se_lower_token_integrity tok0 new_level =
     (let current_level = se_token_integrity_level tok0 in
      if current_level \<le> new_level then (False, tok0)
      else se_set_token_integrity_level tok0 new_level)"

definition se_create_low_integrity_token :: "token option \<Rightarrow> se_state \<Rightarrow> token option \<times> se_state" where
  "se_create_low_integrity_token existing st = (case existing of None \<Rightarrow> (None, st)
     | Some e \<Rightarrow> (case se_duplicate_token existing (impersonation_level e) (token_type e) st of
         (None, st1) \<Rightarrow> (None, st1)
       | (Some t, st1) \<Rightarrow>
           (case se_set_token_integrity_level (Some t) SECURITY_MANDATORY_LOW_RID of
              (_, None) \<Rightarrow> (None, st1)
            | (_, Some t') \<Rightarrow> (Some (t'\<lparr>privilege_count := 0\<rparr>), st1))))"

definition se_integrity_access_check :: "token option \<Rightarrow> sec_desc option \<Rightarrow> u32 \<Rightarrow> bool" where
  "se_integrity_access_check subject object_sd desired_access =
     se_check_mandatory_integrity subject (se_get_object_integrity_level object_sd) desired_access"

section \<open>Reading the level of an object\<close>

text \<open>The label that one entry carries, and the first label of a list of entries.\<close>

definition label_of :: "u8 list \<Rightarrow> u32 option" where
  "label_of r = (if r ! 0 = 0x11 then (case sid_from_bytes (drop 8 r) of None \<Rightarrow> None
     | Some s \<Rightarrow> if identifier_authority_u64 s = 16 \<and> 1 \<le> sub_authority_count s
                then Some (sub_authority s ! 0) else None) else None)"

fun first_label :: "u8 list list \<Rightarrow> u32 option" where
  "first_label [] = None"
| "first_label (r # rs) = (if length r < 16 then None
     else case label_of r of Some l \<Rightarrow> Some l | None \<Rightarrow> first_label rs)"

lemma object_level_loop_walk:
  "at_entries a off rs \<Longrightarrow>
     object_level_loop (acl_data a) (unat (acl_size a)) (length rs) off = first_label rs"
proof (induction rs arbitrary: off)
  case (Cons r rs)
  note st = at_entries_Cons [OF Cons.prems]
  have "off + 4 \<le> unat (acl_size a)" using st(8) by simp
  with st(2,4-6) Cons.IH [OF st(7)] show ?case
    by (auto simp: Let_def label_of_def split: option.splits)
qed simp

lemma se_get_object_integrity_level_rep:
  assumes "sd_sacl sd = Some a" "acl_rep a rs"
  shows "se_get_object_integrity_level (Some sd) =
    (case first_label rs of None \<Rightarrow> SECURITY_MANDATORY_MEDIUM_RID | Some l \<Rightarrow> l)"
  using assms object_level_loop_walk [OF at_entries_start [OF assms(2)]] acl_repD(4) [OF assms(2)]
  by (simp add: se_get_object_integrity_level_def used_size_rep)

definition label_sid :: "u32 \<Rightarrow> sid" where
  "label_sid l = with_subs [0, 0, 0, 0, 0, 16] l 0 0 0 0 0 0 0"

lemma label_sid_facts [simp]:
  "storable_sid (label_sid l)" "wf_sid (label_sid l)" "sid_is_valid (label_sid l)" "sid_size (label_sid l) = 12"
  "identifier_authority_u64 (label_sid l) = 16" "sub_authority_count (label_sid l) = 1"
  "sub_authority (label_sid l) ! 0 = l" "canon (label_sid l) = label_sid l"
proof -
  have sc: "subauthority_count (label_sid l) = 1"
    by (simp add: subauthority_count_def label_sid_def with_subs_def se_consts)
  show "storable_sid (label_sid l)" "wf_sid (label_sid l)" "sid_is_valid (label_sid l)"
    by (simp_all add: label_sid_def with_subs_def storable_sid_def wf_sid_def sid_is_valid_def se_consts)
  show "sid_size (label_sid l) = 12" by (simp add: sid_size_def sc)
  show "canon (label_sid l) = label_sid l"
    unfolding canon_def sc by (simp add: label_sid_def with_subs_def numeral_eq_Suc)
qed (simp_all add: label_sid_def with_subs_def identifier_authority_u64_def)

lemma label_of_encode: "label_of (encode_ace SystemMandatoryLabel f m (label_sid l)) = Some l"
  using raw_encode_ace(2,3) [of "label_sid l" SystemMandatoryLabel f m] by (simp add: label_of_def)

lemma add_label_new:
  obtains a where "add_ace SystemMandatoryLabel ACE_NONE policy (label_sid l) acl_new = (True, a)"
    "acl_rep a [encode_ace SystemMandatoryLabel ACE_NONE policy (label_sid l)]"
proof -
  have "ace_room (label_sid l) acl_new" by (simp add: ace_room_def acl_new_def)
  then show thesis
    using add_ace_rep(1) [OF acl_rep_new label_sid_facts(2), of l SystemMandatoryLabel ACE_NONE policy] that
    by (metis append_Nil prod.collapse)
qed

lemma se_set_object_integrity_level_cases:
  obtains a where "acl_rep a [encode_ace SystemMandatoryLabel ACE_NONE policy (label_sid l)]"
    "se_set_object_integrity_level (Some sd) l policy p = (case pool_allocate p of
       (False, p1) \<Rightarrow> (False, Some sd, p1)
     | (True, p1) \<Rightarrow> (True, Some (sd\<lparr>sd_sacl := Some a, sd_control := sd_control sd OR SE_SACL_PRESENT\<rparr>), p1))"
proof -
  obtain a where "add_ace SystemMandatoryLabel ACE_NONE policy (label_sid l) acl_new = (True, a)"
    and "acl_rep a [encode_ace SystemMandatoryLabel ACE_NONE policy (label_sid l)]"
    by (rule add_label_new)
  then show thesis
    using that by (simp add: se_set_object_integrity_level_def label_sid_def Let_def)
qed

lemma object_level_round_trip:
  assumes "se_set_object_integrity_level (Some sd) l policy p = (True, Some sd', p')"
  shows "se_get_object_integrity_level (Some sd') = l" "sd_dacl sd' = sd_dacl sd"
    "sd_control sd' = sd_control sd OR SE_SACL_PRESENT" "pool_live p' = pool_live p + 1"
proof -
  obtain a where a: "acl_rep a [encode_ace SystemMandatoryLabel ACE_NONE policy (label_sid l)]"
    "se_set_object_integrity_level (Some sd) l policy p = (case pool_allocate p of
       (False, p1) \<Rightarrow> (False, Some sd, p1)
     | (True, p1) \<Rightarrow> (True, Some (sd\<lparr>sd_sacl := Some a, sd_control := sd_control sd OR SE_SACL_PRESENT\<rparr>), p1))"
    by (rule se_set_object_integrity_level_cases)
  then have sd': "sd' = sd\<lparr>sd_sacl := Some a, sd_control := sd_control sd OR SE_SACL_PRESENT\<rparr>"
    and p': "pool_allocate p = (True, p')"
    using assms by (auto split: prod.splits bool.splits)
  show "se_get_object_integrity_level (Some sd') = l"
    using se_get_object_integrity_level_rep [of sd' a, OF _ a(1)]
    by (simp add: sd' label_of_encode length_encode_ace)
  show "sd_dacl sd' = sd_dacl sd" "sd_control sd' = sd_control sd OR SE_SACL_PRESENT"
    by (simp_all add: sd')
  show "pool_live p' = pool_live p + 1" using pool_live_allocate [OF p'] by simp
qed

section \<open>Token levels\<close>

lemma wf_create_integrity_level_sid [wf_intros]: "wf_sid (create_integrity_level_sid l)"
  by (simp add: create_integrity_level_sid_def wf_with_authority_and_subs_arr)

lemma set_token_level:
  assumes "wf_token t"
  obtains t' where "se_set_token_integrity_level (Some t) l = (True, Some t')" "wf_token t'"
    "integrity_level_rid t' = l" "user t' = user t" "privileges t' = privileges t"
    "privilege_count t' = privilege_count t"
proof -
  let ?g = "\<lparr>grp_sid = create_integrity_level_sid l, grp_attributes = label_attributes\<rparr>"
  let ?t = "t\<lparr>integrity_level_rid := l\<rparr>"
  have wf: "wf_token ?t" using assms by (simp add: wf_token_def)
  show thesis
  proof (cases "find_from (\<lambda>g. identifier_authority_u64 (grp_sid g) = 16) (groups t) (group_count t)")
    case None
    show thesis
    proof (rule that [of "add_group ?g ?t"])
      show "se_set_token_integrity_level (Some t) l = (True, Some (add_group ?g ?t))"
        using None by (simp add: se_set_token_integrity_level_def Let_def)
      show "wf_token (add_group ?g ?t)" using wf by (intro wf_intros) (simp_all add: wf_intros)
    qed (simp_all add: add_group_def)
  next
    case (Some i)
    have "wf_token (?t\<lparr>groups := (groups ?t)[i := ?g]\<rparr>)"
      using wf set_update_sub [of "groups t" "\<lambda>g. wf_sid (grp_sid g)" ?g i]
      by (simp add: wf_token_def wf_create_integrity_level_sid)
    with Some show thesis
      by (intro that [of "?t\<lparr>groups := (groups ?t)[i := ?g]\<rparr>"])
        (simp_all add: se_set_token_integrity_level_def Let_def)
  qed
qed

lemma low_integrity_token:
  assumes "wf_token e" "se_create_low_integrity_token (Some e) st = (Some t, st')"
  shows "wf_token t" "integrity_level_rid t = SECURITY_MANDATORY_LOW_RID" "\<not> has_privilege l t"
    "user t = user e"
proof -
  obtain d where d: "se_duplicate_token (Some e) (impersonation_level e) (token_type e) st = (Some d, st')"
    and t: "(case se_set_token_integrity_level (Some d) SECURITY_MANDATORY_LOW_RID of
        (_, None) \<Rightarrow> (None, st') | (_, Some t') \<Rightarrow> (Some (t'\<lparr>privilege_count := 0\<rparr>), st')) = (Some t, st')"
    using assms(2) by (auto simp: se_create_low_integrity_token_def split: prod.splits option.splits)
  obtain t' where t': "se_set_token_integrity_level (Some d) SECURITY_MANDATORY_LOW_RID = (True, Some t')"
    "wf_token t'" "integrity_level_rid t' = SECURITY_MANDATORY_LOW_RID" "user t' = user d"
    by (rule set_token_level [OF wf_duplicate [OF assms(1) d]])
  have eq: "t = t'\<lparr>privilege_count := 0\<rparr>" using t t'(1) by simp
  show "wf_token t" "integrity_level_rid t = SECURITY_MANDATORY_LOW_RID" "\<not> has_privilege l t"
    using t'(2,3) by (simp_all add: eq wf_token_def has_privilege_def)
  show "user t = user e" using t'(4) se_duplicate_token_Some(1) [OF d] by (simp add: eq)
qed

section \<open>Properties\<close>

text \<open>
  The integrity level written to an object is the level read back, and writing it
  leaves the discretionary list alone.
\<close>

theorem object_level_set_get:
  assumes "se_set_object_integrity_level (Some sd) l policy p = (True, Some sd', p')"
  shows "se_get_object_integrity_level (Some sd') = l \<and> sd_dacl sd' = sd_dacl sd
    \<and> pool_live p' = pool_live p + 1"
  using object_level_round_trip [OF assms] by simp

theorem object_level_set_get_witness:
  "\<exists>sd' p'. se_set_object_integrity_level (Some zeroed_sec_desc) 0x3000 1 \<lparr>pool_script = [True], pool_live = 0\<rparr>
       = (True, Some sd', p')
     \<and> se_get_object_integrity_level (Some sd') = 0x3000"
proof -
  obtain a where "se_set_object_integrity_level (Some zeroed_sec_desc) 0x3000 1 \<lparr>pool_script = [True], pool_live = 0\<rparr> =
     (case pool_allocate \<lparr>pool_script = [True], pool_live = 0\<rparr> of
       (False, p1) \<Rightarrow> (False, Some zeroed_sec_desc, p1)
     | (True, p1) \<Rightarrow> (True, Some (zeroed_sec_desc\<lparr>sd_sacl := Some a,
         sd_control := sd_control zeroed_sec_desc OR SE_SACL_PRESENT\<rparr>), p1))"
    by (rule se_set_object_integrity_level_cases)
  then obtain sd' p' where s: "se_set_object_integrity_level (Some zeroed_sec_desc) 0x3000 1
      \<lparr>pool_script = [True], pool_live = 0\<rparr> = (True, Some sd', p')"
    by (simp add: pool_allocate_def)
  from object_level_set_get [OF s] s show ?thesis by blast
qed

text \<open>
  A low-integrity copy of a token keeps the user, has the low level and holds no
  privilege at all.
\<close>

theorem low_integrity_token_powerless:
  assumes "wf_token e" "se_create_low_integrity_token (Some e) st = (Some t, st')"
  shows "wf_token t \<and> user t = user e \<and> se_token_is_low_integrity (Some t) \<and> (\<forall>l. \<not> has_privilege l t)"
  using low_integrity_token [OF assms]
  by (simp add: se_token_is_low_integrity_def se_token_integrity_level_def)

theorem low_integrity_token_powerless_witness:
  "\<exists>t st'. se_create_low_integrity_token (Some token_new)
       (initial_counters \<lparr>pool_script = [True], pool_live = 0\<rparr>) = (Some t, st') \<and> (\<forall>l. \<not> has_privilege l t)"
proof -
  obtain t st' where t: "se_create_low_integrity_token (Some token_new)
      (initial_counters \<lparr>pool_script = [True], pool_live = 0\<rparr>) = (Some t, st')"
    by (simp add: se_create_low_integrity_token_def se_duplicate_token_def initial_counters_def pool_allocate_def
        se_set_token_integrity_level_def Let_def)
  from low_integrity_token_powerless [OF wf_token_new t] t show ?thesis by blast
qed

end
