(* ===== verification/Se_Access.thy ===== *)
theory Se_Access
  imports Integrity
begin

text \<open>
  The access check, \<open>src/nt61/src/se/seaccess.rs\<close>: generic mappings, the match of an
  identifier against a token, the walk over the discretionary list with privilege
  overrides, the default descriptor built from a token, and \<open>se_access_check\<close> itself.
  The abstract decision is stated on the list of entries that the array represents:
  the bits granted by the allow entries of the token's identifiers, the bits denied
  by the deny entries, and the bits that a privilege adds.  Lemmas: the walk computes
  that decision, the decision does not depend on the order of the entries, a weaker
  token is never granted more, and the check gives back every block it allocates.
\<close>

section \<open>Rights and mappings\<close>

definition SE_TAKE_OWNERSHIP :: u32 where [se_consts]: "SE_TAKE_OWNERSHIP = 0x00000009"
definition SE_SECURITY :: u32 where [se_consts]: "SE_SECURITY = 0x00000008"
definition SE_BACKUP :: u32 where [se_consts]: "SE_BACKUP = 0x00000011"
definition SE_RESTORE :: u32 where [se_consts]: "SE_RESTORE = 0x00000012"
definition SE_DEBUG :: u32 where [se_consts]: "SE_DEBUG = 0x00000014"

record generic_mapping =
  generic_read :: u32
  generic_write :: u32
  generic_execute :: u32
  generic_all :: u32

definition generic_mapping_new :: "u32 \<Rightarrow> u32 \<Rightarrow> u32 \<Rightarrow> u32 \<Rightarrow> generic_mapping" where
  "generic_mapping_new r w e a = \<lparr>generic_read = r, generic_write = w, generic_execute = e, generic_all = a\<rparr>"

definition map_generic :: "generic_mapping \<Rightarrow> u32 \<Rightarrow> u32" where
  "map_generic gm a0 =
     (let a1 = (if a0 AND ACCESS_GENERIC_READ \<noteq> 0
                then (a0 AND NOT ACCESS_GENERIC_READ) OR generic_read gm else a0);
          a2 = (if a1 AND ACCESS_GENERIC_WRITE \<noteq> 0
                then (a1 AND NOT ACCESS_GENERIC_WRITE) OR generic_write gm else a1);
          a3 = (if a2 AND ACCESS_GENERIC_EXECUTE \<noteq> 0
                then (a2 AND NOT ACCESS_GENERIC_EXECUTE) OR generic_execute gm else a2)
      in if a3 AND ACCESS_GENERIC_ALL \<noteq> 0
         then (a3 AND NOT ACCESS_GENERIC_ALL) OR generic_all gm else a3)"

definition PROCESS_QUERY_INFORMATION :: u32 where [se_consts]: "PROCESS_QUERY_INFORMATION = 0x0400"
definition PROCESS_QUERY_LIMITED_INFORMATION :: u32 where [se_consts]: "PROCESS_QUERY_LIMITED_INFORMATION = 0x1000"
definition PROCESS_CREATE_PROCESS :: u32 where [se_consts]: "PROCESS_CREATE_PROCESS = 0x0080"
definition PROCESS_CREATE_THREAD :: u32 where [se_consts]: "PROCESS_CREATE_THREAD = 0x0002"
definition PROCESS_DUP_HANDLE :: u32 where [se_consts]: "PROCESS_DUP_HANDLE = 0x0040"
definition PROCESS_VM_OPERATION :: u32 where [se_consts]: "PROCESS_VM_OPERATION = 0x0008"
definition PROCESS_VM_READ :: u32 where [se_consts]: "PROCESS_VM_READ = 0x0010"
definition PROCESS_VM_WRITE :: u32 where [se_consts]: "PROCESS_VM_WRITE = 0x0020"
definition PROCESS_ALL_ACCESS :: u32 where [se_consts]: "PROCESS_ALL_ACCESS = 0x1F0FFF"
definition THREAD_ALL_ACCESS :: u32 where [se_consts]: "THREAD_ALL_ACCESS = 0x1F03FF"
definition DIRECTORY_ALL_ACCESS :: u32 where [se_consts]: "DIRECTORY_ALL_ACCESS = 0x000F"
definition EVENT_ALL_ACCESS :: u32 where [se_consts]: "EVENT_ALL_ACCESS = 0x001F"
definition SEMAPHORE_ALL_ACCESS :: u32 where [se_consts]: "SEMAPHORE_ALL_ACCESS = 0x001F"
definition MUTANT_ALL_ACCESS :: u32 where [se_consts]: "MUTANT_ALL_ACCESS = 0x001F"
definition SECTION_ALL_ACCESS :: u32 where [se_consts]: "SECTION_ALL_ACCESS = 0x000F"
definition TOKEN_ALL_ACCESS :: u32 where [se_consts]: "TOKEN_ALL_ACCESS = 0x00F07FF"

definition FILE_GENERIC_MAPPING :: generic_mapping where
  "FILE_GENERIC_MAPPING = generic_mapping_new
     (ACCESS_READ_CONTROL OR 0x0001 OR 0x0002 OR 0x0004 OR 0x0008 OR 0x0010)
     (ACCESS_READ_CONTROL OR 0x0010 OR 0x0020 OR ACCESS_DELETE)
     (ACCESS_READ_CONTROL OR 0x0020)
     (ACCESS_DELETE OR ACCESS_READ_CONTROL OR ACCESS_WRITE_DAC OR ACCESS_WRITE_OWNER OR 0x01FF)"

definition REGISTRY_GENERIC_MAPPING :: generic_mapping where
  "REGISTRY_GENERIC_MAPPING = generic_mapping_new
     (0x00020000 OR 0x0001 OR 0x0002 OR 0x0004 OR 0x0008 OR 0x0010)
     (0x00020000 OR 0x0002 OR 0x0004 OR 0x0010 OR 0x0020)
     (0x00020000 OR 0x0004 OR 0x0008)
     0xF003F"

definition PROCESS_GENERIC_MAPPING :: generic_mapping where
  "PROCESS_GENERIC_MAPPING = generic_mapping_new
     (PROCESS_QUERY_INFORMATION OR PROCESS_VM_READ)
     (PROCESS_CREATE_PROCESS OR PROCESS_CREATE_THREAD OR PROCESS_DUP_HANDLE)
     PROCESS_QUERY_LIMITED_INFORMATION
     PROCESS_ALL_ACCESS"

definition THREAD_GENERIC_MAPPING :: generic_mapping where
  "THREAD_GENERIC_MAPPING = generic_mapping_new (0x0400 OR 0x0008) (0x0020 OR 0x0010) 0x0800 THREAD_ALL_ACCESS"

definition DIRECTORY_GENERIC_MAPPING :: generic_mapping where
  "DIRECTORY_GENERIC_MAPPING = generic_mapping_new (0x0001 OR 0x0008) (0x0004 OR 0x0002)
     (0x0001 OR 0x0008) DIRECTORY_ALL_ACCESS"

definition EVENT_GENERIC_MAPPING :: generic_mapping where
  "EVENT_GENERIC_MAPPING = generic_mapping_new 0x0001 0x0002 0x0001 EVENT_ALL_ACCESS"

definition SEMAPHORE_GENERIC_MAPPING :: generic_mapping where
  "SEMAPHORE_GENERIC_MAPPING = generic_mapping_new 0x0001 0x0002 0x0001 SEMAPHORE_ALL_ACCESS"

definition MUTANT_GENERIC_MAPPING :: generic_mapping where
  "MUTANT_GENERIC_MAPPING = generic_mapping_new 0x0001 0x0001 0x0001 MUTANT_ALL_ACCESS"

definition SECTION_GENERIC_MAPPING :: generic_mapping where
  "SECTION_GENERIC_MAPPING = generic_mapping_new (0x0004 OR 0x0001) (0x0002 OR 0x0008) 0x0008 SECTION_ALL_ACCESS"

definition TOKEN_GENERIC_MAPPING :: generic_mapping where
  "TOKEN_GENERIC_MAPPING = generic_mapping_new 0x0008 (0x0020 OR 0x0040) 0x0008 TOKEN_ALL_ACCESS"

definition DEFAULT_MAPPING :: generic_mapping where
  "DEFAULT_MAPPING = generic_mapping_new ACCESS_READ_CONTROL ACCESS_WRITE_DAC ACCESS_READ_CONTROL
     (ACCESS_READ_CONTROL OR ACCESS_WRITE_DAC OR ACCESS_WRITE_OWNER OR ACCESS_DELETE)"

datatype ob_type_index =
    ObNull | ObProcess | ObThread | ObDirectory | ObSymbolicLink | ObToken | ObProcessToken
  | ObThreadToken | ObEvent | ObEventPair | ObMutant | ObCallback | ObSection | ObAlias
  | ObWindowStation | ObDesktop | ObType | ObObjectDirectory | ObKey | ObFile | ObSemaphore

definition ob_type_from_u8 :: "u8 \<Rightarrow> ob_type_index" where
  "ob_type_from_u8 v =
     (if v = 0 then ObNull else if v = 1 then ObProcess else if v = 2 then ObThread
      else if v = 3 then ObDirectory else if v = 4 then ObSymbolicLink else if v = 5 then ObToken
      else if v = 6 then ObProcessToken else if v = 7 then ObThreadToken else if v = 8 then ObEvent
      else if v = 9 then ObEventPair else if v = 10 then ObMutant else if v = 11 then ObCallback
      else if v = 12 then ObSection else if v = 13 then ObAlias else if v = 14 then ObWindowStation
      else if v = 15 then ObDesktop else if v = 16 then ObType else if v = 17 then ObObjectDirectory
      else if v = 18 then ObKey else if v = 19 then ObFile else if v = 20 then ObSemaphore
      else ObNull)"

fun get_generic_mapping_for_type :: "ob_type_index \<Rightarrow> generic_mapping" where
  "get_generic_mapping_for_type ObProcess = PROCESS_GENERIC_MAPPING"
| "get_generic_mapping_for_type ObThread = THREAD_GENERIC_MAPPING"
| "get_generic_mapping_for_type ObFile = FILE_GENERIC_MAPPING"
| "get_generic_mapping_for_type ObKey = REGISTRY_GENERIC_MAPPING"
| "get_generic_mapping_for_type ObDirectory = DIRECTORY_GENERIC_MAPPING"
| "get_generic_mapping_for_type ObObjectDirectory = DIRECTORY_GENERIC_MAPPING"
| "get_generic_mapping_for_type ObEvent = EVENT_GENERIC_MAPPING"
| "get_generic_mapping_for_type ObSemaphore = SEMAPHORE_GENERIC_MAPPING"
| "get_generic_mapping_for_type ObMutant = MUTANT_GENERIC_MAPPING"
| "get_generic_mapping_for_type ObSection = SECTION_GENERIC_MAPPING"
| "get_generic_mapping_for_type ObToken = TOKEN_GENERIC_MAPPING"
| "get_generic_mapping_for_type _ = DEFAULT_MAPPING"

section \<open>The check against a list\<close>

datatype access_check_result = Allowed | Denied

definition sid_matches_token :: "sid \<Rightarrow> token \<Rightarrow> bool" where
  "sid_matches_token s t =
     (if sid_equals s (user t) then True
      else list_ex (\<lambda>i. let g = groups t ! i in
        \<not> (grp_attributes g AND SE_GROUP_USE_FOR_DENY_ONLY \<noteq> 0) \<and> sid_equals s (grp_sid g))
        [0..<group_count t])"

definition sid_in_token :: "sid \<Rightarrow> token \<Rightarrow> bool" where
  "sid_in_token s t =
     (if sid_equals s (user t) then True
      else list_ex (\<lambda>i. sid_equals s (grp_sid (groups t ! i))) [0..<group_count t])"

definition PRIVILEGE_ACCESS_GRANTS :: "(u32 \<times> u32) list" where
  "PRIVILEGE_ACCESS_GRANTS = [(SE_TAKE_OWNERSHIP, ACCESS_WRITE_OWNER),
     (SE_SECURITY, ACCESS_SYSTEM_SECURITY), (SE_BACKUP, ACCESS_READ_CONTROL),
     (SE_RESTORE, ACCESS_WRITE_DAC)]"

definition SE_DEBUG_REQUIRED_ACCESS :: u32 where
  "SE_DEBUG_REQUIRED_ACCESS = PROCESS_VM_READ OR PROCESS_VM_WRITE OR PROCESS_VM_OPERATION"

definition SE_DEBUG_ALLOWED_ACCESS :: u32 where
  "SE_DEBUG_ALLOWED_ACCESS = PROCESS_ALL_ACCESS OR PROCESS_QUERY_INFORMATION
     OR PROCESS_QUERY_LIMITED_INFORMATION OR PROCESS_VM_READ OR PROCESS_VM_WRITE
     OR PROCESS_VM_OPERATION OR PROCESS_DUP_HANDLE OR PROCESS_CREATE_THREAD"

definition privilege_grants :: "token \<Rightarrow> u32 \<Rightarrow> u32" where
  "privilege_grants t desired =
     (let g = fold (\<lambda>(privilege_value, access_bit) acc.
            if desired AND access_bit = 0 then acc
            else if has_privilege \<lparr>low_part = privilege_value, high_part = 0\<rparr> t
              then acc OR access_bit else acc) PRIVILEGE_ACCESS_GRANTS 0
      in if desired AND SE_DEBUG_ALLOWED_ACCESS \<noteq> 0
           \<and> has_privilege \<lparr>low_part = SE_DEBUG, high_part = 0\<rparr> t \<and> is_admin t
         then g OR SE_DEBUG_REQUIRED_ACCESS else g)"

text \<open>
  The walk over the entries.  \<open>None\<close> is the early return that denies the request;
  otherwise the result is the pair of granted and denied bits at the end of the loop.
\<close>

function access_walk ::
  "u8 list \<Rightarrow> nat \<Rightarrow> token \<Rightarrow> nat \<Rightarrow> u32 \<Rightarrow> u32 \<Rightarrow> (u32 \<times> u32) option" where
  "access_walk d walk_limit t offset granted denied =
     (if offset + 4 \<le> walk_limit then
        let ace_size = ace_size_or d offset in
        if ace_size < 8 \<or> walk_limit < offset + ace_size then Some (granted, denied)
        else let ace_mask = le_u32 (d ! (offset + 4)) (d ! (offset + 5)) (d ! (offset + 6)) (d ! (offset + 7)) in
          if ace_size < 16 then None
          else case sid_from_bytes (slice_of d (offset + 8) (offset + ace_size)) of
            None \<Rightarrow> None
          | Some s \<Rightarrow> (case ace_type_from_u8 (d ! offset) of
              None \<Rightarrow> None
            | Some ty \<Rightarrow>
                if ty \<in> {AccessDenied, AccessDeniedCallback, AccessDeniedCallbackObject} \<and> sid_in_token s t
                then access_walk d walk_limit t (offset + ace_size) granted (denied OR ace_mask)
                else if ty \<in> {AccessAllowed, AccessAllowedCallback, AccessAllowedCallbackObject}
                    \<and> sid_matches_token s t
                then access_walk d walk_limit t (offset + ace_size) (granted OR ace_mask) denied
                else access_walk d walk_limit t (offset + ace_size) granted denied)
      else Some (granted, denied))"
  by pat_completeness auto
termination by (relation "measure (\<lambda>(_, l, _, off, _, _). l - off)") auto

declare access_walk.simps [simp del]

definition decide :: "bool \<Rightarrow> u32 \<Rightarrow> u32 \<Rightarrow> u32 \<Rightarrow> u32 \<Rightarrow> u32 \<Rightarrow> access_check_result \<times> u32" where
  "decide maximum_allowed maximum_access desired privs granted0 denied =
     (let granted = granted0 AND NOT denied; grants = privs AND NOT denied in
      if desired AND denied \<noteq> 0 then (Denied, 0)
      else let remaining = desired AND NOT granted AND NOT grants in
        if \<not> maximum_allowed \<and> remaining \<noteq> 0 then (Denied, 0)
        else let result = (if maximum_allowed then (granted OR grants) AND maximum_access
                           else (granted AND desired) OR (grants AND desired)) in
          if maximum_allowed \<and> result = 0 then (Denied, 0) else (Allowed, result))"

definition check_access_with_granted ::
  "u32 \<Rightarrow> token \<Rightarrow> sid \<Rightarrow> acl option \<Rightarrow> generic_mapping option \<Rightarrow> access_check_result \<times> u32" where
  "check_access_with_granted desired_access t own dacl gm0 =
     (let maximum_allowed = (desired_access AND ACCESS_MAXIMUM_ALLOWED \<noteq> 0);
          d0 = desired_access AND NOT ACCESS_MAXIMUM_ALLOWED;
          desired = (case gm0 of None \<Rightarrow> d0 | Some gm \<Rightarrow> map_generic gm d0);
          maximum_access = (case gm0 of None \<Rightarrow> NOT ACCESS_MAXIMUM_ALLOWED | Some gm \<Rightarrow> generic_all gm)
      in case dacl of
           None \<Rightarrow> (Allowed, if maximum_allowed then maximum_access else desired)
         | Some acl \<Rightarrow>
             let privs = privilege_grants t desired in
             if \<not> acl_is_valid acl then (Denied, 0)
             else (case access_walk (acl_data acl) (unat (acl_size acl)) t 8 0 0 of
                 None \<Rightarrow> (Denied, 0)
               | Some (granted, denied) \<Rightarrow>
                   decide maximum_allowed maximum_access desired privs granted denied))"

definition check_access ::
  "u32 \<Rightarrow> token \<Rightarrow> sid \<Rightarrow> acl option \<Rightarrow> generic_mapping option \<Rightarrow> access_check_result" where
  "check_access desired_access t own dacl gm0 =
     fst (check_access_with_granted desired_access t own dacl gm0)"

definition check_privilege :: "token \<Rightarrow> luid \<Rightarrow> bool" where
  "check_privilege t l = has_privilege l t"

definition check_mandatory_write_up :: "u32 \<Rightarrow> u32 \<Rightarrow> u32 \<Rightarrow> bool" where
  "check_mandatory_write_up subject_level object_level desired \<longleftrightarrow> object_level \<le> subject_level"

section \<open>Descriptors from tokens\<close>

fun add_group_aces :: "token_group list \<Rightarrow> acl \<Rightarrow> acl" where
  "add_group_aces [] a = a"
| "add_group_aces (g # gs) a =
     (if grp_is_enabled g then
        (case add_access_allowed (grp_sid g) (ACCESS_GENERIC_READ OR ACCESS_SYNCHRONIZE) CONTAINER_INHERIT a of
           (False, a') \<Rightarrow> a' | (True, a') \<Rightarrow> add_group_aces gs a')
      else add_group_aces gs a)"

definition owner_mask :: u32 where
  "owner_mask = ACCESS_GENERIC_ALL OR ACCESS_DELETE OR ACCESS_READ_CONTROL OR ACCESS_WRITE_DAC
     OR ACCESS_WRITE_OWNER OR ACCESS_SYNCHRONIZE"

definition build_dacl_from_token :: "token \<Rightarrow> pool \<Rightarrow> acl option \<times> pool" where
  "build_dacl_from_token t p = (case pool_allocate p of
     (False, p1) \<Rightarrow> (None, p1)
   | (True, p1) \<Rightarrow>
       (case add_access_allowed (user t) owner_mask ACE_NONE acl_new of
          (False, _) \<Rightarrow> (None, pool_free p1)
        | (True, a1) \<Rightarrow>
            (case add_access_allowed (well_known LocalSystem) ACCESS_GENERIC_ALL ACE_NONE a1 of
               (False, _) \<Rightarrow> (None, pool_free p1)
             | (True, a2) \<Rightarrow> (Some (add_group_aces (take (group_count t) (groups t)) a2), p1))))"

definition from_token :: "token \<Rightarrow> pool \<Rightarrow> sec_desc option \<times> pool" where
  "from_token t p = (case pool_allocate p of
     (False, p1) \<Rightarrow> (None, p1)
   | (True, p1) \<Rightarrow>
       (case build_dacl_from_token t p1 of (dacl, p2) \<Rightarrow>
          let sd = zeroed_sec_desc\<lparr>sd_revision := 1, sd_sbz1 := 0, sd_control := 0x8004,
                sd_owner := user t, sd_group := primary_group t, sd_dacl := dacl\<rparr>;
              level = se_token_integrity_level (Some t)
          in (case se_set_object_integrity_level (Some sd) level SYSTEM_MANDATORY_LABEL_NO_WRITE_UP p2 of
                (_, sd', p3) \<Rightarrow> (sd', p3))))"

definition new_null_dacl :: "sec_desc option" where
  "new_null_dacl = None"

text \<open>A process is given by its token pointer.\<close>

definition build_process_security_descriptor ::
  "token option option \<Rightarrow> pool \<Rightarrow> sec_desc option \<times> pool" where
  "build_process_security_descriptor process p = (case process of None \<Rightarrow> (None, p)
     | Some None \<Rightarrow> (new_null_dacl, p)
     | Some (Some t) \<Rightarrow> from_token t p)"

definition create_null_dacl_sd :: "pool \<Rightarrow> sec_desc option \<times> pool" where
  "create_null_dacl_sd p = (case pool_allocate p of
     (False, p1) \<Rightarrow> (None, p1)
   | (True, p1) \<Rightarrow>
       let s = \<lparr>sid_revision = 1, sub_authority_count = 0, identifier_authority = [0, 0, 0, 0, 0, 0],
                sub_authority = replicate 8 0\<rparr>
       in (Some (zeroed_sec_desc\<lparr>sd_revision := 1, sd_sbz1 := 0, sd_control := 0x8004,
             sd_owner := s, sd_group := s, sd_sacl := None, sd_dacl := None\<rparr>), p1))"

section \<open>The entry point\<close>

text \<open>The release of the default descriptor: its lists, then the descriptor.\<close>

definition free_default_sd :: "sec_desc \<Rightarrow> pool \<Rightarrow> pool" where
  "free_default_sd sd p =
     (let p1 = (case sd_dacl sd of None \<Rightarrow> p | Some _ \<Rightarrow> pool_free p);
          p2 = (case sd_sacl sd of None \<Rightarrow> p1 | Some _ \<Rightarrow> pool_free p1)
      in pool_free p2)"

definition check_with_default ::
  "u32 \<Rightarrow> token \<Rightarrow> generic_mapping \<Rightarrow> pool \<Rightarrow> (access_check_result \<times> u32) \<times> pool" where
  "check_with_default desired_access t gm p = (case from_token t p of
     (None, p1) \<Rightarrow> ((Denied, 0), p1)
   | (Some built, p1) \<Rightarrow>
       (check_access_with_granted desired_access t (sd_owner built) (sd_dacl built) (Some gm),
        free_default_sd built p1))"

definition se_access_check ::
  "ob_type_index \<Rightarrow> sec_desc option \<Rightarrow> u32 \<Rightarrow> token option \<Rightarrow> pool \<Rightarrow>
     (access_check_result \<times> u32) \<times> pool" where
  "se_access_check object_type sd0 desired_access tok0 p =
     (let gm = get_generic_mapping_for_type object_type in
      case tok0 of None \<Rightarrow> ((Denied, 0), p)
      | Some t \<Rightarrow> (case sd0 of
          None \<Rightarrow> check_with_default desired_access t gm p
        | Some sd \<Rightarrow>
            if \<not> se_check_mandatory_integrity tok0 (se_get_object_integrity_level sd0) desired_access
            then ((Denied, 0), p)
            else if sd_control sd AND SE_DACL_PRESENT = 0 then check_with_default desired_access t gm p
            else (check_access_with_granted desired_access t (sd_owner sd) (sd_dacl sd) (Some gm), p)))"

definition se_access_check_by_type ::
  "ob_type_index \<Rightarrow> sec_desc option \<Rightarrow> u32 \<Rightarrow> token option \<Rightarrow> pool \<Rightarrow>
     (access_check_result \<times> u32) \<times> pool" where
  "se_access_check_by_type object_type sd0 desired_access tok0 p =
     se_access_check object_type sd0 desired_access tok0 p"

section \<open>The decision on the list of entries\<close>

definition readable_ace :: "u8 list \<Rightarrow> bool" where
  "readable_ace r \<longleftrightarrow> 16 \<le> length r \<and> sid_from_bytes (drop 8 r) \<noteq> None"

definition ace_applies :: "ace_type set \<Rightarrow> (sid \<Rightarrow> bool) \<Rightarrow> u8 list \<Rightarrow> bool" where
  "ace_applies tys m r \<longleftrightarrow> (\<exists>ty s. ace_type_from_u8 (r ! 0) = Some ty \<and> ty \<in> tys
     \<and> sid_from_bytes (drop 8 r) = Some s \<and> m s)"

definition allow_types :: "ace_type set" where
  "allow_types = {AccessAllowed, AccessAllowedCallback, AccessAllowedCallbackObject}"

definition deny_types :: "ace_type set" where
  "deny_types = {AccessDenied, AccessDeniedCallback, AccessDeniedCallbackObject}"

definition grant_of :: "token \<Rightarrow> u8 list \<Rightarrow> u32" where
  "grant_of t r = (if ace_applies allow_types (\<lambda>s. sid_matches_token s t) r then ace_header_mask r else 0)"

definition deny_of :: "token \<Rightarrow> u8 list \<Rightarrow> u32" where
  "deny_of t r = (if ace_applies deny_types (\<lambda>s. sid_in_token s t) r then ace_header_mask r else 0)"

lemma access_walk_entries:
  "at_entries a off rs \<Longrightarrow> access_walk (acl_data a) (unat (acl_size a)) t off g d =
     (if list_all readable_ace rs
      then Some (fold (\<lambda>r x. x OR grant_of t r) rs g, fold (\<lambda>r x. x OR deny_of t r) rs d) else None)"
proof (induction rs arbitrary: off g d)
  case Nil
  then have "unat (acl_size a) \<le> off" by (auto simp: at_entries_def)
  then show ?case by (subst access_walk.simps) simp
next
  case (Cons r rs)
  note st = at_entries_Cons [OF Cons.prems]
  define m where "m = ace_header_mask r"
  have mk: "le_u32 (acl_data a ! (off + 4)) (acl_data a ! (off + 5)) (acl_data a ! (off + 6))
      (acl_data a ! (off + 7)) = m"
    using st(3) st(10) [of 4] st(10) [of 5] st(10) [of 6] st(10) [of 7]
    by (simp add: m_def ace_header_mask_def se_consts Let_def)
  obtain ty where ty: "ace_type_from_u8 (r ! 0) = Some ty" using st(1) by (auto simp: raw_ace_def)
  have guard: "off + 4 \<le> unat (acl_size a)" "\<not> length r < 8" "\<not> unat (acl_size a) < off + length r"
    using st(2,3,8) by simp_all
  have step: "access_walk (acl_data a) (unat (acl_size a)) t off g d =
      (if length r < 16 then None else case sid_from_bytes (drop 8 r) of None \<Rightarrow> None
       | Some s \<Rightarrow>
          if ty \<in> deny_types \<and> sid_in_token s t
          then access_walk (acl_data a) (unat (acl_size a)) t (off + length r) g (d OR m)
          else if ty \<in> allow_types \<and> sid_matches_token s t
          then access_walk (acl_data a) (unat (acl_size a)) t (off + length r) (g OR m) d
          else access_walk (acl_data a) (unat (acl_size a)) t (off + length r) g d)"
    unfolding allow_types_def deny_types_def using guard
    by (subst access_walk.simps) (simp add: Let_def st(4-6) mk ty del: insert_iff cong: option.case_cong)
  show ?case
  proof (cases "readable_ace r")
    case False
    then show ?thesis using step by (auto simp: readable_ace_def)
  next
    case True
    then obtain s where s: "sid_from_bytes (drop 8 r) = Some s" and len: "\<not> length r < 16"
      by (auto simp: readable_ace_def)
    have disj: "ty \<in> deny_types \<Longrightarrow> ty \<notin> allow_types" by (auto simp: allow_types_def deny_types_def)
    have gr: "grant_of t r = (if ty \<in> allow_types \<and> sid_matches_token s t then m else 0)"
      and dn: "deny_of t r = (if ty \<in> deny_types \<and> sid_in_token s t then m else 0)"
      by (simp_all add: grant_of_def deny_of_def ace_applies_def ty s m_def)
    show ?thesis
      unfolding step using True s len disj Cons.IH [OF st(7)] by (simp add: gr dn)
  qed
qed

lemma check_access_rep:
  assumes "acl_rep a rs"
  shows "check_access_with_granted d t own (Some a) gm =
    (let d0 = d AND NOT ACCESS_MAXIMUM_ALLOWED;
         desired = (case gm of None \<Rightarrow> d0 | Some m \<Rightarrow> map_generic m d0);
         mx = (case gm of None \<Rightarrow> NOT ACCESS_MAXIMUM_ALLOWED | Some m \<Rightarrow> generic_all m)
     in if list_all readable_ace rs
        then decide (d AND ACCESS_MAXIMUM_ALLOWED \<noteq> 0) mx desired (privilege_grants t desired)
          (union_bits (grant_of t) rs) (union_bits (deny_of t) rs)
        else (Denied, 0))"
  using access_walk_entries [OF at_entries_start [OF assms], of t 0 0] assms
  by (simp add: check_access_with_granted_def Let_def union_bits_def)

lemma decide_explicit:
  "decide False mx desired privs g d =
     (if \<forall>n. bit desired n \<longrightarrow> \<not> bit d n \<and> (bit g n \<or> bit privs n) then (Allowed, desired) else (Denied, 0))"
proof -
  let ?ok = "\<forall>n. bit desired n \<longrightarrow> \<not> bit d n \<and> (bit g n \<or> bit privs n)"
  have rem: "desired AND NOT (g AND NOT d) AND NOT (privs AND NOT d) = 0 \<longleftrightarrow>
      (\<forall>n. bit desired n \<longrightarrow> (bit g n \<or> bit privs n) \<and> \<not> bit d n)"
    using bit_imp_le_length [of desired] unfolding word_eq_bits by (simp add: bit_simps) blast
  have den: "desired AND d = 0 \<longleftrightarrow> (\<forall>n. \<not> (bit desired n \<and> bit d n))" by (rule and_eq_0_iff_bits)
  have res: "((g AND NOT d) AND desired) OR ((privs AND NOT d) AND desired) = desired" if ?ok
    using that by (intro bit_word_eqI) (auto simp: bit_simps)
  show ?thesis
  proof (cases ?ok)
    case True
    then have "desired AND d = 0" "desired AND NOT (g AND NOT d) AND NOT (privs AND NOT d) = 0"
      using rem den by blast+
    then show ?thesis using True res by (simp add: decide_def Let_def)
  next
    case False
    then have "desired AND d \<noteq> 0 \<or> desired AND NOT (g AND NOT d) AND NOT (privs AND NOT d) \<noteq> 0"
      using rem den by blast
    then show ?thesis using False by (auto simp: decide_def Let_def)
  qed
qed

lemma decide_maximum:
  "decide True mx desired privs g d =
     (let r = ((g OR privs) AND NOT d) AND mx in
      if desired AND d \<noteq> 0 \<or> r = 0 then (Denied, 0) else (Allowed, r))"
proof -
  have "((g AND NOT d) OR (privs AND NOT d)) = (g OR privs) AND NOT d"
    by (rule bit_word_eqI) (auto simp: bit_simps)
  then show ?thesis by (simp add: decide_def Let_def)
qed

section \<open>Matching depends on the identifiers of the token\<close>

lemma sid_matches_token_iff:
  assumes "wf_token t"
  shows "sid_matches_token s t \<longleftrightarrow> sid_equals s (user t) \<or> (\<exists>x \<in> allow_sids t. sid_equals s x)"
  using list_ex_upt_take [of "group_count t" "groups t"
      "\<lambda>g. \<not> (grp_attributes g AND SE_GROUP_USE_FOR_DENY_ONLY \<noteq> 0) \<and> sid_equals s (grp_sid g)"]
    wf_tokenD(3,4) [OF assms]
  by (auto simp: sid_matches_token_def allow_sids_def token_groups_def deny_only_def Let_def)

lemma sid_in_token_iff:
  assumes "wf_token t"
  shows "sid_in_token s t \<longleftrightarrow> sid_equals s (user t) \<or> (\<exists>x \<in> all_sids t. sid_equals s x)"
  using list_ex_upt_take [of "group_count t" "groups t" "\<lambda>g. sid_equals s (grp_sid g)"]
    wf_tokenD(3,4) [OF assms]
  by (auto simp: sid_in_token_def all_sids_def token_groups_def)

lemma is_admin_iff:
  "is_admin t \<longleftrightarrow> is_local_system t \<or> (\<exists>x \<in> allow_sids t. sid_equals x (well_known Administrators))"
  by (auto simp: is_admin_def allow_sids_def token_groups_def deny_only_def list_ex_iff)

lemma has_privilege_luids: "wf_token t \<Longrightarrow> has_privilege l t \<longleftrightarrow> l \<in> enabled_luids t"
  by (auto simp: has_privilege_iff enabled_luids_def)

section \<open>Privileges\<close>

definition privilege_bit :: "token \<Rightarrow> u32 \<Rightarrow> nat \<Rightarrow> bool" where
  "privilege_bit t desired n \<longleftrightarrow>
     (\<exists>(v, b) \<in> set PRIVILEGE_ACCESS_GRANTS. desired AND b \<noteq> 0
        \<and> has_privilege \<lparr>low_part = v, high_part = 0\<rparr> t \<and> bit b n)
     \<or> desired AND SE_DEBUG_ALLOWED_ACCESS \<noteq> 0 \<and> has_privilege \<lparr>low_part = SE_DEBUG, high_part = 0\<rparr> t
        \<and> is_admin t \<and> bit SE_DEBUG_REQUIRED_ACCESS n"

lemma bit_privilege_grants: "bit (privilege_grants t desired) n \<longleftrightarrow> privilege_bit t desired n"
proof -
  have "bit (fold (\<lambda>(v, b) acc. if desired AND b = 0 then acc
      else if has_privilege \<lparr>low_part = v, high_part = 0\<rparr> t then acc OR b else acc) xs a0) n \<longleftrightarrow>
    bit a0 n \<or> (\<exists>(v, b) \<in> set xs. desired AND b \<noteq> 0
        \<and> has_privilege \<lparr>low_part = v, high_part = 0\<rparr> t \<and> bit b n)" for xs a0
  proof (induction xs arbitrary: a0)
    case (Cons x xs)
    then show ?case by (cases x) (simp add: bit_or_iff)
  qed simp
  then show ?thesis
    by (auto simp: privilege_grants_def privilege_bit_def Let_def bit_or_iff)
qed

lemma no_privileges_no_bits: "(\<And>l. \<not> has_privilege l t) \<Longrightarrow> privilege_grants t desired = 0"
  by (rule bit_word_eqI) (simp add: bit_privilege_grants privilege_bit_def)

section \<open>Weaker tokens are granted no more\<close>

lemma weaker_decision:
  assumes "weaker t' t" "wf_token t" "wf_token t'"
  shows "sid_matches_token s t' \<Longrightarrow> sid_matches_token s t" "sid_in_token s t \<Longrightarrow> sid_in_token s t'"
    "has_privilege l t' \<Longrightarrow> has_privilege l t" "is_admin t' \<Longrightarrow> is_admin t"
proof -
  have w: "user t' = user t" "allow_sids t' \<subseteq> allow_sids t" "all_sids t \<subseteq> all_sids t'"
    "enabled_luids t' \<subseteq> enabled_luids t" using assms(1) by (simp_all add: weaker_def)
  show "sid_matches_token s t' \<Longrightarrow> sid_matches_token s t"
    using w(1,2) by (auto simp: sid_matches_token_iff assms)
  show "sid_in_token s t \<Longrightarrow> sid_in_token s t'"
    using w(1,3) by (auto simp: sid_in_token_iff assms)
  show "has_privilege l t' \<Longrightarrow> has_privilege l t"
    using w(4) by (auto simp: has_privilege_luids assms)
  show "is_admin t' \<Longrightarrow> is_admin t"
    using w(1,2) by (auto simp: is_admin_iff is_local_system_def)
qed

lemma ace_applies_mono: "ace_applies tys m r \<Longrightarrow> (\<And>s. m s \<Longrightarrow> m' s) \<Longrightarrow> ace_applies tys m' r"
  by (auto simp: ace_applies_def)

lemma weaker_masks:
  assumes "weaker t' t" "wf_token t" "wf_token t'"
  shows "bits_le (union_bits (grant_of t') rs) (union_bits (grant_of t) rs)"
    "bits_le (union_bits (deny_of t) rs) (union_bits (deny_of t') rs)"
    "bits_le (privilege_grants t' d) (privilege_grants t d)"
proof -
  note w = weaker_decision [OF assms]
  have "bits_le (grant_of t' r) (grant_of t r)" "bits_le (deny_of t r) (deny_of t' r)" for r
    using ace_applies_mono [of allow_types "\<lambda>s. sid_matches_token s t'" r "\<lambda>s. sid_matches_token s t"]
      ace_applies_mono [of deny_types "\<lambda>s. sid_in_token s t" r "\<lambda>s. sid_in_token s t'"] w(1,2)
    by (auto simp: grant_of_def deny_of_def bits_le_def)
  then show "bits_le (union_bits (grant_of t') rs) (union_bits (grant_of t) rs)"
    "bits_le (union_bits (deny_of t) rs) (union_bits (deny_of t') rs)"
    unfolding bits_le_def bit_union_bits by blast+
  show "bits_le (privilege_grants t' d) (privilege_grants t d)"
    using w(3,4) unfolding bits_le_def bit_privilege_grants privilege_bit_def by blast
qed

lemma decide_mono:
  assumes "decide mxa mx desired privs' g' d' = (Allowed, r')"
    and "bits_le privs' privs" "bits_le g' g" "bits_le d d'"
  obtains r where "decide mxa mx desired privs g d = (Allowed, r)" "bits_le r' r"
proof (cases mxa)
  case False
  with assms(1) have ok: "\<forall>n. bit desired n \<longrightarrow> \<not> bit d' n \<and> (bit g' n \<or> bit privs' n)" "r' = desired"
    by (auto simp: decide_explicit split: if_splits)
  then have "\<forall>n. bit desired n \<longrightarrow> \<not> bit d n \<and> (bit g n \<or> bit privs n)"
    using assms(2-4) unfolding bits_le_def by blast
  with False ok(2) that [of desired] show thesis by (simp add: decide_explicit)
next
  case True
  define q where "q = ((g OR privs) AND NOT d) AND mx"
  have r': "r' = ((g' OR privs') AND NOT d') AND mx" "desired AND d' = 0" "r' \<noteq> 0"
    using assms(1) True by (auto simp: decide_maximum Let_def split: if_splits)
  have "desired AND d = 0"
    using r'(2) assms(4) unfolding and_eq_0_iff_bits bits_le_def by blast
  moreover have le: "bits_le r' q"
    using assms(2-4) unfolding bits_le_def r'(1) q_def by (auto simp: bit_simps)
  moreover have "q \<noteq> 0" using le r'(3) bits_le_zero by blast
  ultimately show thesis using True that [of q] by (simp add: decide_maximum q_def Let_def)
qed

lemma check_access_weaker:
  assumes "weaker t' t" "wf_token t" "wf_token t'" "\<forall>a. dacl = Some a \<longrightarrow> wf_acl a"
    "check_access_with_granted d t' own dacl gm = (Allowed, r')"
  obtains r where "check_access_with_granted d t own dacl gm = (Allowed, r)" "bits_le r' r"
proof (cases dacl)
  case None
  with assms(5) that [of r'] show thesis by (simp add: check_access_with_granted_def Let_def)
next
  case (Some a)
  have "acl_is_valid a" using assms(5) Some by (auto simp: check_access_with_granted_def Let_def split: if_splits)
  then obtain rs where rep: "acl_rep a rs" using acl_is_valid_iff_rep assms(4) Some by blast
  have rd: "list_all readable_ace rs"
    using assms(5) by (auto simp: Some check_access_rep [OF rep] Let_def split: if_splits)
  let ?d = "case gm of None \<Rightarrow> d AND NOT ACCESS_MAXIMUM_ALLOWED
    | Some m \<Rightarrow> map_generic m (d AND NOT ACCESS_MAXIMUM_ALLOWED)"
  note m = weaker_masks [OF assms(1-3)]
  from assms(5) rd have "decide (d AND ACCESS_MAXIMUM_ALLOWED \<noteq> 0)
      (case gm of None \<Rightarrow> NOT ACCESS_MAXIMUM_ALLOWED | Some m \<Rightarrow> generic_all m) ?d (privilege_grants t' ?d)
      (union_bits (grant_of t') rs) (union_bits (deny_of t') rs) = (Allowed, r')"
    by (simp add: Some check_access_rep [OF rep] Let_def)
  from decide_mono [OF this m(3) m(1) m(2)] rd that show thesis
    by (auto simp: Some check_access_rep [OF rep] Let_def)
qed

section \<open>The order of the entries does not matter\<close>

lemma check_access_order:
  assumes "acl_rep a rs" "acl_rep b ss" "set rs = set ss"
  shows "check_access_with_granted d t own (Some a) gm = check_access_with_granted d t own (Some b) gm"
proof -
  have "union_bits f rs = union_bits f ss" for f :: "u8 list \<Rightarrow> u32"
    by (rule bit_word_eqI) (simp add: bit_union_bits assms(3))
  moreover have "list_all readable_ace rs \<longleftrightarrow> list_all readable_ace ss"
    using assms(3) by (simp add: list_all_iff)
  ultimately show ?thesis by (simp add: check_access_rep [OF assms(1)] check_access_rep [OF assms(2)] Let_def)
qed

section \<open>The default descriptor\<close>

definition group_entry :: "token_group \<Rightarrow> u8 list" where
  "group_entry g = encode_ace AccessAllowed CONTAINER_INHERIT (ACCESS_GENERIC_READ OR ACCESS_SYNCHRONIZE) (grp_sid g)"

lemma add_group_aces_rep:
  assumes "acl_rep a rs" "\<forall>g \<in> set gs. wf_sid (grp_sid g)"
  shows "\<exists>ws. acl_rep (add_group_aces gs a) (rs @ ws)
    \<and> (\<forall>w \<in> set ws. \<exists>g \<in> set gs. grp_is_enabled g \<and> storable_sid (grp_sid g) \<and> w = group_entry g)"
  using assms
proof (induction gs arbitrary: a rs)
  case Nil
  then show ?case by (intro exI [of _ "[]"]) simp
next
  case (Cons g gs)
  let ?add = "add_ace AccessAllowed CONTAINER_INHERIT (ACCESS_GENERIC_READ OR ACCESS_SYNCHRONIZE) (grp_sid g) a"
  have wf: "wf_sid (grp_sid g)" "\<forall>g \<in> set gs. wf_sid (grp_sid g)" using Cons.prems(2) by simp_all
  note add = add_ace_rep [OF Cons.prems(1) wf(1), of AccessAllowed CONTAINER_INHERIT
      "ACCESS_GENERIC_READ OR ACCESS_SYNCHRONIZE"]
  consider (skip) "\<not> grp_is_enabled g" | (full) "grp_is_enabled g" "\<not> ace_room (grp_sid g) a"
    | (room) "grp_is_enabled g" "ace_room (grp_sid g) a" by blast
  then show ?case
  proof cases
    case skip
    then show ?thesis using Cons.IH [OF Cons.prems(1) wf(2)] by auto
  next
    case full
    then show ?thesis using add(2) Cons.prems(1)
      by (intro exI [of _ "[]"]) (simp add: add_access_allowed_def)
  next
    case room
    then obtain a' where a': "?add = (True, a')" "acl_rep a' (rs @ [group_entry g])"
      using add(1) by (cases ?add) (auto simp: group_entry_def)
    have "storable_sid (grp_sid g)" using room(2) wf(1) by (simp add: storable_sid_def ace_room_def)
    moreover obtain ws where "acl_rep (add_group_aces gs a') ((rs @ [group_entry g]) @ ws)"
      "\<forall>w \<in> set ws. \<exists>g \<in> set gs. grp_is_enabled g \<and> storable_sid (grp_sid g) \<and> w = group_entry g"
      using Cons.IH [OF a'(2) wf(2)] by blast
    ultimately show ?thesis
      using room a'(1) by (intro exI [of _ "group_entry g # ws"]) (auto simp: add_access_allowed_def)
  qed
qed

lemma wf_acl_new: "wf_acl acl_new" using acl_rep_new by (simp add: acl_rep_def)

lemma build_dacl_entries:
  assumes "wf_token t" "sid_is_valid (user t)"
  obtains a where "build_dacl_from_token t p = (case pool_allocate p of
      (False, p1) \<Rightarrow> (None, p1) | (True, p1) \<Rightarrow> (Some a, p1))"
    and "\<exists>ws. acl_rep a ([encode_ace AccessAllowed ACE_NONE owner_mask (user t),
           encode_ace AccessAllowed ACE_NONE ACCESS_GENERIC_ALL (well_known LocalSystem)] @ ws)
        \<and> (\<forall>w \<in> set ws. \<exists>g \<in> set (token_groups t). grp_is_enabled g \<and> storable_sid (grp_sid g) \<and> w = group_entry g)"
proof -
  let ?e1 = "encode_ace AccessAllowed ACE_NONE owner_mask (user t)"
  let ?e2 = "encode_ace AccessAllowed ACE_NONE ACCESS_GENERIC_ALL (well_known LocalSystem)"
  have u: "wf_sid (user t)" by (rule wf_tokenD(1) [OF assms(1)])
  have sz: "unat (acl_size acl_new) = 8" "unat (ace_count acl_new) = 0" by (simp_all add: acl_new_def)
  have "ace_room (user t) acl_new" using assms(2) sid_size_le [of "user t"] by (simp add: ace_room_def sz)
  then obtain a1 where a1: "add_ace AccessAllowed ACE_NONE owner_mask (user t) acl_new = (True, a1)"
    "acl_rep a1 [?e1]"
    using add_ace_rep(1) [OF acl_rep_new u, of AccessAllowed ACE_NONE owner_mask]
    by (cases "add_ace AccessAllowed ACE_NONE owner_mask (user t) acl_new") auto
  have "length (drop 8 (take (unat (acl_size a1)) (acl_data a1))) = 8 + sid_size (user t)"
    using acl_repD(7) [OF a1(2)] length_encode_ace [OF u] by simp
  then have "unat (acl_size a1) = 16 + sid_size (user t)" using acl_repD(1-3) [OF a1(2)] by simp
  then have "ace_room (well_known LocalSystem) a1"
    using acl_repD(4) [OF a1(2)] sid_size_le [of "user t"] sid_size_le [of "well_known LocalSystem"]
      valid_well_known [of LocalSystem]
    by (simp add: ace_room_def del: well_known.simps)
  then obtain a2 where a2: "add_ace AccessAllowed ACE_NONE ACCESS_GENERIC_ALL (well_known LocalSystem) a1 = (True, a2)"
    "acl_rep a2 [?e1, ?e2]"
    using add_ace_rep(1) [OF a1(2) wf_well_known [of LocalSystem], of AccessAllowed ACE_NONE ACCESS_GENERIC_ALL]
    by (cases "add_ace AccessAllowed ACE_NONE ACCESS_GENERIC_ALL (well_known LocalSystem) a1")
      (auto simp del: well_known.simps)
  have g: "\<forall>g \<in> set (token_groups t). wf_sid (grp_sid g)" using wf_token_groups [OF assms(1)] by blast
  show thesis
  proof (rule that)
    show "build_dacl_from_token t p = (case pool_allocate p of (False, p1) \<Rightarrow> (None, p1)
        | (True, p1) \<Rightarrow> (Some (add_group_aces (token_groups t) a2), p1))"
      using a1(1) a2(1) by (simp add: build_dacl_from_token_def add_access_allowed_def token_groups_def
          del: well_known.simps split: prod.splits bool.splits)
    show "\<exists>ws. acl_rep (add_group_aces (token_groups t) a2) ([?e1, ?e2] @ ws)
        \<and> (\<forall>w \<in> set ws. \<exists>g \<in> set (token_groups t). grp_is_enabled g \<and> storable_sid (grp_sid g) \<and> w = group_entry g)"
      by (rule add_group_aces_rep [OF a2(2) g])
  qed
qed

section \<open>Every block comes back\<close>

definition acl_blocks :: "acl option \<Rightarrow> nat" where
  "acl_blocks a = (case a of None \<Rightarrow> 0 | Some _ \<Rightarrow> 1)"

lemma acl_blocks_simps [simp]: "acl_blocks None = 0" "acl_blocks (Some a) = 1"
  by (simp_all add: acl_blocks_def)

lemma build_dacl_blocks:
  "build_dacl_from_token t p = (d, p') \<Longrightarrow> pool_live p' = pool_live p + acl_blocks d"
  by (auto simp: build_dacl_from_token_def dest!: pool_live_allocate split: prod.splits bool.splits)

lemma set_object_level_blocks:
  assumes "se_set_object_integrity_level (Some sd) l policy p = (ok, sd', p')" "sd_sacl sd = None"
  obtains sd1 where "sd' = Some sd1" "pool_live p' = pool_live p + acl_blocks (sd_sacl sd1)"
    "sd_dacl sd1 = sd_dacl sd" "sd_owner sd1 = sd_owner sd"
proof -
  obtain a where a: "se_set_object_integrity_level (Some sd) l policy p = (case pool_allocate p of
       (False, p1) \<Rightarrow> (False, Some sd, p1)
     | (True, p1) \<Rightarrow> (True, Some (sd\<lparr>sd_sacl := Some a, sd_control := sd_control sd OR SE_SACL_PRESENT\<rparr>), p1))"
    by (rule se_set_object_integrity_level_cases)
  obtain b p1 where p1: "pool_allocate p = (b, p1)" by (cases "pool_allocate p")
  show thesis
  proof (cases b)
    case True
    with a p1 assms pool_live_allocate [OF p1] show thesis
      by (intro that [of "sd\<lparr>sd_sacl := Some a, sd_control := sd_control sd OR SE_SACL_PRESENT\<rparr>"]) auto
  next
    case False
    with a p1 assms pool_live_allocate [OF p1] show thesis by (intro that [of sd]) auto
  qed
qed

lemma from_token_blocks:
  assumes "from_token t p = (r, p')"
  shows "case r of None \<Rightarrow> pool_live p' = pool_live p
    | Some sd \<Rightarrow> pool_live p' = pool_live p + 1 + acl_blocks (sd_dacl sd) + acl_blocks (sd_sacl sd)"
proof -
  obtain b p1 where p1: "pool_allocate p = (b, p1)" by (cases "pool_allocate p")
  show ?thesis
  proof (cases b)
    case False
    with assms p1 pool_live_allocate [OF p1] show ?thesis by (auto simp: from_token_def)
  next
    case True
    obtain d p2 where d: "build_dacl_from_token t p1 = (d, p2)" by (cases "build_dacl_from_token t p1")
    define sd where "sd = zeroed_sec_desc\<lparr>sd_revision := 1, sd_sbz1 := 0, sd_control := 0x8004,
                sd_owner := user t, sd_group := primary_group t, sd_dacl := d\<rparr>"
    obtain ok sd' p3 where s: "se_set_object_integrity_level (Some sd)
        (se_token_integrity_level (Some t)) SYSTEM_MANDATORY_LABEL_NO_WRITE_UP p2 = (ok, sd', p3)"
      by (rule prod_cases3)
    have "sd_sacl sd = None" by (simp add: sd_def zeroed_sec_desc_def)
    then obtain sd1 where sd1: "sd' = Some sd1" "pool_live p3 = pool_live p2 + acl_blocks (sd_sacl sd1)"
      "sd_dacl sd1 = d"
      using set_object_level_blocks [OF s] by (metis sd_def sec_desc.select_convs(7) sec_desc.update_convs(7) sec_desc.surjective)
    have "r = sd'" "p' = p3" using assms p1 True d s by (simp_all add: from_token_def sd_def Let_def)
    with sd1 build_dacl_blocks [OF d] pool_live_allocate [OF p1] True show ?thesis by simp
  qed
qed

lemma check_with_default_blocks:
  "check_with_default d t gm p = (res, p') \<Longrightarrow> pool_live p' = pool_live p"
proof -
  assume r: "check_with_default d t gm p = (res, p')"
  obtain sd0 p1 where f: "from_token t p = (sd0, p1)" by (cases "from_token t p")
  show ?thesis
  proof (cases sd0)
    case None
    with r f from_token_blocks [OF f] show ?thesis by (auto simp: check_with_default_def)
  next
    case (Some sd)
    with r f have "p' = free_default_sd sd p1" by (simp add: check_with_default_def)
    with from_token_blocks [OF f] Some show ?thesis
      by (cases "sd_dacl sd"; cases "sd_sacl sd") (simp_all add: free_default_sd_def Let_def)
  qed
qed

lemma se_access_check_blocks:
  "se_access_check ty sd0 d tok0 p = (res, p') \<Longrightarrow> pool_live p' = pool_live p"
  by (auto simp: se_access_check_def Let_def dest: check_with_default_blocks
      split: option.splits if_splits)

section \<open>The default policy\<close>

text \<open>
  What the entries of the default list give the owner of a token.
\<close>

lemma grant_of_own_entry:
  assumes "storable_sid s" "sid_equals s (user t)" "wf_token t"
  shows "grant_of t (encode_ace AccessAllowed f m s) = m"
proof -
  have w: "wf_sid s" using assms(1) by (simp add: storable_sid_def)
  have "sid_equals (canon s) (user t)"
    using assms(2) sid_equals_canon_eq [OF wf_canon [OF w] wf_tokenD(1) [OF assms(3)]]
      sid_equals_canon_eq [OF w wf_tokenD(1) [OF assms(3)]] sid_equals_canon [OF w]
      sid_equals_canon_eq [OF w wf_canon [OF w]] by simp
  then have "sid_matches_token (canon s) t" by (simp add: sid_matches_token_def)
  then show ?thesis
    using raw_encode_ace [OF assms(1), of AccessAllowed f m]
    by (auto simp: grant_of_def ace_applies_def allow_types_def ace_type_from_u8_def)
qed

lemma deny_of_allow_entry:
  assumes "storable_sid s"
  shows "deny_of t (encode_ace AccessAllowed f m s) = 0"
  using raw_encode_ace(3) [OF assms, of AccessAllowed f m]
  by (auto simp: deny_of_def ace_applies_def deny_types_def ace_type_from_u8_def)

lemma readable_encode_ace: "storable_sid s \<Longrightarrow> readable_ace (encode_ace ty f m s)"
  using raw_encode_ace(2) [of s ty f m] length_encode_ace [of s ty f m]
  by (simp add: readable_ace_def storable_sid_def sid_size_def)

lemma set_object_level_keeps:
  obtains ok sd1 p1 where "se_set_object_integrity_level (Some sd) l policy p = (ok, Some sd1, p1)"
    "sd_dacl sd1 = sd_dacl sd"
proof -
  obtain a where a: "se_set_object_integrity_level (Some sd) l policy p = (case pool_allocate p of
       (False, p1) \<Rightarrow> (False, Some sd, p1)
     | (True, p1) \<Rightarrow> (True, Some (sd\<lparr>sd_sacl := Some a, sd_control := sd_control sd OR SE_SACL_PRESENT\<rparr>), p1))"
    by (rule se_set_object_integrity_level_cases)
  obtain b p1 where "pool_allocate p = (b, p1)" by (cases "pool_allocate p")
  with a that show thesis by (cases b) auto
qed

lemma from_token_dacl:
  assumes "wf_token t" "sid_is_valid (user t)" "pool_script p = True # True # bs"
  obtains sd p1 a ws where "from_token t p = (Some sd, p1)" "sd_dacl sd = Some a"
    "acl_rep a ([encode_ace AccessAllowed ACE_NONE owner_mask (user t),
           encode_ace AccessAllowed ACE_NONE ACCESS_GENERIC_ALL (well_known LocalSystem)] @ ws)"
    "\<forall>w \<in> set ws. \<exists>g \<in> set (token_groups t). grp_is_enabled g \<and> storable_sid (grp_sid g) \<and> w = group_entry g"
proof -
  let ?p1 = "p\<lparr>pool_script := True # bs, pool_live := Suc (pool_live p)\<rparr>"
  let ?p2 = "?p1\<lparr>pool_script := bs, pool_live := Suc (Suc (pool_live p))\<rparr>"
  obtain a where a: "build_dacl_from_token t ?p1 = (case pool_allocate ?p1 of
      (False, p1) \<Rightarrow> (None, p1) | (True, p1) \<Rightarrow> (Some a, p1))"
    "\<exists>ws. acl_rep a ([encode_ace AccessAllowed ACE_NONE owner_mask (user t),
           encode_ace AccessAllowed ACE_NONE ACCESS_GENERIC_ALL (well_known LocalSystem)] @ ws)
        \<and> (\<forall>w \<in> set ws. \<exists>g \<in> set (token_groups t). grp_is_enabled g \<and> storable_sid (grp_sid g) \<and> w = group_entry g)"
    by (rule build_dacl_entries [OF assms(1,2)])
  let ?sd = "zeroed_sec_desc\<lparr>sd_revision := 1, sd_sbz1 := 0, sd_control := 0x8004,
                sd_owner := user t, sd_group := primary_group t, sd_dacl := Some a\<rparr>"
  obtain ok sd1 p3 where s: "se_set_object_integrity_level (Some ?sd) (se_token_integrity_level (Some t))
      SYSTEM_MANDATORY_LABEL_NO_WRITE_UP ?p2 = (ok, Some sd1, p3)" "sd_dacl sd1 = sd_dacl ?sd"
    by (rule set_object_level_keeps)
  have "from_token t p = (Some sd1, p3)"
    using s(1) assms(3) a(1) by (simp add: from_token_def pool_allocate_def Let_def)
  moreover have "sd_dacl sd1 = Some a" using s(2) by simp
  ultimately show thesis using a(2) that by blast
qed

lemma default_check_rep:
  assumes "wf_token t" "sid_is_valid (user t)" "pool_script p = True # True # bs"
  obtains a ws p' where
    "check_with_default d t gm p = (check_access_with_granted d t (user t) (Some a) (Some gm), p')"
    "acl_rep a ([encode_ace AccessAllowed ACE_NONE owner_mask (user t),
           encode_ace AccessAllowed ACE_NONE ACCESS_GENERIC_ALL (well_known LocalSystem)] @ ws)"
    "\<forall>w \<in> set ws. \<exists>g \<in> set (token_groups t). grp_is_enabled g \<and> storable_sid (grp_sid g) \<and> w = group_entry g"
proof -
  obtain sd p1 a ws where f: "from_token t p = (Some sd, p1)" "sd_dacl sd = Some a"
    "acl_rep a ([encode_ace AccessAllowed ACE_NONE owner_mask (user t),
           encode_ace AccessAllowed ACE_NONE ACCESS_GENERIC_ALL (well_known LocalSystem)] @ ws)"
    "\<forall>w \<in> set ws. \<exists>g \<in> set (token_groups t). grp_is_enabled g \<and> storable_sid (grp_sid g) \<and> w = group_entry g"
    by (rule from_token_dacl [OF assms])
  have "check_with_default d t gm p =
      (check_access_with_granted d t (user t) (Some a) (Some gm), free_default_sd sd p1)"
    using f(1,2) by (simp add: check_with_default_def check_access_with_granted_def)
  with f(3,4) that show thesis by blast
qed

section \<open>Properties\<close>



text \<open>
  The header of the file promises write-owner access to LocalSystem and to holders of the
  take-ownership privilege; the code only looks at the privilege.  A token without it is
  refused unless an entry grants the right, and the token of \<^const>\<open>create_system_token\<close>,
  which has no privileges, is refused on an empty list.
\<close>

lemma write_owner_needs_entry_or_privilege:
  assumes "acl_rep a rs" "\<not> has_privilege \<lparr>low_part = SE_TAKE_OWNERSHIP, high_part = 0\<rparr> t"
    "\<forall>r \<in> set rs. \<not> bit (grant_of t r) 19"
  shows "check_access_with_granted ACCESS_WRITE_OWNER t own (Some a) (Some gm) = (Denied, 0)"
proof -
  have m: "ACCESS_WRITE_OWNER AND NOT ACCESS_MAXIMUM_ALLOWED = ACCESS_WRITE_OWNER" "ACCESS_WRITE_OWNER AND ACCESS_MAXIMUM_ALLOWED = 0"
    "map_generic gm ACCESS_WRITE_OWNER = ACCESS_WRITE_OWNER"
    by (simp_all add: map_generic_def Let_def se_consts)
  have b: "bit ACCESS_WRITE_OWNER 19" "\<not> bit ACCESS_SYSTEM_SECURITY 19" "\<not> bit ACCESS_READ_CONTROL 19"
    "\<not> bit ACCESS_WRITE_DAC 19" "\<not> bit SE_DEBUG_REQUIRED_ACCESS 19"
    by (simp_all add: se_consts SE_DEBUG_REQUIRED_ACCESS_def bit_or_iff)
  have "\<not> privilege_bit t ACCESS_WRITE_OWNER 19"
    using assms(2) b by (auto simp: privilege_bit_def PRIVILEGE_ACCESS_GRANTS_def)
  then have "\<not> (\<forall>n. bit ACCESS_WRITE_OWNER n \<longrightarrow> \<not> bit (union_bits (deny_of t) rs) n
      \<and> (bit (union_bits (grant_of t) rs) n \<or> bit (privilege_grants t ACCESS_WRITE_OWNER) n))"
    using b(1) assms(3) by (auto simp: bit_union_bits bit_privilege_grants)
  then show ?thesis
    by (simp only: check_access_rep [OF assms(1)] Let_def option.case m decide_explicit if_False simp_thms split: if_split)
qed

lemma system_token_denied_write_owner:
  assumes "create_system_token p = (Some t, p')"
  shows "is_local_system t \<and> check_access_with_granted ACCESS_WRITE_OWNER t own (Some acl_new) (Some gm) = (Denied, 0)"
proof -
  have t: "t = new_primary (well_known LocalSystem)"
    using assms by (auto simp: create_system_token_def split: prod.splits bool.splits)
  have wf: "wf_token t" unfolding t by (simp add: wf_new_primary wf_well_known del: well_known.simps)
  have "\<not> has_privilege l t" for l using has_privilege_iff [OF wf] by (simp add: t token_adding)
  moreover have "is_local_system t"
    by (simp add: t is_local_system_def token_adding sid_equals_refl del: well_known.simps)
  ultimately show ?thesis using write_owner_needs_entry_or_privilege [OF acl_rep_new] by simp
qed

text \<open>
  C36: The decision does not depend on the order of the entries, or on repetitions.
\<close>

theorem access_check_order_independent:
  assumes "acl_rep a rs" "acl_rep b ss" "set rs = set ss"
  shows "check_access_with_granted d t own (Some a) gm = check_access_with_granted d t own (Some b) gm"
  using assms by (rule check_access_order)

theorem access_check_order_independent_witness:
  "\<exists>a b. acl_data a \<noteq> acl_data b \<and> check_access_with_granted 7 token_new sid_new (Some a) None
     = check_access_with_granted 7 token_new sid_new (Some b) None"
proof -
  let ?r = "encode_ace AccessAllowed 0 1 (well_known World)" and ?s = "encode_ace AccessDenied 0 2 (well_known Dialup)"
  obtain a where a: "acl_rep a [?r, ?s]" by (rule two_entry_acl)
  obtain b where b: "acl_rep b [?s, ?r]" by (rule two_entry_acl)
  have l: "length ?r = 20" "length ?s = 20"
    by (simp_all add: encode_ace_def Let_def sid_to_bytes_def wk1_def subauthority_count_def se_consts)
  have ne: "?r ! 0 \<noteq> ?s ! 0" by (simp add: encode_ace_def Let_def)
  have "acl_data a \<noteq> acl_data b"
    using acl_repD(1-3,7) [OF a] acl_repD(1-3,7) [OF b] l ne at_entries_Cons(10) [OF at_entries_start [OF a], of 0]
      at_entries_Cons(10) [OF at_entries_start [OF b], of 0] by auto
  moreover have "set [?r, ?s] = set [?s, ?r]" by auto
  ultimately show ?thesis using access_check_order_independent [OF a b, of 7 token_new sid_new None] by blast
qed

text \<open>
  A check without a token is denied, and every check gives back all the pool blocks
  it takes, whichever allocations fail.
\<close>

theorem access_check_no_token_no_leak:
  "fst (se_access_check ty sd0 d None p) = (Denied, 0)
    \<and> pool_live (snd (se_access_check ty sd0 d tok0 p)) = pool_live p"
  using se_access_check_blocks [of ty sd0 d tok0 p]
  by (cases "se_access_check ty sd0 d tok0 p") (simp add: se_access_check_def Let_def)

text \<open>
  When the descriptor of an object is absent and the list cannot be allocated, the
  default descriptor has a null list, and the check then allows every request.
\<close>

theorem default_check_fails_open:
  assumes "pool_script p = True # False # bs" "d AND ACCESS_MAXIMUM_ALLOWED = 0"
  shows "fst (se_access_check ty None d (Some t) p) = (Allowed, map_generic (get_generic_mapping_for_type ty) d)"
proof -
  let ?sd = "zeroed_sec_desc\<lparr>sd_revision := 1, sd_sbz1 := 0, sd_control := 0x8004,
                sd_owner := user t, sd_group := primary_group t, sd_dacl := None\<rparr>"
  let ?p = "p\<lparr>pool_script := bs, pool_live := Suc (pool_live p)\<rparr>"
  obtain ok sd1 p1 where s: "se_set_object_integrity_level (Some ?sd) (se_token_integrity_level (Some t))
      SYSTEM_MANDATORY_LABEL_NO_WRITE_UP ?p = (ok, Some sd1, p1)" "sd_dacl sd1 = sd_dacl ?sd"
    by (rule set_object_level_keeps)
  have "from_token t p = (Some sd1, p1)"
    using s(1) assms(1) by (simp add: from_token_def build_dacl_from_token_def pool_allocate_def Let_def)
  moreover have "d AND NOT ACCESS_MAXIMUM_ALLOWED = d"
    using assms(2) by (intro bit_word_eqI) (auto simp: bit_simps and_eq_0_iff_bits)
  ultimately show ?thesis
    using s(2) assms(2)
    by (simp add: se_access_check_def check_with_default_def check_access_with_granted_def Let_def)
qed

theorem default_check_fails_open_witness:
  "fst (se_access_check ObProcess None PROCESS_VM_WRITE (Some token_new) \<lparr>pool_script = [True, False], pool_live = 0\<rparr>)
     = (Allowed, map_generic (get_generic_mapping_for_type ObProcess) PROCESS_VM_WRITE)"
  by (rule default_check_fails_open [where bs = "[]"]) (simp_all add: se_consts)

text \<open>
  With the default descriptor the owner is granted every explicit request whose
  mapped mask lies within the standard rights of the owner's entry.
\<close>

theorem default_check_owner_standard_rights:
  assumes "wf_token t" "sid_is_valid (user t)" "pool_script p = True # True # bs"
    "d AND ACCESS_MAXIMUM_ALLOWED = 0" "bits_le (map_generic (get_generic_mapping_for_type ty) d) owner_mask"
  shows "fst (se_access_check ty None d (Some t) p) = (Allowed, map_generic (get_generic_mapping_for_type ty) d)"
proof -
  let ?gm = "get_generic_mapping_for_type ty"
  let ?e1 = "encode_ace AccessAllowed ACE_NONE owner_mask (user t)"
  let ?e2 = "encode_ace AccessAllowed ACE_NONE ACCESS_GENERIC_ALL (well_known LocalSystem)"
  obtain a ws p' where c: "check_with_default d t ?gm p = (check_access_with_granted d t (user t) (Some a) (Some ?gm), p')"
    and rep: "acl_rep a ([?e1, ?e2] @ ws)"
    and ws: "\<forall>w \<in> set ws. \<exists>g \<in> set (token_groups t). grp_is_enabled g \<and> storable_sid (grp_sid g) \<and> w = group_entry g"
    by (rule default_check_rep [OF assms(1-3)])
  have u: "storable_sid (user t)" using assms(1,2) by (simp add: storable_sid_def wf_tokenD)
  have entries: "readable_ace r \<and> deny_of t r = 0" if "r \<in> set ([?e1, ?e2] @ ws)" for r
    using that ws u storable_well_known [of LocalSystem] readable_encode_ace deny_of_allow_entry
    by (auto simp: group_entry_def simp del: well_known.simps)
  have "d AND NOT ACCESS_MAXIMUM_ALLOWED = d"
    using assms(4) by (intro bit_word_eqI) (auto simp: bit_simps and_eq_0_iff_bits)
  moreover have "bit (grant_of t ?e1) n" if "bit (map_generic ?gm d) n" for n
    using that assms(5) grant_of_own_entry [OF u sid_equals_refl assms(1)] by (simp add: bits_le_def)
  ultimately have "check_access_with_granted d t (user t) (Some a) (Some ?gm) = (Allowed, map_generic ?gm d)"
    using entries assms(4)
    by (auto simp: check_access_rep [OF rep] Let_def decide_explicit bit_union_bits list_all_iff simp del: well_known.simps)
  with c show ?thesis by (simp add: se_access_check_def Let_def)
qed

theorem default_check_owner_standard_rights_witness:
  "fst (se_access_check ObFile None ACCESS_WRITE_DAC (Some (new_primary (well_known LocalSystem)))
      \<lparr>pool_script = [True, True, True], pool_live = 0\<rparr>)
    = (Allowed, map_generic (get_generic_mapping_for_type ObFile) ACCESS_WRITE_DAC)"
proof (rule default_check_owner_standard_rights [where bs = "[True]"])
  have m: "map_generic (get_generic_mapping_for_type ObFile) ACCESS_WRITE_DAC = 0x40000"
    by (simp add: map_generic_def Let_def se_consts)
  have "0x40000 OR owner_mask = owner_mask" by (simp add: owner_mask_def se_consts)
  then have "bits_le 0x40000 owner_mask" unfolding bits_le_def by (metis bit_or_iff)
  then show "bits_le (map_generic (get_generic_mapping_for_type ObFile) ACCESS_WRITE_DAC) owner_mask"
    by (simp only: m)
qed (simp_all add: wf_new_primary wf_well_known valid_well_known token_adding se_consts del: well_known.simps)

text \<open>
  The owner's entry of the default list stores the generic-all bit itself, while
  requests are mapped to specific rights first: the owner of an object with the
  default descriptor is refused full access to it.
\<close>

theorem default_check_denies_owner_full_access:
  assumes "wf_sid u" "sid_is_valid u" "pool_script p = True # True # bs"
  shows "fst (se_access_check ObProcess None ACCESS_GENERIC_ALL (Some (new_primary u)) p) = (Denied, 0)"
proof -
  let ?gm = "PROCESS_GENERIC_MAPPING" and ?t = "new_primary u"
  let ?e1 = "encode_ace AccessAllowed ACE_NONE owner_mask u"
  let ?e2 = "encode_ace AccessAllowed ACE_NONE ACCESS_GENERIC_ALL (well_known LocalSystem)"
  have wf: "wf_token ?t" "user ?t = u" "token_groups ?t = []" using assms(1) by (simp_all add: wf_new_primary token_adding)
  obtain a ws p' where c: "check_with_default ACCESS_GENERIC_ALL ?t ?gm p =
      (check_access_with_granted ACCESS_GENERIC_ALL ?t (user ?t) (Some a) (Some ?gm), p')"
    and rep: "acl_rep a ([encode_ace AccessAllowed ACE_NONE owner_mask (user ?t), ?e2] @ ws)"
    and ws: "\<forall>w \<in> set ws. \<exists>g \<in> set (token_groups ?t). grp_is_enabled g \<and> storable_sid (grp_sid g) \<and> w = group_entry g"
    by (rule default_check_rep [OF wf(1) _ assms(3)]) (use assms(2) wf(2) in simp)
  have "ws = []" using ws wf(3) by (cases ws) auto
  then have rep': "acl_rep a [?e1, ?e2]" using rep wf(2) by simp
  have mg: "map_generic ?gm ACCESS_GENERIC_ALL = 0x1F0FFF" by (simp add: map_generic_def PROCESS_GENERIC_MAPPING_def
        generic_mapping_new_def Let_def se_consts)
  have no_bit: "\<not> bit (if b then m else 0) 0" if "\<not> bit m 0" for b and m :: u32 using that by simp
  have masks: "\<not> bit owner_mask 0" "\<not> bit ACCESS_GENERIC_ALL 0" by (simp_all add: owner_mask_def se_consts bit_simps bit_0)
  have "storable_sid u" using assms(1,2) by (simp add: storable_sid_def)
  then have "\<not> bit (grant_of ?t ?e1) 0" "\<not> bit (grant_of ?t ?e2) 0"
    using raw_encode_ace(5) storable_well_known [of LocalSystem] masks
    by (simp_all add: grant_of_def no_bit del: well_known.simps)
  then have g: "\<not> bit (union_bits (grant_of ?t) [?e1, ?e2]) 0" by (simp add: bit_union_bits del: well_known.simps)
  have p: "\<not> bit (privilege_grants ?t x) n" for x n
    using has_privilege_iff [OF wf(1)] by (auto simp: bit_privilege_grants privilege_bit_def token_adding)
  have "bit (0x1F0FFF :: u32) 0" by (simp add: bit_0)
  with g p have "\<not> (\<forall>n. bit (0x1F0FFF :: u32) n \<longrightarrow> \<not> bit (union_bits (deny_of ?t) [?e1, ?e2]) n
      \<and> (bit (union_bits (grant_of ?t) [?e1, ?e2]) n \<or> bit (privilege_grants ?t 0x1F0FFF) n))" by blast
  moreover have "ACCESS_GENERIC_ALL AND ACCESS_MAXIMUM_ALLOWED = 0"
    "ACCESS_GENERIC_ALL AND NOT ACCESS_MAXIMUM_ALLOWED = ACCESS_GENERIC_ALL" by (simp_all add: se_consts)
  ultimately have "check_access_with_granted ACCESS_GENERIC_ALL ?t u (Some a) (Some ?gm) = (Denied, 0)"
    by (simp only: check_access_rep [OF rep'] Let_def option.case mg decide_explicit if_False simp_thms split: if_split)
  with c wf(2) show ?thesis by (simp add: se_access_check_def Let_def)
qed

theorem default_check_denies_owner_full_access_witness:
  "fst (se_access_check ObProcess None ACCESS_GENERIC_ALL (Some (new_primary (well_known Users)))
     \<lparr>pool_script = [True, True, True], pool_live = 0\<rparr>) = (Denied, 0)"
  by (rule default_check_denies_owner_full_access [where bs = "[True]"])
    (simp_all add: wf_well_known valid_well_known del: well_known.simps)

end
