(* ===== verification/Ref_Mon.thy ===== *)
theory Ref_Mon
  imports Se_Access
begin

text \<open>
  The security reference monitor, \<open>src/nt61/src/se/refmon.rs\<close>: the captured subject
  context, the access check against it, assignment of a descriptor to a new object,
  and the query and set operations on descriptors.  Lemmas: the monitor allows a
  request exactly when the list check does, assignment accounts for the blocks it
  allocates, a new object carries its creator's integrity level, and setting a part
  of a descriptor leaves the other parts as they were.
\<close>

record subject_context =
  client_token :: "token option"
  ctx_level :: impersonation_level_enum
  primary_token :: "token option"
  process_audit_id :: luid

definition subject_context_new :: subject_context where
  "subject_context_new = \<lparr>client_token = None, ctx_level = SecurityAnonymous, primary_token = None,
     process_audit_id = luid_new\<rparr>"

text \<open>
  The current thread, as \<open>capture\<close> reads it: no thread, or the thread's own token and
  the owning process, itself absent or given by its token.
\<close>

type_synonym thread_view = "(token option \<times> token option option) option"

definition capture :: "thread_view \<Rightarrow> subject_context" where
  "capture thread = (case thread of None \<Rightarrow> subject_context_new
     | Some (thread_token, process) \<Rightarrow>
         let ctx1 = (case thread_token of None \<Rightarrow> subject_context_new
               | Some t \<Rightarrow> subject_context_new\<lparr>client_token := Some t, ctx_level := impersonation_level t\<rparr>)
         in (case process of None \<Rightarrow> ctx1
             | Some proc_token \<Rightarrow> (case proc_token of None \<Rightarrow> ctx1
                 | Some t \<Rightarrow> ctx1\<lparr>primary_token := Some t\<rparr>)))"

definition release_context :: "subject_context \<Rightarrow> subject_context" where
  "release_context ctx = ctx\<lparr>client_token := None, primary_token := None\<rparr>"

definition effective_token :: "subject_context \<Rightarrow> token option" where
  "effective_token ctx = (case client_token ctx of Some t \<Rightarrow> Some t | None \<Rightarrow> primary_token ctx)"

definition se_access_check_with_context ::
  "sec_desc option \<Rightarrow> subject_context \<Rightarrow> u32 \<Rightarrow> generic_mapping \<Rightarrow> u32 \<Rightarrow> access_check_result \<times> u32" where
  "se_access_check_with_context sd0 ctx desired_access gm previous_granted =
     (case effective_token ctx of None \<Rightarrow> (Denied, 0)
      | Some t \<Rightarrow>
          let access = map_generic gm (desired_access OR previous_granted)
          in (case sd0 of None \<Rightarrow> (Denied, 0)
              | Some sd \<Rightarrow>
                  let result = check_access access t (sd_owner sd) (sd_dacl sd) (Some gm)
                  in (result, case result of Allowed \<Rightarrow> access | Denied \<Rightarrow> previous_granted)))"

definition se_valid_security_descriptor :: "u32 \<Rightarrow> sec_desc option \<Rightarrow> bool" where
  "se_valid_security_descriptor len sd0 = (case sd0 of None \<Rightarrow> False | Some sd \<Rightarrow> sec_desc_is_valid sd)"

definition copy_dacl :: "acl option \<Rightarrow> pool \<Rightarrow> acl option \<times> pool" where
  "copy_dacl dacl p = (case dacl of None \<Rightarrow> (None, p)
     | Some a \<Rightarrow> (case pool_allocate p of (False, p1) \<Rightarrow> (None, p1) | (True, p1) \<Rightarrow> (Some a, p1)))"

definition with_dacl :: "acl option \<Rightarrow> sec_desc \<Rightarrow> sec_desc" where
  "with_dacl d sd = sd\<lparr>sd_dacl := d, sd_control := sd_control sd OR SE_DACL_PRESENT\<rparr>"

definition assign_dacl ::
  "sec_desc option \<Rightarrow> sec_desc option \<Rightarrow> token option \<Rightarrow> sec_desc \<Rightarrow> pool \<Rightarrow> sec_desc \<times> pool" where
  "assign_dacl parent explicit tok0 sd p = (case explicit of
     Some e \<Rightarrow> (case copy_dacl (sd_dacl e) p of (d, p1) \<Rightarrow> (with_dacl d sd, p1))
   | None \<Rightarrow> (case parent of
       Some pd \<Rightarrow> (case copy_dacl (sd_dacl pd) p of (d, p1) \<Rightarrow> (with_dacl d sd, p1))
     | None \<Rightarrow> (case tok0 of None \<Rightarrow> (sd, p)
         | Some t \<Rightarrow> (case from_token t p of
             (None, p1) \<Rightarrow> (sd, p1)
           | (Some token_sd, p1) \<Rightarrow> (with_dacl (sd_dacl token_sd) sd, pool_free p1)))))"

definition se_assign_security ::
  "sec_desc option \<Rightarrow> sec_desc option \<Rightarrow> bool \<Rightarrow> token option \<Rightarrow> pool \<Rightarrow> sec_desc option \<times> pool" where
  "se_assign_security parent explicit is_directory tok0 p = (case pool_allocate p of
     (False, p1) \<Rightarrow> (None, p1)
   | (True, p1) \<Rightarrow>
       let sd0 = zeroed_sec_desc\<lparr>sd_revision := 1, sd_sbz1 := 0, sd_control := 0\<rparr>;
           sd1 = (case explicit of Some e \<Rightarrow> sd0\<lparr>sd_owner := sd_owner e\<rparr>
                  | None \<Rightarrow> (case tok0 of Some t \<Rightarrow> sd0\<lparr>sd_owner := user t\<rparr> | None \<Rightarrow> sd0));
           sd2 = (case explicit of Some e \<Rightarrow> sd1\<lparr>sd_group := sd_group e\<rparr>
                  | None \<Rightarrow> (case tok0 of Some t \<Rightarrow> sd1\<lparr>sd_group := primary_group t\<rparr> | None \<Rightarrow> sd1))
       in (case assign_dacl parent explicit tok0 sd2 p1 of (sd3, p2) \<Rightarrow>
             (case tok0 of None \<Rightarrow> (Some sd3, p2)
              | Some _ \<Rightarrow>
                  (case se_set_object_integrity_level (Some sd3) (se_token_integrity_level tok0)
                          SYSTEM_MANDATORY_LABEL_NO_WRITE_UP p2 of
                     (_, sd4, p3) \<Rightarrow> (sd4, p3)))))"

text \<open>
  \<open>None\<close> is the null double pointer; the inner option is the descriptor pointer.
\<close>

definition se_deassign_security :: "sec_desc option option \<Rightarrow> pool \<Rightarrow> sec_desc option option \<times> pool" where
  "se_deassign_security sdp p = (case sdp of None \<Rightarrow> (None, p)
     | Some None \<Rightarrow> (Some None, p)
     | Some (Some sd) \<Rightarrow> (Some None, pool_free p))"

definition OWNER_SECURITY_INFORMATION :: u32 where [se_consts]: "OWNER_SECURITY_INFORMATION = 0x00000001"
definition GROUP_SECURITY_INFORMATION :: u32 where [se_consts]: "GROUP_SECURITY_INFORMATION = 0x00000002"
definition DACL_SECURITY_INFORMATION :: u32 where [se_consts]: "DACL_SECURITY_INFORMATION = 0x00000004"
definition SACL_SECURITY_INFORMATION :: u32 where [se_consts]: "SACL_SECURITY_INFORMATION = 0x00000008"

definition se_query_security_descriptor_info ::
  "u32 \<Rightarrow> sec_desc option \<Rightarrow> u32 option \<Rightarrow> bool \<times> u32 option" where
  "se_query_security_descriptor_info info sd0 out_len = (case (sd0, out_len) of
     (Some sd, Some _) \<Rightarrow>
       let r1 = (if info AND OWNER_SECURITY_INFORMATION \<noteq> 0 then of_nat (sid_size (sd_owner sd)) else 0);
           r2 = (if info AND GROUP_SECURITY_INFORMATION \<noteq> 0 then of_nat (sid_size (sd_group sd)) else 0);
           r3 = (case sd_dacl sd of None \<Rightarrow> 0 | Some a \<Rightarrow>
                  if info AND DACL_SECURITY_INFORMATION \<noteq> 0 then of_nat (acl_size_usize a) else 0);
           r4 = (case sd_sacl sd of None \<Rightarrow> 0 | Some a \<Rightarrow>
                  if info AND SACL_SECURITY_INFORMATION \<noteq> 0 then of_nat (acl_size_usize a) else 0)
       in (True, Some (20 + r1 + r2 + r3 + r4))
   | _ \<Rightarrow> (False, out_len))"

definition set_parts :: "u32 \<Rightarrow> sec_desc \<Rightarrow> sec_desc \<Rightarrow> sec_desc" where
  "set_parts info m sd =
     (let s1 = (if info AND OWNER_SECURITY_INFORMATION \<noteq> 0 then sd\<lparr>sd_owner := sd_owner m\<rparr> else sd);
          s2 = (if info AND GROUP_SECURITY_INFORMATION \<noteq> 0 then s1\<lparr>sd_group := sd_group m\<rparr> else s1);
          s3 = (if info AND DACL_SECURITY_INFORMATION \<noteq> 0
                then s2\<lparr>sd_dacl := sd_dacl m, sd_control := sd_control s2 OR SE_DACL_PRESENT\<rparr> else s2)
      in if info AND SACL_SECURITY_INFORMATION \<noteq> 0
         then s3\<lparr>sd_sacl := sd_sacl m, sd_control := sd_control s3 OR SE_SACL_PRESENT\<rparr> else s3)"

definition se_set_security_descriptor_info ::
  "u32 \<Rightarrow> sec_desc option \<Rightarrow> sec_desc option option \<Rightarrow> pool \<Rightarrow> bool \<times> sec_desc option option \<times> pool" where
  "se_set_security_descriptor_info info modification object_descriptor p =
     (case (object_descriptor, modification) of
        (Some current, Some m) \<Rightarrow> (case current of
            Some sd \<Rightarrow> (True, Some (Some (set_parts info m sd)), p)
          | None \<Rightarrow> (case pool_allocate p of
              (False, p1) \<Rightarrow> (False, Some None, p1)
            | (True, p1) \<Rightarrow> (True, Some (Some (set_parts info m
                (zeroed_sec_desc\<lparr>sd_revision := 1, sd_sbz1 := 0, sd_control := 0\<rparr>))), p1)))
      | _ \<Rightarrow> (False, object_descriptor, p))"

section \<open>The captured context\<close>

lemma effective_token_capture:
  "effective_token (capture thread) = (case thread of None \<Rightarrow> None
     | Some (Some t, _) \<Rightarrow> Some t
     | Some (None, Some tok) \<Rightarrow> tok
     | Some (None, None) \<Rightarrow> None)"
  by (auto simp: effective_token_def capture_def subject_context_new_def Let_def
      split: option.splits prod.splits)

lemma effective_token_release [simp]: "effective_token (release_context ctx) = None"
  by (simp add: effective_token_def release_context_def)

section \<open>The monitor's decision\<close>

lemma monitor_allowed_iff:
  "fst (se_access_check_with_context sd0 ctx d gm prev) = Allowed \<longleftrightarrow>
     (\<exists>t sd. effective_token ctx = Some t \<and> sd0 = Some sd
       \<and> check_access (map_generic gm (d OR prev)) t (sd_owner sd) (sd_dacl sd) (Some gm) = Allowed)"
  by (auto simp: se_access_check_with_context_def Let_def split: option.splits)

lemma monitor_weaker:
  assumes "effective_token ctx' = Some t'" "effective_token ctx = Some t" "weaker t' t"
    "wf_token t" "wf_token t'" "\<forall>a. sd_dacl sd = Some a \<longrightarrow> wf_acl a"
    "fst (se_access_check_with_context (Some sd) ctx' d gm prev) = Allowed"
  shows "se_access_check_with_context (Some sd) ctx d gm prev
    = se_access_check_with_context (Some sd) ctx' d gm prev"
proof -
  let ?a = "map_generic gm (d OR prev)"
  have a': "check_access ?a t' (sd_owner sd) (sd_dacl sd) (Some gm) = Allowed"
    using assms(1,7) by (auto simp: monitor_allowed_iff)
  obtain r' where "check_access_with_granted ?a t' (sd_owner sd) (sd_dacl sd) (Some gm) = (Allowed, r')"
    using a' by (cases "check_access_with_granted ?a t' (sd_owner sd) (sd_dacl sd) (Some gm)")
      (simp add: check_access_def)
  then obtain r where "check_access_with_granted ?a t (sd_owner sd) (sd_dacl sd) (Some gm) = (Allowed, r)"
    using check_access_weaker [OF assms(3-6)] by blast
  then have "check_access ?a t (sd_owner sd) (sd_dacl sd) (Some gm) = Allowed" by (simp add: check_access_def)
  with a' assms(1,2) show ?thesis by (simp add: se_access_check_with_context_def Let_def)
qed

section \<open>Assigning a descriptor\<close>

lemma assign_dacl_keeps:
  assumes "assign_dacl parent explicit tok0 sd p = (sd', p')"
  shows "sd_sacl sd' = sd_sacl sd" "sd_owner sd' = sd_owner sd"
  using assms by (auto simp: assign_dacl_def with_dacl_def split: option.splits prod.splits)

lemma se_assign_level:
  assumes "se_assign_security parent explicit dir (Some t) p = (Some sd, p')" "sd_sacl sd \<noteq> None"
  shows "se_get_object_integrity_level (Some sd) = integrity_level_rid t"
proof -
  obtain sd2 sd3 p1 p2 where a: "assign_dacl parent explicit (Some t) sd2 p1 = (sd3, p2)" "sd_sacl sd2 = None"
    and s: "se_set_object_integrity_level (Some sd3) (integrity_level_rid t)
        SYSTEM_MANDATORY_LABEL_NO_WRITE_UP p2 = (fst (se_set_object_integrity_level (Some sd3)
          (integrity_level_rid t) SYSTEM_MANDATORY_LABEL_NO_WRITE_UP p2), Some sd, p')"
    using assms(1)
    by (auto simp: se_assign_security_def Let_def zeroed_sec_desc_def se_token_integrity_level_def
        split: prod.splits bool.splits option.splits)
  have n: "sd_sacl sd3 = None" using assign_dacl_keeps(1) [OF a(1)] a(2) by simp
  obtain c where c: "se_set_object_integrity_level (Some sd3) (integrity_level_rid t)
      SYSTEM_MANDATORY_LABEL_NO_WRITE_UP p2 = (case pool_allocate p2 of
       (False, q) \<Rightarrow> (False, Some sd3, q)
     | (True, q) \<Rightarrow> (True, Some (sd3\<lparr>sd_sacl := Some c, sd_control := sd_control sd3 OR SE_SACL_PRESENT\<rparr>), q))"
    by (rule se_set_object_integrity_level_cases)
  have "fst (se_set_object_integrity_level (Some sd3) (integrity_level_rid t)
      SYSTEM_MANDATORY_LABEL_NO_WRITE_UP p2)"
    using s c n assms(2) by (auto split: prod.splits bool.splits)
  then show ?thesis using object_level_round_trip(1) s by metis
qed

section \<open>Properties\<close>

text \<open>
  C35: The monitor's decision is monotone in the token: with the same descriptor and
  request, what a weaker effective token is allowed, the stronger one is allowed too,
  with the same granted mask.
\<close>

theorem monitor_monotone:
  assumes "effective_token ctx' = Some t'" "effective_token ctx = Some t" "weaker t' t"
    "wf_token t" "wf_token t'" "\<forall>a. sd_dacl sd = Some a \<longrightarrow> wf_acl a"
    "fst (se_access_check_with_context (Some sd) ctx' d gm prev) = Allowed"
  shows "se_access_check_with_context (Some sd) ctx d gm prev
    = se_access_check_with_context (Some sd) ctx' d gm prev"
  using assms by (rule monitor_weaker)

theorem monitor_monotone_witness:
  "se_access_check_with_context (Some zeroed_sec_desc) (capture (Some (Some (new_primary SID_USERS), None))) 1
      FILE_GENERIC_MAPPING 0
    = se_access_check_with_context (Some zeroed_sec_desc)
        (capture (Some (Some ((new_primary SID_USERS)\<lparr>tok_flags := 8\<rparr>), None))) 1 FILE_GENERIC_MAPPING 0"
proof (rule monitor_monotone [where t = "new_primary SID_USERS" and t' = "(new_primary SID_USERS)\<lparr>tok_flags := 8\<rparr>"])
  have u: "wf_sid SID_USERS" unfolding SID_USERS_def by (rule wf_well_known)
  show "wf_token (new_primary SID_USERS)" "wf_token ((new_primary SID_USERS)\<lparr>tok_flags := 8\<rparr>)"
    using wf_new_primary [OF u] by (simp_all add: token_adding)
  show "weaker ((new_primary SID_USERS)\<lparr>tok_flags := 8\<rparr>) (new_primary SID_USERS)"
    by (simp add: weaker_defs token_adding)
qed (simp_all add: effective_token_capture zeroed_sec_desc_def se_access_check_with_context_def Let_def check_access_def
    check_access_with_granted_def)

text \<open>
  A new object carries the integrity level of its creator whenever the label could
  be allocated.
\<close>

theorem assigned_object_level:
  assumes "se_assign_security parent explicit dir (Some t) p = (Some sd, p')" "sd_sacl sd \<noteq> None"
  shows "se_get_object_integrity_level (Some sd) = integrity_level_rid t"
  using assms by (rule se_assign_level)

theorem assigned_object_level_witness:
  "\<exists>sd p'. se_assign_security None (Some zeroed_sec_desc) False (Some token_new)
       \<lparr>pool_script = [True, True], pool_live = 0\<rparr> = (Some sd, p')
     \<and> se_get_object_integrity_level (Some sd) = SECURITY_MANDATORY_MEDIUM"
proof -
  let ?p = "\<lparr>pool_script = [True], pool_live = Suc 0\<rparr>"
  let ?sd = "with_dacl None (zeroed_sec_desc\<lparr>sd_revision := 1, sd_sbz1 := 0, sd_control := 0,
     sd_owner := sd_owner zeroed_sec_desc, sd_group := sd_group zeroed_sec_desc\<rparr>)"
  obtain a where a: "se_set_object_integrity_level (Some ?sd) (se_token_integrity_level (Some token_new))
      SYSTEM_MANDATORY_LABEL_NO_WRITE_UP ?p = (case pool_allocate ?p of
       (False, p1) \<Rightarrow> (False, Some ?sd, p1)
     | (True, p1) \<Rightarrow> (True, Some (?sd\<lparr>sd_sacl := Some a, sd_control := sd_control ?sd OR SE_SACL_PRESENT\<rparr>), p1))"
    by (rule se_set_object_integrity_level_cases)
  obtain sd p' where s: "se_assign_security None (Some zeroed_sec_desc) False (Some token_new)
       \<lparr>pool_script = [True, True], pool_live = 0\<rparr> = (Some sd, p')" "sd_sacl sd \<noteq> None"
    using a by (simp add: se_assign_security_def assign_dacl_def copy_dacl_def pool_allocate_def Let_def
        zeroed_sec_desc_def)
  have "integrity_level_rid token_new = SECURITY_MANDATORY_MEDIUM" by (simp add: token_new_def)
  with assigned_object_level [OF s] s(1) show ?thesis by auto
qed

text \<open>
  Assigning the default descriptor to a new object and taking it away again leaves
  three pool blocks allocated: the list, the label list that the template built, and
  the object's own label list.
\<close>

theorem assign_deassign_leaks:
  assumes "wf_token t" "sid_is_valid (user t)" "pool_script p = [True, True, True, True, True]"
  shows "\<exists>sd p1. se_assign_security None None dir (Some t) p = (Some sd, p1)
    \<and> pool_live (snd (se_deassign_security (Some (Some sd)) p1)) = pool_live p + 3"
proof -
  have live: "\<exists>sd2 q. from_token t q0 = (Some sd2, q) \<and> pool_live q = pool_live q0 + 3 \<and> pool_script q = [True]"
    if q0: "pool_script q0 = [True, True, True, True]" for q0
  proof -
    let ?q1 = "q0\<lparr>pool_script := [True, True, True], pool_live := Suc (pool_live q0)\<rparr>"
    let ?q2 = "q0\<lparr>pool_script := [True, True], pool_live := Suc (Suc (pool_live q0))\<rparr>"
    obtain a where a: "build_dacl_from_token t ?q1 = (case pool_allocate ?q1 of
        (False, p1) \<Rightarrow> (None, p1) | (True, p1) \<Rightarrow> (Some a, p1))"
      by (rule build_dacl_entries [OF assms(1,2)])
    let ?sd = "zeroed_sec_desc\<lparr>sd_revision := 1, sd_sbz1 := 0, sd_control := 0x8004,
                sd_owner := user t, sd_group := primary_group t, sd_dacl := Some a\<rparr>"
    obtain c where "se_set_object_integrity_level (Some ?sd) (se_token_integrity_level (Some t))
      SYSTEM_MANDATORY_LABEL_NO_WRITE_UP ?q2 = (case pool_allocate ?q2 of
       (False, p1) \<Rightarrow> (False, Some ?sd, p1)
     | (True, p1) \<Rightarrow> (True, Some (?sd\<lparr>sd_sacl := Some c, sd_control := sd_control ?sd OR SE_SACL_PRESENT\<rparr>), p1))"
      by (rule se_set_object_integrity_level_cases)
    with a q0 show ?thesis by (simp add: from_token_def pool_allocate_def Let_def)
  qed
  let ?p1 = "p\<lparr>pool_script := [True, True, True, True], pool_live := Suc (pool_live p)\<rparr>"
  obtain tsd q where f: "from_token t ?p1 = (Some tsd, q)" "pool_live q = 4 + pool_live p" "pool_script q = [True]"
    using live [of ?p1] by auto
  let ?sd = "with_dacl (sd_dacl tsd) (zeroed_sec_desc\<lparr>sd_revision := 1, sd_sbz1 := 0, sd_control := 0,
     sd_owner := user t, sd_group := primary_group t\<rparr>)"
  obtain c where "se_set_object_integrity_level (Some ?sd) (se_token_integrity_level (Some t))
      SYSTEM_MANDATORY_LABEL_NO_WRITE_UP (pool_free q) = (case pool_allocate (pool_free q) of
       (False, p1) \<Rightarrow> (False, Some ?sd, p1)
     | (True, p1) \<Rightarrow> (True, Some (?sd\<lparr>sd_sacl := Some c, sd_control := sd_control ?sd OR SE_SACL_PRESENT\<rparr>), p1))"
    by (rule se_set_object_integrity_level_cases)
  with f assms(3) show ?thesis
    by (simp add: se_assign_security_def assign_dacl_def pool_allocate_def pool_free_def Let_def
        se_deassign_security_def)
qed

theorem assign_deassign_leaks_witness:
  "\<exists>sd p1. se_assign_security None None False (Some (new_primary (well_known Users)))
        \<lparr>pool_script = [True, True, True, True, True], pool_live = 0\<rparr> = (Some sd, p1)
    \<and> pool_live (snd (se_deassign_security (Some (Some sd)) p1)) = 3"
proof -
  have "wf_token (new_primary (well_known Users))" by (rule wf_new_primary [OF wf_well_known])
  moreover have "sid_is_valid (user (new_primary (well_known Users)))"
    using valid_well_known [of Users] by (simp only: token_adding)
  ultimately show ?thesis
    using assign_deassign_leaks [of "new_primary (well_known Users)"
        "\<lparr>pool_script = [True, True, True, True, True], pool_live = 0\<rparr>" False] by simp
qed

end
