(* ===== verification/App_Container.thy ===== *)
theory App_Container
  imports Token_Mgmt
begin

text \<open>
  Application containers, \<open>src/nt61/src/se/appcontainer.rs\<close>: package and capability
  identifiers, the token of a container derived from a parent token, the capability
  query and the resource check, and the bounded capability list of a process
  attribute block.  Lemmas: capability identifiers are injective and never collide
  with package identifiers, a container token holds exactly the capabilities that
  were granted while groups were free, and none of its privileges is enabled.
\<close>

definition TOKEN_IS_APP_CONTAINER :: u32 where [se_consts]: "TOKEN_IS_APP_CONTAINER = 0x00000001"
definition TOKEN_IS_APP_SILO :: u32 where [se_consts]: "TOKEN_IS_APP_SILO = 0x00000002"

definition CAPABILITY_INTERNET_CLIENT :: u32 where [se_consts]: "CAPABILITY_INTERNET_CLIENT = 1"
definition CAPABILITY_PRIVATE_NETWORK_CLIENT_SERVER :: u32 where
  [se_consts]: "CAPABILITY_PRIVATE_NETWORK_CLIENT_SERVER = 3"
definition CAPABILITY_PICTURES_LIBRARY :: u32 where [se_consts]: "CAPABILITY_PICTURES_LIBRARY = 4"
definition CAPABILITY_VIDEOS_LIBRARY :: u32 where [se_consts]: "CAPABILITY_VIDEOS_LIBRARY = 5"
definition CAPABILITY_MUSIC_LIBRARY :: u32 where [se_consts]: "CAPABILITY_MUSIC_LIBRARY = 6"
definition CAPABILITY_DOCUMENTS_LIBRARY :: u32 where [se_consts]: "CAPABILITY_DOCUMENTS_LIBRARY = 7"
definition CAPABILITY_ENTERPRISE_AUTHENTICATION :: u32 where
  [se_consts]: "CAPABILITY_ENTERPRISE_AUTHENTICATION = 8"
definition CAPABILITY_REMOVABLE_STORAGE :: u32 where [se_consts]: "CAPABILITY_REMOVABLE_STORAGE = 0xA"

definition create_capability_sid :: "u32 \<Rightarrow> sid" where
  "create_capability_sid capability_rid =
     with_authority_and_subs_arr [0, 0, 0, 0, 0, 15] 2 3 capability_rid 0 0 0 0 0 0"

text \<open>A \<open>&str\<close> is the list of its bytes.\<close>

definition simple_string_hash :: "string \<Rightarrow> u32" where
  "simple_string_hash s = fold (\<lambda>byte hash. hash * 31 + of_nat (of_char byte)) s 0"

definition create_app_container_sid :: "string \<Rightarrow> sid" where
  "create_app_container_sid package_name = (let hash = simple_string_hash package_name in
     with_authority_and_subs_arr [0, 0, 0, 0, 0, 15] 2 2 hash 0 0 0 0 0 0)"

definition se_token_is_app_container :: "token option \<Rightarrow> bool" where
  "se_token_is_app_container tok0 = (case tok0 of None \<Rightarrow> False
     | Some t \<Rightarrow> tok_flags t AND TOKEN_IS_APP_CONTAINER \<noteq> 0)"

definition capability_group :: "u32 \<Rightarrow> token_group" where
  "capability_group cap_rid = \<lparr>grp_sid = create_capability_sid cap_rid,
     grp_attributes = SE_GROUP_ENABLED OR SE_GROUP_ENABLED_BY_DEFAULT\<rparr>"

definition disable_privilege_at :: "nat \<Rightarrow> token \<Rightarrow> token" where
  "disable_privilege_at i t = (let p = privileges t ! i in
     t\<lparr>privileges := (privileges t)[i :=
        p\<lparr>prv_attributes := prv_attributes p AND NOT SE_PRIVILEGE_ENABLED\<rparr>]\<rparr>)"

definition se_create_app_container_token ::
  "token option \<Rightarrow> sid \<Rightarrow> u32 list \<Rightarrow> se_state \<Rightarrow> token option \<times> se_state" where
  "se_create_app_container_token parent package_sid caps st = (case parent of None \<Rightarrow> (None, st)
     | Some pt \<Rightarrow> (case se_duplicate_token parent (impersonation_level pt) (token_type pt) st of
         (None, st1) \<Rightarrow> (None, st1)
       | (Some d, st1) \<Rightarrow>
           let t1 = d\<lparr>tok_flags := tok_flags d OR TOKEN_IS_APP_CONTAINER\<rparr>;
               t2 = t1\<lparr>user := package_sid\<rparr>;
               t3 = fold (\<lambda>cap_rid t. add_group (capability_group cap_rid) t) caps t2
           in (Some (fold disable_privilege_at [0..<privilege_count t3] t3), st1)))"

definition se_query_app_container_info :: "token option \<Rightarrow> (sid \<times> sid list) option" where
  "se_query_app_container_info tok0 = (if \<not> se_token_is_app_container tok0 then None
     else case tok0 of None \<Rightarrow> None
     | Some t \<Rightarrow> Some (user t, filter (\<lambda>s. identifier_authority_u64 s = 15
          \<and> 1 \<le> sub_authority_count s \<and> sub_authority s ! 0 = 3)
          (map (\<lambda>i. grp_sid (groups t ! i)) [0..<group_count t])))"

definition se_token_has_capability :: "token option \<Rightarrow> u32 \<Rightarrow> bool" where
  "se_token_has_capability tok0 capability_rid = (if \<not> se_token_is_app_container tok0 then False
     else case tok0 of None \<Rightarrow> False
     | Some t \<Rightarrow> let cap_sid = create_capability_sid capability_rid in
         list_ex (\<lambda>i. sid_equals (grp_sid (groups t ! i)) cap_sid
           \<and> grp_attributes (groups t ! i) AND SE_GROUP_ENABLED \<noteq> 0) [0..<group_count t])"

datatype app_container_resource_type =
    ResNetwork | ResPrivateNetwork | ResPicturesLibrary | ResVideosLibrary | ResMusicLibrary
  | ResDocumentsLibrary | ResRemovableStorage | ResEnterpriseAuth

primrec required_capability :: "app_container_resource_type \<Rightarrow> u32" where
  "required_capability ResNetwork = CAPABILITY_INTERNET_CLIENT"
| "required_capability ResPrivateNetwork = CAPABILITY_PRIVATE_NETWORK_CLIENT_SERVER"
| "required_capability ResPicturesLibrary = CAPABILITY_PICTURES_LIBRARY"
| "required_capability ResVideosLibrary = CAPABILITY_VIDEOS_LIBRARY"
| "required_capability ResMusicLibrary = CAPABILITY_MUSIC_LIBRARY"
| "required_capability ResDocumentsLibrary = CAPABILITY_DOCUMENTS_LIBRARY"
| "required_capability ResRemovableStorage = CAPABILITY_REMOVABLE_STORAGE"
| "required_capability ResEnterpriseAuth = CAPABILITY_ENTERPRISE_AUTHENTICATION"

definition se_app_container_access_check ::
  "token option \<Rightarrow> u32 \<Rightarrow> app_container_resource_type \<Rightarrow> bool" where
  "se_app_container_access_check tok0 desired_access resource_type =
     (if \<not> se_token_is_app_container tok0 then True
      else se_token_has_capability tok0 (required_capability resource_type))"

definition se_derive_app_container_sid_from_name :: "string \<Rightarrow> pool \<Rightarrow> sid option \<times> pool" where
  "se_derive_app_container_sid_from_name package_name p = (case pool_allocate p of
     (False, p1) \<Rightarrow> (None, p1) | (True, p1) \<Rightarrow> (Some (create_app_container_sid package_name), p1))"

record security_attributes =
  app_container_sid :: sid
  sa_capabilities :: "sid list"
  capability_count :: nat

definition security_attributes_new :: security_attributes where
  "security_attributes_new = \<lparr>app_container_sid = sid_new, sa_capabilities = replicate 16 sid_new,
     capability_count = 0\<rparr>"

definition add_capability :: "u32 \<Rightarrow> security_attributes \<Rightarrow> bool \<times> security_attributes" where
  "add_capability capability_rid sa = (if 16 \<le> capability_count sa then (False, sa)
     else (True, sa\<lparr>sa_capabilities := (sa_capabilities sa)[capability_count sa := create_capability_sid capability_rid],
                   capability_count := capability_count sa + 1\<rparr>))"

section \<open>Identifiers\<close>

lemma wf_create_capability_sid [wf_intros]: "wf_sid (create_capability_sid c)"
  by (simp add: create_capability_sid_def wf_with_authority_and_subs_arr)

lemma wf_create_app_container_sid [wf_intros]: "wf_sid (create_app_container_sid n)"
  by (simp add: create_app_container_sid_def Let_def wf_with_authority_and_subs_arr)

lemma capability_sid_parts [simp]:
  "sid_revision (create_capability_sid c) = 1" "sub_authority_count (create_capability_sid c) = 2"
  "sub_authority (create_capability_sid c) = [3, c, 0, 0, 0, 0, 0, 0]"
  "subauthority_count (create_capability_sid c) = 2"
  by (simp_all add: create_capability_sid_def with_authority_and_subs_arr_def subauthority_count_def se_consts)

lemma capability_sid_inject: "sid_equals (create_capability_sid a) (create_capability_sid b) \<longleftrightarrow> a = b"
  by (simp add: sid_equals_iff wf_intros numeral_2_eq_2)
    (auto simp: create_capability_sid_def)

lemma capability_sid_not_package:
  "\<not> sid_equals (create_capability_sid c) (create_app_container_sid n)"
proof -
  have "subauthority_count (create_app_container_sid n) = 2"
    "sub_authority (create_app_container_sid n) ! 0 = 2"
    by (simp_all add: create_app_container_sid_def with_authority_and_subs_arr_def Let_def
        subauthority_count_def se_consts)
  then show ?thesis by (auto simp: sid_equals_def list_all_iff intro!: bexI [of _ 0])
qed

section \<open>The container token\<close>

lemma app_container_flag: "(x OR TOKEN_IS_APP_CONTAINER) AND TOKEN_IS_APP_CONTAINER \<noteq> 0"
  by (simp add: se_consts bit.conj_disj_distrib2)

lemma fold_disable_privileges:
  assumes "wf_token t"
  shows "fold disable_privilege_at [0..<privilege_count t] t = map_privileges disabled_privilege t"
  unfolding map_privileges_def token_privileges_def
  using wf_tokenD(6,7) [OF assms]
  by (intro fold_privileges_map) (simp_all add: disable_privilege_at_def disabled_privilege_def Let_def)

lemma fold_add_groups:
  assumes "wf_token t" "\<forall>g \<in> set gs. wf_sid (grp_sid g)"
  shows "wf_token (fold add_group gs t)
    \<and> token_groups (fold add_group gs t) = token_groups t @ take (16 - group_count t) gs
    \<and> tok_flags (fold add_group gs t) = tok_flags t \<and> user (fold add_group gs t) = user t"
  using assms
proof (induction gs arbitrary: t)
  case (Cons g gs)
  have wf: "wf_token (add_group g t)" using Cons.prems by (simp add: wf_add_group)
  have le: "group_count t \<le> 16" by (rule wf_tokenD(4) [OF Cons.prems(1)])
  show ?case
  proof (cases "group_count t < 16")
    case True
    then have "16 - group_count t = Suc (16 - group_count (add_group g t))"
      by (simp add: add_group_def se_consts)
    moreover have "token_groups (add_group g t) = token_groups t @ [g]"
      "tok_flags (add_group g t) = tok_flags t" "user (add_group g t) = user t"
      using True token_groups_add [OF Cons.prems(1), of g]
      by (simp_all add: se_consts) (simp_all add: add_group_def)
    ultimately show ?thesis using Cons.IH [OF wf] Cons.prems(2) by simp
  next
    case False
    then have "add_group g t = t" "16 - group_count t = 0" using le by (simp_all add: add_group_def se_consts)
    with Cons.IH [OF Cons.prems(1)] Cons.prems(2) show ?thesis by simp
  qed
qed simp

text \<open>What the container token is made of.\<close>

lemma se_create_app_container_token_Some:
  assumes "se_create_app_container_token (Some pt) pkg caps st = (Some t, st')"
    "wf_token pt" "wf_sid pkg"
  shows "wf_token t" "user t = pkg" "se_token_is_app_container (Some t)"
    "token_groups t = token_groups pt @ map capability_group (take (16 - group_count pt) caps)"
    "\<And>p. p \<in> set (token_privileges t) \<Longrightarrow> \<not> prv_is_enabled p"
proof -
  obtain d where d: "se_duplicate_token (Some pt) (impersonation_level pt) (token_type pt) st = (Some d, st')"
    and t: "t = (let t3 = fold (\<lambda>c t. add_group (capability_group c) t) caps
        (d\<lparr>tok_flags := tok_flags d OR TOKEN_IS_APP_CONTAINER, user := pkg\<rparr>)
      in fold disable_privilege_at [0..<privilege_count t3] t3)"
    using assms(1)
    by (auto simp: se_create_app_container_token_def Let_def split: prod.splits option.splits)
  let ?d = "d\<lparr>tok_flags := tok_flags d OR TOKEN_IS_APP_CONTAINER, user := pkg\<rparr>"
  have wfd: "wf_token ?d" using wf_duplicate [OF assms(2) d] assms(3) by (simp add: wf_token_def)
  have gd: "token_groups ?d = token_groups pt" "group_count ?d = group_count pt"
    using se_duplicate_token_Some(1) [OF d] by (simp_all add: token_groups_def)
  define t3 where "t3 = fold add_group (map capability_group caps) ?d"
  have t3: "wf_token t3 \<and> token_groups t3 = token_groups ?d @ take (16 - group_count ?d) (map capability_group caps)
      \<and> tok_flags t3 = tok_flags ?d \<and> user t3 = user ?d"
    unfolding t3_def by (rule fold_add_groups [OF wfd]) (simp add: capability_group_def wf_intros)
  have eq: "t = map_privileges disabled_privilege t3"
    using t fold_disable_privileges [of t3] t3 by (simp add: t3_def fold_map comp_def Let_def)
  show "wf_token t" "user t = pkg"
    "token_groups t = token_groups pt @ map capability_group (take (16 - group_count pt) caps)"
    using t3 gd by (simp_all add: eq wf_map_privileges take_map)
  have "tok_flags t = tok_flags d OR TOKEN_IS_APP_CONTAINER" using t3 by (simp add: eq map_privileges_def)
  then show "se_token_is_app_container (Some t)"
    by (simp add: se_token_is_app_container_def) (simp add: se_consts)
  show "\<not> prv_is_enabled p" if "p \<in> set (token_privileges t)" for p
    using that t3 by (auto simp: eq)
qed

lemma has_capability_iff:
  assumes "wf_token t" "se_token_is_app_container (Some t)"
  shows "se_token_has_capability (Some t) c \<longleftrightarrow>
    (\<exists>g \<in> set (token_groups t). sid_equals (grp_sid g) (create_capability_sid c) \<and> grp_is_enabled g)"
  using list_ex_upt_take [of "group_count t" "groups t"
      "\<lambda>g. sid_equals (grp_sid g) (create_capability_sid c) \<and> grp_attributes g AND SE_GROUP_ENABLED \<noteq> 0"]
    wf_tokenD(3,4) [OF assms(1)] assms(2)
  by (simp add: se_token_has_capability_def token_groups_def grp_is_enabled_def Let_def)

text \<open>
  A container token passes the check of a resource exactly when the capability was
  among those that found a free group, or was held by the parent already.
\<close>

lemma app_container_check_iff:
  assumes "se_create_app_container_token (Some pt) pkg caps st = (Some t, st')"
    "wf_token pt" "wf_sid pkg"
    "\<forall>g \<in> set (token_groups pt). \<not> sid_equals (grp_sid g) (create_capability_sid (required_capability r))"
  shows "se_app_container_access_check (Some t) d r \<longleftrightarrow>
    required_capability r \<in> set (take (16 - group_count pt) caps)"
proof -
  note t = se_create_app_container_token_Some [OF assms(1-3)]
  have en: "grp_is_enabled (capability_group c)" "grp_sid (capability_group c) = create_capability_sid c" for c
    by (simp_all add: capability_group_def grp_is_enabled_def se_consts)
  have "se_token_has_capability (Some t) (required_capability r) \<longleftrightarrow>
      required_capability r \<in> set (take (16 - group_count pt) caps)"
    unfolding has_capability_iff [OF t(1,3)] t(4)
    using assms(4) by (simp add: bex_Un en capability_sid_inject)
  with t(3) show ?thesis by (simp add: se_app_container_access_check_def)
qed

section \<open>The capability list of an attribute block\<close>

definition capabilities_rep :: "security_attributes \<Rightarrow> sid list \<Rightarrow> bool" where
  "capabilities_rep sa ss \<longleftrightarrow> length (sa_capabilities sa) = 16 \<and> capability_count sa \<le> 16
     \<and> take (capability_count sa) (sa_capabilities sa) = ss"

interpretation capability_store: append_store capabilities_rep add_capability create_capability_sid
  "\<lambda>_. True" "\<lambda>_ sa. capability_count sa < 16"
  by unfold_locales (auto simp: capabilities_rep_def add_capability_def take_Suc_conv_app_nth)

lemma capabilities_rep_new: "capabilities_rep security_attributes_new []"
  by (simp add: capabilities_rep_def security_attributes_new_def)

lemma add_capabilities_rep:
  "\<exists>ws. capabilities_rep (fold (\<lambda>c sa. snd (add_capability c sa)) cs security_attributes_new) ws
     \<and> subseq ws (map create_capability_sid cs)"
  using capability_store.add_list_rep [OF capabilities_rep_new, of cs] by simp

section \<open>Properties\<close>

text \<open>
  A container token runs as the package, has every privilege disabled, and passes
  the check of a resource exactly when the required capability was requested while a
  group slot was still free (for a parent that does not itself hold the capability);
  capabilities beyond the sixteen groups are dropped.
\<close>

theorem app_container_capabilities:
  assumes "se_create_app_container_token (Some pt) pkg caps st = (Some t, st')"
    "wf_token pt" "wf_sid pkg"
    "\<forall>g \<in> set (token_groups pt). \<not> sid_equals (grp_sid g) (create_capability_sid (required_capability r))"
  shows "user t = pkg \<and> (\<forall>l. \<not> has_privilege l t)
    \<and> (se_app_container_access_check (Some t) d r \<longleftrightarrow>
        required_capability r \<in> set (take (16 - group_count pt) caps))"
  using se_create_app_container_token_Some [OF assms(1-3)] app_container_check_iff [OF assms]
  by (auto simp: has_privilege_iff)

theorem app_container_capabilities_witness:
  "\<exists>t st'. se_create_app_container_token (Some token_new) (create_app_container_sid ''app'') [1, 7]
        (initial_counters \<lparr>pool_script = [True], pool_live = 0\<rparr>) = (Some t, st')
     \<and> se_app_container_access_check (Some t) 0 ResDocumentsLibrary
     \<and> \<not> se_app_container_access_check (Some t) 0 ResMusicLibrary"
proof -
  obtain t st' where t: "se_create_app_container_token (Some token_new) (create_app_container_sid ''app'') [1, 7]
        (initial_counters \<lparr>pool_script = [True], pool_live = 0\<rparr>) = (Some t, st')"
    by (simp add: se_create_app_container_token_def se_duplicate_token_def initial_counters_def pool_allocate_def Let_def)
  have none: "\<forall>g \<in> set (token_groups token_new). \<not> sid_equals (grp_sid g) s" for s
    by (simp add: token_groups_def token_new_def)
  have gc: "group_count token_new = 0" by (simp add: token_new_def)
  from app_container_capabilities [OF t wf_token_new wf_create_app_container_sid none, of 0] t
  show ?thesis by (auto simp: gc se_consts)
qed

end
