(* ===== verification/Logon_Session.thy ===== *)
theory Logon_Session
  imports Token
begin

text \<open>
  Logon sessions, \<open>src/nt61/src/se/logonsession.rs\<close>: a table of 64 slots and the
  counter of authentication identifiers.  The table and the counter are the state
  \<open>logon_state\<close>; the system time that a new session records is an argument.  The
  abstract view is the map from identifiers to live sessions.  Lemmas: as long as the
  counter has not gone round, identifiers of live sessions are distinct and below the
  counter, the table implements the map, and enumeration lists its domain.
\<close>

datatype logon_type =
    LogonInteractive | LogonNetwork | LogonBatch | LogonService | LogonProxy | LogonUnlock
  | LogonNetworkCleartext | LogonNewCredentials | LogonRemoteInteractive
  | LogonCachedInteractive | LogonCachedRemoteInteractive | LogonCachedUnlock

record logon_session =
  ls_authentication_id :: luid
  ls_user_sid :: sid
  ls_logon_type :: logon_type
  ls_logon_time :: u64
  ls_logon_server :: "u8 list"
  ls_logon_domain :: "u8 list"
  ls_session_id :: u32
  ls_active :: bool

definition logon_session_new :: logon_session where
  "logon_session_new = \<lparr>ls_authentication_id = luid_new, ls_user_sid = sid_new,
     ls_logon_type = LogonInteractive, ls_logon_time = 0, ls_logon_server = replicate 32 0,
     ls_logon_domain = replicate 64 0, ls_session_id = 0, ls_active = False\<rparr>"

definition MAX_LOGON_SESSIONS :: nat where [se_consts]: "MAX_LOGON_SESSIONS = 64"

record logon_state =
  sessions :: "logon_session list"
  next_logon_id :: u64

definition logon_state_init :: logon_state where
  "logon_state_init = \<lparr>sessions = replicate MAX_LOGON_SESSIONS logon_session_new, next_logon_id = 1000\<rparr>"

text \<open>
  The first argument is the caller's \<open>logon_id\<close> pointer, \<open>None\<close> when it is null; the
  second component of the result is what it points to afterwards.
\<close>

definition se_create_logon_session ::
  "luid option \<Rightarrow> sid \<Rightarrow> logon_type \<Rightarrow> u32 \<Rightarrow> u64 \<Rightarrow> logon_state \<Rightarrow> bool \<times> luid option \<times> logon_state" where
  "se_create_logon_session logon_id user_sid ltype session now st = (case logon_id of
     None \<Rightarrow> (False, None, st)
   | Some _ \<Rightarrow> (case find_from (\<lambda>s. \<not> ls_active s) (sessions st) MAX_LOGON_SESSIONS of
       None \<Rightarrow> (False, logon_id, st)
     | Some i \<Rightarrow>
         let auth_id = luid_from_u64 (next_logon_id st) in
         (True, Some auth_id,
          st\<lparr>next_logon_id := next_logon_id st + 1,
             sessions := (sessions st)[i := (sessions st ! i)\<lparr>ls_authentication_id := auth_id,
               ls_user_sid := user_sid, ls_logon_type := ltype, ls_logon_time := now,
               ls_session_id := session, ls_active := True\<rparr>]\<rparr>)))"

definition is_session :: "luid \<Rightarrow> logon_session \<Rightarrow> bool" where
  "is_session logon_id s \<longleftrightarrow> ls_active s \<and> luid_equals (ls_authentication_id s) logon_id"

definition se_delete_logon_session :: "luid \<Rightarrow> logon_state \<Rightarrow> bool \<times> logon_state" where
  "se_delete_logon_session logon_id st =
     (case find_from (is_session logon_id) (sessions st) MAX_LOGON_SESSIONS of
        None \<Rightarrow> (False, st)
      | Some i \<Rightarrow> (True, st\<lparr>sessions := (sessions st)[i := (sessions st ! i)\<lparr>ls_active := False\<rparr>]\<rparr>))"

definition se_lookup_logon_session :: "luid \<Rightarrow> logon_state \<Rightarrow> logon_session option" where
  "se_lookup_logon_session logon_id st =
     (case find_from (is_session logon_id) (sessions st) MAX_LOGON_SESSIONS of
        None \<Rightarrow> None | Some i \<Rightarrow> Some (sessions st ! i))"

definition se_mark_logon_session_for_termination :: "luid \<Rightarrow> logon_state \<Rightarrow> bool" where
  "se_mark_logon_session_for_termination logon_id st \<longleftrightarrow> se_lookup_logon_session logon_id st \<noteq> None"

definition se_query_logon_session_info ::
  "luid \<Rightarrow> logon_state \<Rightarrow> (sid \<times> logon_type \<times> u64 \<times> u32) option" where
  "se_query_logon_session_info logon_id st = (case se_lookup_logon_session logon_id st of
     None \<Rightarrow> None
   | Some s \<Rightarrow> Some (ls_user_sid s, ls_logon_type s, ls_logon_time s, ls_session_id s))"

definition se_enumerate_logon_sessions :: "logon_state \<Rightarrow> luid list" where
  "se_enumerate_logon_sessions st =
     map (\<lambda>i. ls_authentication_id (sessions st ! i))
       (filter (\<lambda>i. ls_active (sessions st ! i)) [0..<MAX_LOGON_SESSIONS])"

definition init_system_logon_session :: "u64 \<Rightarrow> logon_state \<Rightarrow> luid \<times> logon_state" where
  "init_system_logon_session now st =
     (case se_create_logon_session (Some luid_new) (well_known LocalSystem) LogonService 0 now st of
        (_, logon_id, st') \<Rightarrow> (case logon_id of Some l \<Rightarrow> l | None \<Rightarrow> luid_new, st'))"

section \<open>The invariant\<close>

text \<open>
  Live sessions have identifiers issued earlier, and no two of them the same one.
\<close>

definition logon_inv :: "logon_state \<Rightarrow> bool" where
  "logon_inv st \<longleftrightarrow> length (sessions st) = MAX_LOGON_SESSIONS
     \<and> (\<forall>s \<in> set (sessions st). ls_active s \<longrightarrow>
          (\<exists>v < next_logon_id st. ls_authentication_id s = luid_from_u64 v))
     \<and> (\<forall>i j. i < MAX_LOGON_SESSIONS \<longrightarrow> j < MAX_LOGON_SESSIONS \<longrightarrow>
          ls_active (sessions st ! i) \<longrightarrow> ls_active (sessions st ! j) \<longrightarrow>
          ls_authentication_id (sessions st ! i) = ls_authentication_id (sessions st ! j) \<longrightarrow> i = j)"

definition counter_left :: "logon_state \<Rightarrow> bool" where
  "counter_left st \<longleftrightarrow> unat (next_logon_id st) + 1 < 2 ^ 64"

lemma logon_invD:
  assumes "logon_inv st"
  shows "length (sessions st) = 64"
    "\<And>i. i < 64 \<Longrightarrow> ls_active (sessions st ! i) \<Longrightarrow>
       \<exists>v < next_logon_id st. ls_authentication_id (sessions st ! i) = luid_from_u64 v"
    "\<And>i j. i < 64 \<Longrightarrow> j < 64 \<Longrightarrow> ls_active (sessions st ! i) \<Longrightarrow> ls_active (sessions st ! j) \<Longrightarrow>
       ls_authentication_id (sessions st ! i) = ls_authentication_id (sessions st ! j) \<Longrightarrow> i = j"
  using assms by (auto simp: logon_inv_def se_consts)

lemma logon_invI:
  assumes "length (sessions st) = 64"
    "\<And>i. i < 64 \<Longrightarrow> ls_active (sessions st ! i) \<Longrightarrow>
       \<exists>v < next_logon_id st. ls_authentication_id (sessions st ! i) = luid_from_u64 v"
    "\<And>i j. i < 64 \<Longrightarrow> j < 64 \<Longrightarrow> ls_active (sessions st ! i) \<Longrightarrow> ls_active (sessions st ! j) \<Longrightarrow>
       ls_authentication_id (sessions st ! i) = ls_authentication_id (sessions st ! j) \<Longrightarrow> i = j"
  shows "logon_inv st"
  using assms by (auto simp: logon_inv_def se_consts in_set_conv_nth)

lemma logon_inv_init [wf_intros]: "logon_inv logon_state_init"
  by (rule logon_invI) (simp_all add: logon_state_init_def logon_session_new_def se_consts)

section \<open>The table as a map\<close>

definition session_map :: "logon_state \<Rightarrow> luid \<Rightarrow> logon_session option" where
  "session_map st l = se_lookup_logon_session l st"

lemma session_map_Some:
  assumes "logon_inv st"
  shows "session_map st l = Some s \<longleftrightarrow>
    (\<exists>i < 64. sessions st ! i = s \<and> ls_active s \<and> ls_authentication_id s = l)"
proof
  assume "session_map st l = Some s"
  then obtain i where i: "find_from (is_session l) (sessions st) MAX_LOGON_SESSIONS = Some i"
    "s = sessions st ! i"
    by (auto simp: session_map_def se_lookup_logon_session_def split: option.splits)
  with find_from_Some [OF i(1)] show "\<exists>i < 64. sessions st ! i = s \<and> ls_active s \<and> ls_authentication_id s = l"
    by (auto simp: is_session_def luid_equals_iff se_consts)
next
  assume "\<exists>i < 64. sessions st ! i = s \<and> ls_active s \<and> ls_authentication_id s = l"
  then obtain i where i: "i < 64" "sessions st ! i = s" "ls_active s" "ls_authentication_id s = l" by blast
  have "find_from (is_session l) (sessions st) (length (sessions st)) = Some i"
    using i logon_invD(1) [OF assms] logon_invD(3) [OF assms]
    by (intro find_from_unique) (auto simp: is_session_def luid_equals_iff)
  then show "session_map st l = Some s"
    using i(2) logon_invD(1) [OF assms] by (simp add: session_map_def se_lookup_logon_session_def se_consts)
qed

lemma session_map_None:
  assumes "logon_inv st"
  shows "session_map st l = None \<longleftrightarrow>
    (\<forall>i < 64. \<not> (ls_active (sessions st ! i) \<and> ls_authentication_id (sessions st ! i) = l))"
  using session_map_Some [OF assms, of l] by (metis not_None_eq)

text \<open>Filling a free slot and clearing a live one.\<close>

lemma map_eqI: "(\<And>l v. m l = Some v \<longleftrightarrow> m' l = Some v) \<Longrightarrow> m = m'"
  by (rule ext) (metis not_Some_eq)

lemma session_map_fill:
  assumes st: "logon_inv st" and i: "i < 64" "\<not> ls_active (sessions st ! i)"
    and st': "logon_inv st'" "sessions st' = (sessions st)[i := s]" and s: "ls_active s"
  shows "session_map st' = (session_map st)(ls_authentication_id s \<mapsto> s)"
proof (rule map_eqI)
  fix l v
  have at: "sessions st' ! j = (if j = i then s else sessions st ! j)" if "j < 64" for j
    using that i(1) st'(2) logon_invD(1) [OF st] by simp
  show "session_map st' l = Some v \<longleftrightarrow> ((session_map st)(ls_authentication_id s \<mapsto> s)) l = Some v"
  proof (cases "l = ls_authentication_id s")
    case True
    have "session_map st' l = Some s"
      unfolding session_map_Some [OF st'(1)] using at [OF i(1)] i(1) s True by (intro exI [of _ i]) simp
    with True show ?thesis by simp
  next
    case False
    have "(\<exists>j < 64. sessions st' ! j = v \<and> ls_active v \<and> ls_authentication_id v = l) \<longleftrightarrow>
        (\<exists>j < 64. sessions st ! j = v \<and> ls_active v \<and> ls_authentication_id v = l)"
      using at i False by (intro ex_cong1) auto
    then show ?thesis using False by (simp add: session_map_Some [OF st'(1)] session_map_Some [OF st])
  qed
qed

lemma session_map_clear:
  assumes st: "logon_inv st" and i: "i < 64" "ls_active (sessions st ! i)" "ls_authentication_id (sessions st ! i) = k"
    and st': "logon_inv st'" "sessions st' = (sessions st)[i := s]" and s: "\<not> ls_active s"
  shows "session_map st' = (session_map st)(k := None)"
proof (rule map_eqI)
  fix l v
  have at: "sessions st' ! j = (if j = i then s else sessions st ! j)" if "j < 64" for j
    using that i(1) st'(2) logon_invD(1) [OF st] by simp
  show "session_map st' l = Some v \<longleftrightarrow> ((session_map st)(k := None)) l = Some v"
  proof (cases "l = k")
    case True
    have "\<not> (ls_active (sessions st' ! j) \<and> ls_authentication_id (sessions st' ! j) = l)" if "j < 64" for j
      using logon_invD(3) [OF st that i(1)] i(2,3) at [OF that] s True by (cases "j = i") auto
    then have "session_map st' l = None" by (simp add: session_map_None [OF st'(1)])
    with True show ?thesis by simp
  next
    case False
    have "(\<exists>j < 64. sessions st' ! j = v \<and> ls_active v \<and> ls_authentication_id v = l) \<longleftrightarrow>
        (\<exists>j < 64. sessions st ! j = v \<and> ls_active v \<and> ls_authentication_id v = l)"
      using at i(1,3) s False by (intro ex_cong1) auto
    then show ?thesis using False by (simp add: session_map_Some [OF st'(1)] session_map_Some [OF st])
  qed
qed

section \<open>Creation and deletion\<close>

text \<open>A creation with a valid pointer, and the session it records.\<close>

definition new_session :: "sid \<times> logon_type \<times> u32 \<times> u64 \<Rightarrow> logon_state \<Rightarrow> luid option \<times> logon_state" where
  "new_session a st = (case a of (user_sid, ltype, session, now) \<Rightarrow>
     case se_create_logon_session (Some luid_new) user_sid ltype session now st of
       (ok, l, st') \<Rightarrow> (if ok then l else None, st'))"

definition records_session :: "sid \<times> logon_type \<times> u32 \<times> u64 \<Rightarrow> logon_session \<Rightarrow> bool" where
  "records_session a s \<longleftrightarrow> (case a of (user_sid, ltype, session, now) \<Rightarrow>
     ls_user_sid s = user_sid \<and> ls_logon_type s = ltype \<and> ls_session_id s = session \<and> ls_logon_time s = now)"

lemma new_session_cases:
  assumes "new_session (u, ty, n, now) st = (r, st')"
  obtains (full) "r = None" "st' = st" "\<forall>i < 64. ls_active (sessions st ! i)"
    | (created) i s where "i < 64" "\<not> ls_active (sessions st ! i)" "r = Some (luid_from_u64 (next_logon_id st))"
      "ls_active s" "ls_authentication_id s = luid_from_u64 (next_logon_id st)" "records_session (u, ty, n, now) s"
      "sessions st' = (sessions st)[i := s]" "next_logon_id st' = next_logon_id st + 1"
proof (cases "find_from (\<lambda>s. \<not> ls_active s) (sessions st) MAX_LOGON_SESSIONS")
  case None
  then have "\<forall>i < 64. ls_active (sessions st ! i)" by (simp add: find_from_None se_consts)
  with None assms show thesis by (intro full) (simp_all add: new_session_def se_create_logon_session_def)
next
  case (Some i)
  let ?s = "(sessions st ! i)\<lparr>ls_authentication_id := luid_from_u64 (next_logon_id st),
               ls_user_sid := u, ls_logon_type := ty, ls_logon_time := now,
               ls_session_id := n, ls_active := True\<rparr>"
  from Some assms find_from_Some [OF Some] show thesis
    by (intro created [of i ?s])
      (auto simp: new_session_def se_create_logon_session_def records_session_def Let_def se_consts)
qed

lemma counter_step:
  "counter_left st \<Longrightarrow> next_logon_id st < next_logon_id st + 1"
  "counter_left st \<Longrightarrow> v < next_logon_id st \<Longrightarrow> v < next_logon_id st + 1"
proof -
  assume "counter_left st"
  then show *: "next_logon_id st < next_logon_id st + 1"
    by (simp add: counter_left_def word_less_nat_alt unat_word_ariths)
  show "v < next_logon_id st \<Longrightarrow> v < next_logon_id st + 1" using * by (blast intro: less_trans)
qed

lemma new_session_inv:
  assumes "logon_inv st" "counter_left st" "new_session a st = (r, st')"
  shows "logon_inv st'"
proof -
  obtain u ty n now where a: "a = (u, ty, n, now)" by (cases a)
  from assms(3) [unfolded a] show ?thesis
  proof (cases rule: new_session_cases)
    case full
    with assms(1) show ?thesis by simp
  next
    case (created i s)
    note d = logon_invD [OF assms(1)]
    have at: "sessions st' ! j = (if j = i then s else sessions st ! j)" if "j < 64" for j
      using that created(1,7) d(1) by simp
    have old: "ls_authentication_id (sessions st ! j) \<noteq> luid_from_u64 (next_logon_id st)"
      if "j < 64" "ls_active (sessions st ! j)" for j
      using d(2) [OF that] by (auto simp: luid_from_u64_inject)
    show ?thesis
    proof (rule logon_invI)
      show "length (sessions st') = 64" using created(7) d(1) by simp
      show "\<exists>v < next_logon_id st'. ls_authentication_id (sessions st' ! j) = luid_from_u64 v"
        if "j < 64" "ls_active (sessions st' ! j)" for j
        using that at [OF that(1)] d(2) [OF that(1)] created(5,8) counter_step [OF assms(2)]
        by (cases "j = i") auto
      show "j = k" if "j < 64" "k < 64" "ls_active (sessions st' ! j)" "ls_active (sessions st' ! k)"
        "ls_authentication_id (sessions st' ! j) = ls_authentication_id (sessions st' ! k)" for j k
        using that at [OF that(1)] at [OF that(2)] d(3) [OF that(1,2)] old [OF that(1)] old [OF that(2)] created(5)
        by (cases "j = i"; cases "k = i") auto
    qed
  qed
qed

lemma delete_session_cases:
  assumes "logon_inv st" "se_delete_logon_session k st = (b, st')"
  obtains (absent) "\<not> b" "st' = st" "session_map st k = None"
    | (deleted) i where "b" "i < 64" "ls_active (sessions st ! i)" "ls_authentication_id (sessions st ! i) = k"
      "st' = st\<lparr>sessions := (sessions st)[i := (sessions st ! i)\<lparr>ls_active := False\<rparr>]\<rparr>"
      "session_map st k = Some (sessions st ! i)"
proof (cases "find_from (is_session k) (sessions st) MAX_LOGON_SESSIONS")
  case None
  with assms(2) show thesis
    by (intro absent) (auto simp: se_delete_logon_session_def session_map_def se_lookup_logon_session_def)
next
  case (Some i)
  with assms(2) find_from_Some [OF Some] show thesis
    by (intro deleted [of i]) (auto simp: se_delete_logon_session_def session_map_def
        se_lookup_logon_session_def is_session_def luid_equals_iff se_consts)
qed

lemma delete_session_inv:
  assumes "logon_inv st" "se_delete_logon_session k st = (b, st')"
  shows "logon_inv st'"
  using assms
proof (cases rule: delete_session_cases)
  case absent
  with assms(1) show ?thesis by simp
next
  case (deleted i)
  note d = logon_invD [OF assms(1)]
  have act: "ls_active (sessions st' ! j) \<Longrightarrow> j \<noteq> i \<and> sessions st' ! j = sessions st ! j" if "j < 64" for j
    using that deleted(2,5) d(1) by (cases "j = i") simp_all
  show ?thesis
  proof (rule logon_invI)
    show "length (sessions st') = 64" using deleted(5) d(1) by simp
    show "\<exists>v < next_logon_id st'. ls_authentication_id (sessions st' ! j) = luid_from_u64 v"
      if "j < 64" "ls_active (sessions st' ! j)" for j
      using act [OF that] d(2) [OF that(1)] that(2) deleted(5) by simp
    show "j = k" if "j < 64" "k < 64" "ls_active (sessions st' ! j)" "ls_active (sessions st' ! k)"
      "ls_authentication_id (sessions st' ! j) = ls_authentication_id (sessions st' ! k)" for j k
      using act [OF that(1,3)] act [OF that(2,4)] d(3) [OF that(1,2)] that by simp
  qed
qed

interpretation logon_table: keyed_table logon_inv session_map new_session se_delete_logon_session
  counter_left records_session
proof
  fix st a k st'
  assume inv: "logon_inv st" and left: "counter_left st" and new: "new_session a st = (Some k, st')"
  obtain u ty n now where a: "a = (u, ty, n, now)" by (cases a)
  have inv': "logon_inv st'" by (rule new_session_inv [OF inv left new])
  from new [unfolded a]
  show "logon_inv st' \<and> session_map st k = None
      \<and> (\<exists>v. records_session a v \<and> session_map st' = (session_map st)(k \<mapsto> v))"
  proof (cases rule: new_session_cases)
    case (created i s)
    have "session_map st k = None"
      using created(3) by (auto simp: session_map_None [OF inv] luid_from_u64_inject dest!: logon_invD(2) [OF inv])
    moreover have "session_map st' = (session_map st)(ls_authentication_id s \<mapsto> s)"
      by (rule session_map_fill [OF inv created(1,2) inv' created(7,4)])
    ultimately show ?thesis using inv' created(3,5,6) a by auto
  qed simp
next
  fix a st st'
  assume new: "new_session a st = (None, st')"
  obtain u ty n now where a: "a = (u, ty, n, now)" by (cases a)
  from new [unfolded a] show "st' = st" by (cases rule: new_session_cases) simp_all
next
  fix st k b st'
  assume inv: "logon_inv st" and del: "se_delete_logon_session k st = (b, st')"
  have inv': "logon_inv st'" by (rule delete_session_inv [OF inv del])
  from inv del show "logon_inv st' \<and> (b \<longleftrightarrow> session_map st k \<noteq> None) \<and> session_map st' = (session_map st)(k := None)"
  proof (cases rule: delete_session_cases)
    case absent
    with inv show ?thesis by auto
  next
    case (deleted i)
    have "session_map st' = (session_map st)(k := None)"
      using deleted(5) by (intro session_map_clear [OF inv deleted(2-4) inv', of "(sessions st ! i)\<lparr>ls_active := False\<rparr>"]) simp_all
    with inv' deleted(1,6) show ?thesis by simp
  qed
qed

section \<open>Enumeration\<close>

lemma enumerate_spec:
  assumes "logon_inv st"
  shows "distinct (se_enumerate_logon_sessions st)"
    "set (se_enumerate_logon_sessions st) = dom (session_map st)"
proof -
  show "distinct (se_enumerate_logon_sessions st)"
    unfolding se_enumerate_logon_sessions_def distinct_map
    using logon_invD(3) [OF assms] by (auto simp: se_consts inj_on_def)
  show "set (se_enumerate_logon_sessions st) = dom (session_map st)"
  proof (rule set_eqI)
    fix l
    have "l \<in> dom (session_map st) \<longleftrightarrow> (\<exists>s. session_map st l = Some s)" by auto
    then show "l \<in> set (se_enumerate_logon_sessions st) \<longleftrightarrow> l \<in> dom (session_map st)"
      unfolding session_map_Some [OF assms] by (auto simp: se_enumerate_logon_sessions_def se_consts)
  qed
qed

section \<open>Runs of the component\<close>

text \<open>
  \<open>logon_run n st\<close>: the state after some sequence of calls of which \<open>n\<close> created a
  session.
\<close>

inductive logon_run :: "nat \<Rightarrow> logon_state \<Rightarrow> bool" where
  run_init: "logon_run 0 logon_state_init"
| run_create: "logon_run n st \<Longrightarrow>
    se_create_logon_session p u ty sn now st = (True, l, st') \<Longrightarrow> logon_run (Suc n) st'"
| run_create_fail: "logon_run n st \<Longrightarrow>
    se_create_logon_session p u ty sn now st = (False, l, st') \<Longrightarrow> logon_run n st'"
| run_delete: "logon_run n st \<Longrightarrow> se_delete_logon_session k st = (b, st') \<Longrightarrow> logon_run n st'"

lemma create_as_new_session:
  "se_create_logon_session p u ty sn now st = (True, l, st') \<Longrightarrow> new_session (u, ty, sn, now) st = (l, st')"
  "se_create_logon_session p u ty sn now st = (False, l, st') \<Longrightarrow> st' = st"
  by (auto simp: new_session_def se_create_logon_session_def Let_def split: option.splits)

lemma delete_keeps_counter: "se_delete_logon_session k st = (b, st') \<Longrightarrow> next_logon_id st' = next_logon_id st"
  by (auto simp: se_delete_logon_session_def split: option.splits)

lemma logon_run_inv:
  "logon_run n st \<Longrightarrow> n < 2 ^ 64 - 1000 \<Longrightarrow> logon_inv st \<and> next_logon_id st = of_nat (1000 + n)"
proof (induction rule: logon_run.induct)
  case run_init
  then show ?case by (simp add: wf_intros) (simp add: logon_state_init_def)
next
  case (run_create n st p u ty sn now l st')
  then have ih: "logon_inv st" "next_logon_id st = of_nat (1000 + n)" by simp_all
  have new: "new_session (u, ty, sn, now) st = (l, st')"
    by (rule create_as_new_session(1) [OF run_create.hyps(2)])
  have "counter_left st"
    using run_create.prems by (simp add: counter_left_def ih(2) unsigned_of_nat take_bit_nat_eq_self del: of_nat_add)
  then have "logon_inv st'" by (rule new_session_inv [OF ih(1) _ new])
  moreover have "next_logon_id st' = next_logon_id st + 1"
    using run_create.hyps(2) by (auto simp: se_create_logon_session_def Let_def split: option.splits)
  ultimately show ?case using ih(2) by simp
next
  case (run_create_fail n st p u ty sn now l st')
  then show ?case using create_as_new_session(2) by blast
next
  case (run_delete n st k b st')
  then show ?case
    using delete_session_inv [OF _ run_delete.hyps(2)] delete_keeps_counter [OF run_delete.hyps(2)] by simp
qed

section \<open>Properties\<close>

text \<open>
  C4: In every run with fewer than \<open>2 ^ 64 - 1000\<close> created sessions, live sessions have
  distinct identifiers, each issued before; enumeration lists each of them once.
\<close>

theorem logon_sessions_distinct:
  assumes "logon_run n st" "n < 2 ^ 64 - 1000"
  shows "logon_inv st \<and> distinct (se_enumerate_logon_sessions st)
    \<and> set (se_enumerate_logon_sessions st) = {l. se_lookup_logon_session l st \<noteq> None}"
proof -
  have inv: "logon_inv st" using logon_run_inv [OF assms] by simp
  have "{l. se_lookup_logon_session l st \<noteq> None} = dom (session_map st)" by (auto simp: session_map_def)
  with inv enumerate_spec [OF inv] show ?thesis by simp
qed

theorem logon_sessions_distinct_witness:
  "\<exists>st. logon_run 1 st \<and> distinct (se_enumerate_logon_sessions st)"
proof -
  obtain l st where "se_create_logon_session (Some luid_new) (well_known LocalSystem) LogonService 0 7 logon_state_init
      = (True, l, st)"
    by (simp add: se_create_logon_session_def logon_state_init_def logon_session_new_def find_from_def se_consts
        Let_def upt_rec del: well_known.simps)
  then have run: "logon_run (Suc 0) st" by (rule run_create [OF run_init])
  with logon_sessions_distinct [OF run] show ?thesis by auto
qed

text \<open>
  C30: The session table implements a map: a created session is found under its new
  identifier with what was recorded, deleting it is reported and gives the former map
  back, and no other session is affected.
\<close>

theorem logon_table_implements_map:
  assumes "logon_inv st" "counter_left st" "new_session (u, ty, sn, now) st = (Some k, st1)"
    "se_delete_logon_session k st1 = (b, st2)"
  shows "se_query_logon_session_info k st1 = Some (u, ty, now, sn) \<and> b
    \<and> (\<forall>l. l \<noteq> k \<longrightarrow> se_lookup_logon_session l st1 = se_lookup_logon_session l st)
    \<and> (\<forall>l. se_lookup_logon_session l st2 = se_lookup_logon_session l st)"
proof -
  note fold = session_map_def [symmetric]
  have "\<exists>v. session_map st1 k = Some v \<and> records_session (u, ty, sn, now) v"
    by (rule logon_table.create_then_lookup(1) [OF assms(1-3)])
  moreover have "session_map st1 l = session_map st l" if "l \<noteq> k" for l
    by (rule logon_table.create_then_lookup(2) [OF assms(1-3) that])
  moreover have "b" "session_map st2 = session_map st"
    using logon_table.delete_undoes_create [OF assms] by simp_all
  ultimately show ?thesis
    by (auto simp: se_query_logon_session_info_def fold records_session_def)
qed

theorem logon_table_implements_map_witness:
  "\<exists>k st1. new_session (well_known Users, LogonNetwork, 3, 9) logon_state_init = (Some k, st1)
     \<and> se_query_logon_session_info k st1 = Some (well_known Users, LogonNetwork, 9, 3)"
proof -
  obtain k st1 where k: "new_session (well_known Users, LogonNetwork, 3, 9) logon_state_init = (Some k, st1)"
    by (simp add: new_session_def se_create_logon_session_def logon_state_init_def logon_session_new_def find_from_def
        se_consts Let_def upt_rec del: well_known.simps)
  have "counter_left logon_state_init" by (simp add: counter_left_def logon_state_init_def)
  from logon_table_implements_map [OF logon_inv_init this k] k show ?thesis
    by (cases "se_delete_logon_session k st1") blast
qed

end
