(* ===== verification/Hash_Stream.thy ===== *)
theory Hash_Stream
  imports Nt_Prelude
begin

text \<open>
  The part that the digests of \<open>src/nt61/src/crypto/hash.rs\<close> share: a running state, a
  byte count and a partly filled block, with \<open>update\<close> and \<open>finalize\<close> written over the
  block size and the block transformation.  The reference is the digest of a padded
  message, block by block.  The locale \<open>block_hash\<close> shows once that any sequence of
  updates followed by a finalisation computes the reference digest of the
  concatenated input, and is interpreted for every digest in \<open>Hash\<close>.  The byte count
  wraps, as in a release build; a debug build would stop there instead.
\<close>

section \<open>The streaming interface\<close>

record ('w, 'c) hasher =
  h_state :: "'w list"
  h_count :: 'c
  h_buffer :: "u8 list"

function absorb ::
  "nat \<Rightarrow> ('w list \<Rightarrow> u8 list \<Rightarrow> 'w list) \<Rightarrow> u8 list \<Rightarrow> nat \<Rightarrow> 'w list \<Rightarrow> 'w list \<times> nat" where
  "absorb B transform data idx st =
     (if 0 < B \<and> idx + B \<le> length data
      then absorb B transform data (idx + B) (transform st (slice_of data idx (idx + B)))
      else (st, idx))"
  by pat_completeness auto
termination by (relation "measure (\<lambda>(_, _, data, idx, _). length data - idx)") auto

declare absorb.simps [simp del]

definition hash_update ::
  "nat \<Rightarrow> ('w list \<Rightarrow> u8 list \<Rightarrow> 'w list) \<Rightarrow> u8 list \<Rightarrow> ('w, 'c :: len word) hasher \<Rightarrow> ('w, 'c word) hasher" where
  "hash_update B transform data s =
     (let offset = unat (h_count s AND of_nat (B - 1));
          count' = h_count s + of_nat (length data);
          copy_len = min (length data) (B - offset);
          buf1 = (if 0 < offset then overwrite (h_buffer s) offset (take copy_len data) else h_buffer s);
          st1 = (if 0 < offset \<and> offset + copy_len = B then transform (h_state s) buf1 else h_state s);
          idx1 = (if 0 < offset then copy_len else 0)
      in case absorb B transform data idx1 st1 of (st2, idx2) \<Rightarrow>
           \<lparr>h_state = st2, h_count = count',
            h_buffer = (if idx2 < length data then overwrite buf1 0 (drop idx2 data) else buf1)\<rparr>)"

text \<open>
  The length field starts at \<open>L\<close>, the last \<open>B - L\<close> bytes of a block.
\<close>

definition hash_finalize ::
  "nat \<Rightarrow> nat \<Rightarrow> ('w list \<Rightarrow> u8 list \<Rightarrow> 'w list) \<Rightarrow> ('c word \<Rightarrow> u8 list) \<Rightarrow>
     ('w, 'c :: len word) hasher \<Rightarrow> ('w, 'c word) hasher" where
  "hash_finalize B L transform len_bytes s =
     (let bit_count = h_count s * 8;
          offset = unat (h_count s AND of_nat (B - 1));
          buf1 = (h_buffer s)[offset := 0x80];
          buf2 = fold (\<lambda>i b. b[i := 0]) [offset + 1..<B] buf1;
          st1 = (if L \<le> offset then transform (h_state s) buf2 else h_state s);
          buf3 = (if L \<le> offset then replicate B 0 else buf2);
          buf4 = overwrite buf3 L (len_bytes bit_count)
      in \<lparr>h_state = transform st1 buf4, h_count = h_count s, h_buffer = buf4\<rparr>)"

section \<open>The reference\<close>

definition chunks :: "nat \<Rightarrow> u8 list \<Rightarrow> u8 list list" where
  "chunks B bs = map (\<lambda>i. take B (drop (i * B) bs)) [0..<length bs div B]"

definition zero_pad :: "nat \<Rightarrow> nat \<Rightarrow> nat \<Rightarrow> nat" where
  "zero_pad B L n = (if n mod B < L then L - 1 - n mod B else B - 1 - n mod B + L)"

definition pad_message :: "nat \<Rightarrow> nat \<Rightarrow> ('c :: len word \<Rightarrow> u8 list) \<Rightarrow> u8 list \<Rightarrow> u8 list" where
  "pad_message B L len_bytes m =
     m @ [0x80] @ replicate (zero_pad B L (length m)) 0 @ len_bytes (of_nat (8 * length m))"

definition hash_spec ::
  "nat \<Rightarrow> nat \<Rightarrow> ('w list \<Rightarrow> u8 list \<Rightarrow> 'w list) \<Rightarrow> ('c :: len word \<Rightarrow> u8 list) \<Rightarrow> 'w list \<Rightarrow> u8 list \<Rightarrow> 'w list" where
  "hash_spec B L transform len_bytes init m = foldl transform init (chunks B (pad_message B L len_bytes m))"

section \<open>Chunks\<close>

lemma chunks_short: "length bs < B \<Longrightarrow> chunks B bs = []"
  by (simp add: chunks_def)

lemma chunks_one: "length bs = B \<Longrightarrow> 0 < B \<Longrightarrow> chunks B bs = [bs]"
  by (simp add: chunks_def)

lemma chunks_append:
  assumes "0 < B" "B dvd length xs"
  shows "chunks B (xs @ ys) = chunks B xs @ chunks B ys"
proof -
  obtain q where q: "length xs = B * q" using assms(2) by (auto simp: dvd_def)
  have "take B (drop (i * B) (xs @ ys)) = take B (drop (i * B) xs)" if "i < q" for i
  proof -
    have "i * B + B \<le> q * B" using mult_le_mono1 [of "Suc i" q B] that by simp
    then show ?thesis using q by (simp add: mult.commute)
  qed
  then have 1: "map (\<lambda>i. take B (drop (i * B) (xs @ ys))) [0..<q] = chunks B xs"
    using assms(1) q by (simp add: chunks_def)
  have 2: "map (\<lambda>i. take B (drop (i * B) (xs @ ys))) [q..<q + length ys div B] = chunks B ys"
    unfolding chunks_def using q
    by (intro nth_equalityI) (simp_all add: algebra_simps)
  have len: "length (xs @ ys) div B = q + length ys div B"
    using assms(1) q by simp
  show ?thesis unfolding chunks_def [of B "xs @ ys"] len
    using 1 2 upt_add_eq_append [of 0 q "length ys div B"] by simp
qed

lemma absorb_chunks:
  assumes "0 < B" "idx \<le> length data"
  shows "absorb B f data idx st =
    (foldl f st (chunks B (drop idx data)), idx + B * ((length data - idx) div B))"
  using assms
proof (induction B f data idx st rule: absorb.induct)
  case (1 B f data idx st)
  show ?case
  proof (cases "idx + B \<le> length data")
    case True
    have sl: "drop idx data = slice_of data idx (idx + B) @ drop (idx + B) data"
      using append_take_drop_id [of B "drop idx data"] by (simp add: slice_of_def add.commute)
    have len: "length (slice_of data idx (idx + B)) = B" using True by (simp add: slice_of_def)
    have "chunks B (drop idx data) = slice_of data idx (idx + B) # chunks B (drop (idx + B) data)"
      using sl chunks_append [OF 1(2), of "slice_of data idx (idx + B)" "drop (idx + B) data"]
        chunks_one [OF len 1(2)] len by simp
    moreover have "(length data - idx) div B = Suc ((length data - (idx + B)) div B)"
      using True 1(2) le_div_geq [of B "length data - idx"] by simp
    moreover have "absorb B f data idx st = absorb B f data (idx + B) (f st (slice_of data idx (idx + B)))"
      using True 1(2) by (subst absorb.simps) simp
    ultimately show ?thesis using 1(1) [OF conjI [OF 1(2) True] 1(2) True] by simp
  next
    case False
    then have "absorb B f data idx st = (st, idx)" by (subst absorb.simps) simp
    then show ?thesis using False 1(3) chunks_short [of "drop idx data" B] by simp
  qed
qed

section \<open>What a hasher has absorbed\<close>

definition whole_part :: "nat \<Rightarrow> u8 list \<Rightarrow> u8 list" where
  "whole_part B m = take (B * (length m div B)) m"

definition rest_part :: "nat \<Rightarrow> u8 list \<Rightarrow> u8 list" where
  "rest_part B m = drop (B * (length m div B)) m"

lemma length_parts:
  "length (whole_part B m) = B * (length m div B)" "length (rest_part B m) = length m mod B"
  "whole_part B m @ rest_part B m = m"
proof -
  show "length (whole_part B m) = B * (length m div B)"
    by (simp add: whole_part_def)
  show "length (rest_part B m) = length m mod B"
    by (simp add: rest_part_def minus_mult_div_eq_mod)
  show "whole_part B m @ rest_part B m = m" by (simp add: whole_part_def rest_part_def)
qed

definition absorbed ::
  "nat \<Rightarrow> ('w list \<Rightarrow> u8 list \<Rightarrow> 'w list) \<Rightarrow> 'w list \<Rightarrow> ('w, 'c :: len word) hasher \<Rightarrow> u8 list \<Rightarrow> bool" where
  "absorbed B f init s m \<longleftrightarrow> h_count s = of_nat (length m) \<and> length (h_buffer s) = B
     \<and> h_state s = foldl f init (chunks B m)
     \<and> take (length m mod B) (h_buffer s) = rest_part B m"

lemma chunks_whole: "0 < B \<Longrightarrow> chunks B m = chunks B (whole_part B m)"
  using chunks_append [of B "whole_part B m" "rest_part B m"] length_parts [of B m]
    chunks_short [of "rest_part B m" B] by simp

lemma chunks_rest_append:
  "0 < B \<Longrightarrow> chunks B (m @ d) = chunks B m @ chunks B (rest_part B m @ d)"
proof -
  assume B: "0 < B"
  have "chunks B (m @ d) = chunks B (whole_part B m @ (rest_part B m @ d))"
    by (simp add: length_parts(3) flip: append_assoc)
  also have "\<dots> = chunks B (whole_part B m) @ chunks B (rest_part B m @ d)"
    using B by (intro chunks_append) (simp_all add: length_parts)
  finally show ?thesis using chunks_whole [OF B, of m] by simp
qed

lemma rest_part_append:
  assumes "0 < B"
  shows "rest_part B (m @ d) = rest_part B (rest_part B m @ d)"
proof -
  let ?q = "length m div B" and ?r = "length m mod B"
  have "length m + length d = B * ?q + (?r + length d)" by (simp add: mult_div_mod_eq flip: add.assoc)
  then have "(length m + length d) div B = ?q + (?r + length d) div B"
    using assms by (simp only: div_mult_self4 [OF less_imp_neq [OF assms, symmetric]])
  then have "B * ((length m + length d) div B) = B * ?q + B * ((?r + length d) div B)"
    by (simp add: add_mult_distrib2)
  then have "rest_part B (m @ d) = drop (length (whole_part B m) + B * ((?r + length d) div B))
      (whole_part B m @ (rest_part B m @ d))"
    unfolding rest_part_def [of B "m @ d"] length_parts(1)
    by (simp add: length_parts(3) flip: append_assoc)
  also have "\<dots> = drop (B * ((?r + length d) div B)) (rest_part B m @ d)" by simp
  also have "\<dots> = rest_part B (rest_part B m @ d)"
    by (simp only: rest_part_def [of B "rest_part B m @ d"] length_append length_parts(2))
  finally show ?thesis .
qed

text \<open>The bytes that are left once the whole blocks are absorbed go to the front of the buffer.\<close>

lemma store_rest:
  assumes "0 < B" "idx \<le> length data" "length buf = B"
  defines "idx2 \<equiv> idx + B * ((length data - idx) div B)"
  defines "buf' \<equiv> if idx2 < length data then overwrite buf 0 (drop idx2 data) else buf"
  shows "length buf' = B" "take (length (drop idx data) mod B) buf' = rest_part B (drop idx data)"
proof -
  have r: "drop idx2 data = rest_part B (drop idx data)"
    by (simp add: idx2_def rest_part_def add.commute)
  have len: "length (drop idx2 data) = (length data - idx) mod B"
    using length_parts(2) [of B "drop idx data"] r by simp
  have small: "(length data - idx) mod B < B" using assms(1) by simp
  show "length buf' = B" using len small assms(3) by (simp add: buf'_def)
  show "take (length (drop idx data) mod B) buf' = rest_part B (drop idx data)"
  proof (cases "idx2 < length data")
    case True
    with len r show ?thesis by (simp add: buf'_def overwrite_def)
  next
    case False
    with len r show ?thesis by simp
  qed
qed

lemma fold_zero_tail:
  "a \<le> length b \<Longrightarrow> fold (\<lambda>i b. b[i := 0]) [a..<length b] b = take a b @ replicate (length b - a) 0"
proof (induction "length b - a" arbitrary: a b)
  case (Suc n)
  then have a: "a < length b" by simp
  have "fold (\<lambda>i b. b[i := 0]) [a..<length b] b
      = fold (\<lambda>i b. b[i := 0]) [Suc a..<length (b[a := 0])] (b[a := 0])"
    using a by (simp add: upt_conv_Cons)
  also have "\<dots> = take (Suc a) (b[a := 0]) @ replicate (length (b[a := 0]) - Suc a) 0"
    using Suc a by (intro Suc.hyps(1)) simp_all
  also have "\<dots> = take a b @ replicate (Suc (length b - Suc a)) 0"
    using a by (simp add: take_Suc_conv_app_nth)
  finally show ?case using a by (simp add: Suc_diff_Suc)
qed simp

section \<open>Streaming computes the reference digest\<close>

locale block_hash =
  fixes B L k :: nat
    and transform :: "'w list \<Rightarrow> u8 list \<Rightarrow> 'w list"
    and len_bytes :: "'c :: len word \<Rightarrow> u8 list"
    and init :: "'w list"
  assumes block_size: "B = 2 ^ k" "k \<le> LENGTH('c)"
    and length_field: "0 < L" "L < B" "length (len_bytes c) = B - L"
begin

lemma size_pos: "0 < B"
  by (simp add: block_size)

lemma offset_mod: "unat (of_nat n AND of_nat (B - 1) :: 'c word) = n mod B"
proof -
  have "(of_nat (B - 1) :: 'c word) = mask k"
    by (simp add: block_size mask_eq_exp_minus_1 of_nat_diff)
  then have "unat (of_nat n AND of_nat (B - 1) :: 'c word) = unat (take_bit k (of_nat n :: 'c word))"
    by (simp only: take_bit_eq_mask)
  also have "\<dots> = take_bit k n"
    using block_size(2) by (simp only: unsigned_take_bit_eq unsigned_of_nat take_bit_take_bit min_absorb1 of_nat_id)
  finally show ?thesis by (simp only: take_bit_eq_mod block_size(1))
qed

abbreviation fresh_hasher :: "('w, 'c word) hasher" where
  "fresh_hasher \<equiv> \<lparr>h_state = init, h_count = 0, h_buffer = replicate B 0\<rparr>"

lemma absorbed_fresh: "absorbed B transform init fresh_hasher []"
  using size_pos by (simp add: absorbed_def chunks_short rest_part_def)

lemma absorbedD:
  fixes s :: "('w, 'c word) hasher"
  assumes "absorbed B transform init s m"
  shows "unat (h_count s AND of_nat (B - 1)) = length m mod B" "h_count s = of_nat (length m)"
    "length (h_buffer s) = B" "h_state s = foldl transform init (chunks B m)"
    "take (length m mod B) (h_buffer s) = rest_part B m" "length m mod B < B"
  using assms offset_mod [of "length m"] size_pos by (simp_all add: absorbed_def)

text \<open>The three ways an update can meet the buffer: empty, still not full, and filled up.\<close>

lemma update_empty:
  fixes s :: "('w, 'c word) hasher"
  assumes abs: "absorbed B transform init s m" and r: "length m mod B = 0"
  shows "absorbed B transform init (hash_update B transform data s) (m @ data)"
proof -
  note a = absorbedD [OF abs]
  have u: "hash_update B transform data s =
      (case absorb B transform data 0 (h_state s) of (st2, idx2) \<Rightarrow>
        \<lparr>h_state = st2, h_count = h_count s + of_nat (length data),
         h_buffer = (if idx2 < length data then overwrite (h_buffer s) 0 (drop idx2 data) else h_buffer s)\<rparr>)"
    using a(1) r by (simp add: hash_update_def Let_def)
  have "(length m + length data) mod B = length data mod B"
    using r mod_add_left_eq [of "length m" B "length data"] by simp
  moreover have "rest_part B m = []" using a(5) r by simp
  ultimately show ?thesis
    using a(2-4) store_rest [OF size_pos, of 0 data "h_buffer s"]
      chunks_rest_append [OF size_pos, of m data] rest_part_append [OF size_pos, of m data]
    by (cases "B * (length data div B) < length data")
      (simp_all add: u absorb_chunks [OF size_pos] absorbed_def)
qed

lemma update_part:
  fixes s :: "('w, 'c word) hasher"
  assumes abs: "absorbed B transform init s m" and r: "0 < length m mod B" "length data < B - length m mod B"
  shows "absorbed B transform init (hash_update B transform data s) (m @ data)"
proof -
  note a = absorbedD [OF abs]
  let ?r = "length m mod B"
  have c: "min (length data) (B - ?r) = length data" "?r + length data \<noteq> B" using r by simp_all
  have u: "hash_update B transform data s = \<lparr>h_state = h_state s,
      h_count = h_count s + of_nat (length data), h_buffer = overwrite (h_buffer s) ?r data\<rparr>"
    using r c a(1) by (simp add: hash_update_def Let_def absorb_chunks [OF size_pos] chunks_def)
  have sm: "length (rest_part B m @ data) < B" using r(2) length_parts(2) [of B m] by simp
  have "(length m + length data) mod B = ?r + length data"
    using sm length_parts(2) [of B m] mod_add_left_eq [of "length m" B "length data"] by simp
  moreover have "rest_part B (m @ data) = rest_part B m @ data"
    using rest_part_append [OF size_pos, of m data] sm by (simp add: rest_part_def [of B "rest_part B m @ data"])
  moreover have "take (?r + length data) (overwrite (h_buffer s) ?r data) = take ?r (h_buffer s) @ data"
    using a(3,6) by (intro take_overwrite_end) simp
  ultimately show ?thesis
    using a(2-5) r(2) chunks_rest_append [OF size_pos, of m data] chunks_short [OF sm]
    by (simp add: u absorbed_def)
qed

lemma update_fill:
  fixes s :: "('w, 'c word) hasher"
  assumes abs: "absorbed B transform init s m" and r: "0 < length m mod B" "B - length m mod B \<le> length data"
  shows "absorbed B transform init (hash_update B transform data s) (m @ data)"
proof -
  note a = absorbedD [OF abs]
  let ?r = "length m mod B"
  define c where "c = B - ?r"
  have c: "min (length data) (B - ?r) = c" "?r + c = B" "c \<le> length data" using r a(6) by (simp_all add: c_def)
  define blk where "blk = rest_part B m @ take c data"
  have ow: "overwrite (h_buffer s) ?r (take c data) = blk"
    using a(3,5) c by (simp add: overwrite_def blk_def)
  have lb: "length blk = B" using c length_parts(2) [of B m] by (simp add: blk_def)
  have u: "hash_update B transform data s =
      (case absorb B transform data c (transform (h_state s) blk) of (st2, idx2) \<Rightarrow>
        \<lparr>h_state = st2, h_count = h_count s + of_nat (length data),
         h_buffer = (if idx2 < length data then overwrite blk 0 (drop idx2 data) else blk)\<rparr>)"
    using r(1) c a(1) ow by (simp add: hash_update_def Let_def cong: prod.case_cong if_cong)
  have sp: "rest_part B m @ data = blk @ drop c data" by (simp add: blk_def)
  have ch: "chunks B (m @ data) = chunks B m @ blk # chunks B (drop c data)"
    using chunks_rest_append [OF size_pos, of m data] chunks_append [OF size_pos, of blk "drop c data"]
      chunks_one [OF lb size_pos] lb sp by simp
  have "rest_part B blk = []" using lb size_pos by (simp add: rest_part_def)
  then have rp: "rest_part B (m @ data) = rest_part B (drop c data)"
    using rest_part_append [OF size_pos, of m data] rest_part_append [OF size_pos, of blk "drop c data"] sp by simp
  have "length m + length data = B * (length m div B) + (B + (length data - c))"
    using c(2,3) mult_div_mod_eq [of B "length m"] by linarith
  then have "(length m + length data) mod B = (length data - c) mod B" by simp
  then show ?thesis
    using a(2,4) store_rest [OF size_pos c(3) lb] ch rp
    by (simp add: u absorb_chunks [OF size_pos c(3)] absorbed_def)
qed

lemma absorbed_update:
  fixes s :: "('w, 'c word) hasher"
  assumes "absorbed B transform init s m"
  shows "absorbed B transform init (hash_update B transform data s) (m @ data)"
proof -
  consider "length m mod B = 0" | "0 < length m mod B" "length data < B - length m mod B"
    | "0 < length m mod B" "B - length m mod B \<le> length data" by linarith
  then show ?thesis using update_empty update_part update_fill assms by cases simp_all
qed

lemma absorbed_updates:
  fixes s :: "('w, 'c word) hasher"
  shows "absorbed B transform init s m \<Longrightarrow>
     absorbed B transform init (fold (hash_update B transform) ds s) (m @ concat ds)"
proof (induction ds arbitrary: s m)
  case (Cons d ds)
  from Cons.IH [OF absorbed_update [OF Cons.prems]] show ?case by simp
qed simp

lemma closed_block:
  fixes s :: "('w, 'c word) hasher"
  assumes "absorbed B transform init s m"
  shows "fold (\<lambda>i b. b[i := 0]) [length m mod B + 1..<B] ((h_buffer s)[length m mod B := 0x80])
    = rest_part B m @ [0x80] @ replicate (B - Suc (length m mod B)) 0"
proof -
  note a = absorbedD [OF assms]
  let ?r = "length m mod B"
  have "fold (\<lambda>i b. b[i := 0]) [?r + 1..<B] ((h_buffer s)[?r := 0x80])
      = take (Suc ?r) ((h_buffer s)[?r := 0x80]) @ replicate (B - Suc ?r) 0"
    using fold_zero_tail [of "Suc ?r" "(h_buffer s)[?r := 0x80]"] a(3,6) by simp
  also have "take (Suc ?r) ((h_buffer s)[?r := 0x80]) = rest_part B m @ [0x80]"
    using a(3,5,6) by (simp add: take_Suc_conv_app_nth)
  finally show ?thesis by simp
qed

lemma finalize_spec:
  fixes s :: "('w, 'c word) hasher"
  assumes abs: "absorbed B transform init s m"
  shows "h_state (hash_finalize B L transform len_bytes s) = hash_spec B L transform len_bytes init m"
proof -
  define r where "r = length m mod B"
  note a = absorbedD [OF abs, folded r_def]
  note buf2 = closed_block [OF abs, folded r_def]
  have rest: "length (rest_part B m) = r" by (simp add: r_def length_parts)
  have len: "h_count s * 8 = of_nat (8 * length m)" using a(2) by simp
  let ?lb = "len_bytes (of_nat (8 * length m))"
  have spec: "hash_spec B L transform len_bytes init m =
      foldl transform (h_state s) (chunks B (rest_part B m @ [0x80] @ replicate (zero_pad B L (length m)) 0 @ ?lb))"
    using a(4) chunks_rest_append [OF size_pos, of m] by (simp add: hash_spec_def pad_message_def)
  show ?thesis
  proof (cases "L \<le> r")
    case False
    let ?blk = "rest_part B m @ [0x80] @ replicate (L - 1 - r) 0 @ ?lb"
    have "replicate (B - Suc r) (0 :: u8) = replicate (L - 1 - r) 0 @ replicate (B - L) 0"
      using False a(6) length_field(2) by (simp flip: replicate_add)
    then have ow: "overwrite (rest_part B m @ [0x80] @ replicate (B - Suc r) 0) L ?lb = ?blk"
      using False rest length_field by (simp add: overwrite_def Suc_diff_Suc [symmetric])
    have "length ?blk = B" using False rest length_field by simp
    then have "chunks B ?blk = [?blk]" by (rule chunks_one [OF _ size_pos])
    moreover have "zero_pad B L (length m) = L - 1 - r" using False by (simp add: zero_pad_def r_def)
    ultimately show ?thesis
      using False spec ow by (simp add: hash_finalize_def Let_def a(1) [simplified] buf2 [simplified] len del: of_nat_mult)
  next
    case True
    let ?b1 = "rest_part B m @ [0x80] @ replicate (B - Suc r) 0" and ?b2 = "replicate L 0 @ ?lb"
    have l: "length ?b1 = B" "length ?b2 = B" using a(6) rest length_field by simp_all
    have ow: "overwrite (replicate B 0) L ?lb = ?b2"
      using length_field by (simp add: overwrite_def)
    have "zero_pad B L (length m) = (B - Suc r) + L" using True by (simp add: zero_pad_def r_def)
    then have "rest_part B m @ [0x80] @ replicate (zero_pad B L (length m)) 0 @ ?lb = ?b1 @ ?b2"
      by (simp add: replicate_add)
    moreover have "chunks B (?b1 @ ?b2) = [?b1, ?b2]"
      using chunks_append [OF size_pos, of ?b1 ?b2] chunks_one [OF l(1) size_pos] chunks_one [OF l(2) size_pos] l
      by simp
    ultimately show ?thesis
      using True spec ow by (simp add: hash_finalize_def Let_def a(1) [simplified] buf2 [simplified] len del: of_nat_mult)
  qed
qed

lemma stream_spec:
  "h_state (hash_finalize B L transform len_bytes (fold (hash_update B transform) ds fresh_hasher))
     = hash_spec B L transform len_bytes init (concat ds)"
  using finalize_spec [OF absorbed_updates [OF absorbed_fresh]] by simp

end

end
