(* ===== verification/Hash.thy ===== *)
theory Hash
  imports Hash_Stream
begin

text \<open>
  The digests of \<open>src/nt61/src/crypto/hash.rs\<close>: MD5, SHA-1, SHA-256, SHA-512 and SHA-384,
  and the keyed digest HMAC-SHA-256, each with the block transformation written as in
  the source.  The reference definitions of the SHA block functions are the recursive
  message schedules and round equations of FIPS 180-4.  Lemmas: the array loops
  compute the reference schedules, the transformations are the reference block
  functions, every digest of a stream is the reference digest of the concatenated
  input, and HMAC is the nested digest of RFC 2104.
\<close>

section \<open>Byte order\<close>

definition word_to_le_bytes :: "nat \<Rightarrow> 'a :: len word \<Rightarrow> u8 list" where
  "word_to_le_bytes n v = map (\<lambda>i. ucast (drop_bit (8 * i) v)) [0..<n]"

definition word_to_be_bytes :: "nat \<Rightarrow> 'a :: len word \<Rightarrow> u8 list" where
  "word_to_be_bytes n v = rev (word_to_le_bytes n v)"

definition word_from_be_bytes :: "u8 list \<Rightarrow> 'a :: len word" where
  "word_from_be_bytes bs = foldl (\<lambda>a b. push_bit 8 a OR ucast b) 0 bs"

definition word_from_le_bytes :: "u8 list \<Rightarrow> 'a :: len word" where
  "word_from_le_bytes bs = word_from_be_bytes (rev bs)"

lemma length_word_bytes [simp]:
  "length (word_to_le_bytes n v) = n" "length (word_to_be_bytes n v) = n"
  by (simp_all add: word_to_le_bytes_def word_to_be_bytes_def)

text \<open>The words of a block, \<open>n\<close> bytes each.\<close>

definition block_word :: "nat \<Rightarrow> u8 list \<Rightarrow> nat \<Rightarrow> 'a :: len word" where
  "block_word n block i = word_from_be_bytes (slice_of block (i * n) (i * n + n))"

section \<open>MD5\<close>

definition md5_f :: "u32 \<Rightarrow> u32 \<Rightarrow> u32 \<Rightarrow> u32" where "md5_f x y z = (x AND y) OR (NOT x AND z)"
definition md5_g :: "u32 \<Rightarrow> u32 \<Rightarrow> u32 \<Rightarrow> u32" where "md5_g x y z = (x AND z) OR (y AND NOT z)"
definition md5_h :: "u32 \<Rightarrow> u32 \<Rightarrow> u32 \<Rightarrow> u32" where "md5_h x y z = x XOR y XOR z"
definition md5_i :: "u32 \<Rightarrow> u32 \<Rightarrow> u32 \<Rightarrow> u32" where "md5_i x y z = y XOR (x OR NOT z)"

text \<open>
  One step \<open>op!(a, b, c, d, k, s, t)\<close>.  The next step of the source names the variables
  \<open>(d, a, b, c)\<close>; the tuple is returned in that order, so four steps bring it round.
\<close>

definition md5_op ::
  "(u32 \<Rightarrow> u32 \<Rightarrow> u32 \<Rightarrow> u32) \<Rightarrow> u32 list \<Rightarrow> nat \<times> nat \<times> u32 \<Rightarrow>
     u32 \<times> u32 \<times> u32 \<times> u32 \<Rightarrow> u32 \<times> u32 \<times> u32 \<times> u32" where
  "md5_op fn x p v = (case p of (k, s, t) \<Rightarrow> case v of (a, b, c, d) \<Rightarrow>
     (d, b + word_rotl s (a + fn b c d + x ! k + t), b, c))"

definition MD5_ROUND1 :: "(nat \<times> nat \<times> u32) list" where
  "MD5_ROUND1 = [
     (0, 7, 0xd76aa478), (1, 12, 0xe8c7b756), (2, 17, 0x242070db), (3, 22, 0xc1bdceee),
     (4, 7, 0xf57c0faf), (5, 12, 0x4787c62a), (6, 17, 0xa8304613), (7, 22, 0xfd469501),
     (8, 7, 0x698098d8), (9, 12, 0x8b44f7af), (10, 17, 0xffff5bb1), (11, 22, 0x895cd7be),
     (12, 7, 0x6b901122), (13, 12, 0xfd987193), (14, 17, 0xa679438e), (15, 22, 0x49b40821)]"

definition MD5_ROUND2 :: "(nat \<times> nat \<times> u32) list" where
  "MD5_ROUND2 = [
     (1, 5, 0xf61e2562), (6, 9, 0xc040b340), (11, 14, 0x265e5a51), (0, 20, 0xe9b6c7aa),
     (5, 5, 0xd62f105d), (10, 9, 0x02441453), (15, 14, 0xd8a1e681), (4, 20, 0xe7d3fbc8),
     (9, 5, 0x21e1cde6), (14, 9, 0xc33707d6), (3, 14, 0xf4d50d87), (8, 20, 0x455a14ed),
     (13, 5, 0xa9e3e905), (2, 9, 0xfcefa3f8), (7, 14, 0x676f02d9), (12, 20, 0x8d2a4c8a)]"

definition MD5_ROUND3 :: "(nat \<times> nat \<times> u32) list" where
  "MD5_ROUND3 = [
     (5, 4, 0xfffa3942), (8, 11, 0x8771f681), (11, 16, 0x6d9d6122), (14, 23, 0xfde5380c),
     (1, 4, 0xa4beea44), (4, 11, 0x4bdecfa9), (7, 16, 0xf6bb4b60), (10, 23, 0xbebfbc70),
     (13, 4, 0x289b7ec6), (0, 11, 0xeaa127fa), (3, 16, 0xd4ef3085), (6, 23, 0x04881d05),
     (9, 4, 0xd9d4d039), (12, 11, 0xe6db99e5), (15, 16, 0x1fa27cf8), (2, 23, 0xc4ac5665)]"

definition MD5_ROUND4 :: "(nat \<times> nat \<times> u32) list" where
  "MD5_ROUND4 = [
     (0, 6, 0xf4292244), (7, 10, 0x432aff97), (14, 15, 0xab9423a7), (5, 21, 0xfc93a039),
     (12, 6, 0x655b59c3), (3, 10, 0x8f0ccc92), (10, 15, 0xffeff47d), (1, 21, 0x85845dd1),
     (8, 6, 0x6fa87e4f), (15, 10, 0xfe2ce6e0), (6, 15, 0xa3014314), (13, 21, 0x4e0811a1),
     (4, 6, 0xf7537e82), (11, 10, 0xbd3af235), (2, 15, 0x2ad7d2bb), (9, 21, 0xeb86d391)]"

definition md5_transform :: "u32 list \<Rightarrow> u8 list \<Rightarrow> u32 list" where
  "md5_transform state block =
     (let x = map (\<lambda>i. word_from_le_bytes (slice_of block (i * 4) (i * 4 + 4))) [0..<16];
          v0 = (state ! 0, state ! 1, state ! 2, state ! 3);
          v1 = fold (md5_op md5_f x) MD5_ROUND1 v0;
          v2 = fold (md5_op md5_g x) MD5_ROUND2 v1;
          v3 = fold (md5_op md5_h x) MD5_ROUND3 v2
      in case fold (md5_op md5_i x) MD5_ROUND4 v3 of (a, b, c, d) \<Rightarrow>
           [state ! 0 + a, state ! 1 + b, state ! 2 + c, state ! 3 + d])"

definition MD5_INIT :: "u32 list" where
  "MD5_INIT = [0x67452301, 0xefcdab89, 0x98badcfe, 0x10325476]"

definition md5_new :: "(u32, u64) hasher" where
  "md5_new = \<lparr>h_state = MD5_INIT, h_count = 0, h_buffer = replicate 64 0\<rparr>"

definition md5_update :: "u8 list \<Rightarrow> (u32, u64) hasher \<Rightarrow> (u32, u64) hasher" where
  "md5_update data s = hash_update 64 md5_transform data s"

definition md5_finalize :: "(u32, u64) hasher \<Rightarrow> u8 list \<times> (u32, u64) hasher" where
  "md5_finalize s = (let s' = hash_finalize 64 56 md5_transform (word_to_le_bytes 8) s
     in (concat (map (word_to_le_bytes 4) (h_state s')), s'))"

section \<open>SHA-1\<close>

definition sha1_schedule :: "u8 list \<Rightarrow> u32 list" where
  "sha1_schedule block = fold (\<lambda>i w. w[i :=
       word_rotl 1 (w ! (i - 3) XOR w ! (i - 8) XOR w ! (i - 14) XOR w ! (i - 16))])
     [16..<80] (map (block_word 4 block) [0..<16] @ replicate 64 0)"

definition sha1_mix :: "nat \<Rightarrow> u32 \<Rightarrow> u32 \<Rightarrow> u32 \<Rightarrow> u32 \<times> u32" where
  "sha1_mix i b c d =
     (if i < 20 then ((b AND c) OR (NOT b AND d), 0x5a827999)
      else if i < 40 then (b XOR c XOR d, 0x6ed9eba1)
      else if i < 60 then ((b AND c) OR (b AND d) OR (c AND d), 0x8f1bbcdc)
      else (b XOR c XOR d, 0xca62c1d6))"

definition sha1_round ::
  "u32 list \<Rightarrow> nat \<Rightarrow> u32 \<times> u32 \<times> u32 \<times> u32 \<times> u32 \<Rightarrow> u32 \<times> u32 \<times> u32 \<times> u32 \<times> u32" where
  "sha1_round w i v = (case v of (a, b, c, d, e) \<Rightarrow> case sha1_mix i b c d of (f, k) \<Rightarrow>
     let temp = word_rotl 5 a + f + e + k + w ! i
     in (temp, a, word_rotl 30 b, c, d))"

definition sha1_transform :: "u32 list \<Rightarrow> u8 list \<Rightarrow> u32 list" where
  "sha1_transform st block =
     (case fold (sha1_round (sha1_schedule block)) [0..<80] (st ! 0, st ! 1, st ! 2, st ! 3, st ! 4) of
        (a, b, c, d, e) \<Rightarrow> [st ! 0 + a, st ! 1 + b, st ! 2 + c, st ! 3 + d, st ! 4 + e])"

definition SHA1_INIT :: "u32 list" where
  "SHA1_INIT = [0x67452301, 0xefcdab89, 0x98badcfe, 0x10325476, 0xc3d2e1f0]"

definition sha1_new :: "(u32, u64) hasher" where
  "sha1_new = \<lparr>h_state = SHA1_INIT, h_count = 0, h_buffer = replicate 64 0\<rparr>"

definition sha1_update :: "u8 list \<Rightarrow> (u32, u64) hasher \<Rightarrow> (u32, u64) hasher" where
  "sha1_update data s = hash_update 64 sha1_transform data s"

definition sha1_finalize :: "(u32, u64) hasher \<Rightarrow> u8 list \<times> (u32, u64) hasher" where
  "sha1_finalize s = (let s' = hash_finalize 64 56 sha1_transform (word_to_be_bytes 8) s
     in (concat (map (word_to_be_bytes 4) (h_state s')), s'))"

section \<open>SHA-256\<close>

definition SHA256_K :: "u32 list" where
  "SHA256_K = concat [
     [0x428a2f98, 0x71374491, 0xb5c0fbcf, 0xe9b5dba5, 0x3956c25b, 0x59f111f1, 0x923f82a4, 0xab1c5ed5],
     [0xd807aa98, 0x12835b01, 0x243185be, 0x550c7dc3, 0x72be5d74, 0x80deb1fe, 0x9bdc06a7, 0xc19bf174],
     [0xe49b69c1, 0xefbe4786, 0x0fc19dc6, 0x240ca1cc, 0x2de92c6f, 0x4a7484aa, 0x5cb0a9dc, 0x76f988da],
     [0x983e5152, 0xa831c66d, 0xb00327c8, 0xbf597fc7, 0xc6e00bf3, 0xd5a79147, 0x06ca6351, 0x14292967],
     [0x27b70a85, 0x2e1b2138, 0x4d2c6dfc, 0x53380d13, 0x650a7354, 0x766a0abb, 0x81c2c92e, 0x92722c85],
     [0xa2bfe8a1, 0xa81a664b, 0xc24b8b70, 0xc76c51a3, 0xd192e819, 0xd6990624, 0xf40e3585, 0x106aa070],
     [0x19a4c116, 0x1e376c08, 0x2748774c, 0x34b0bcb5, 0x391c0cb3, 0x4ed8aa4a, 0x5b9cca4f, 0x682e6ff3],
     [0x748f82ee, 0x78a5636f, 0x84c87814, 0x8cc70208, 0x90befffa, 0xa4506ceb, 0xbef9a3f7, 0xc67178f2]]"

definition sha256_schedule :: "u8 list \<Rightarrow> u32 list" where
  "sha256_schedule block = fold (\<lambda>i w.
       let s0 = word_rotr 7 (w ! (i - 15)) XOR word_rotr 18 (w ! (i - 15)) XOR drop_bit 3 (w ! (i - 15));
           s1 = word_rotr 17 (w ! (i - 2)) XOR word_rotr 19 (w ! (i - 2)) XOR drop_bit 10 (w ! (i - 2))
       in w[i := w ! (i - 16) + s0 + w ! (i - 7) + s1])
     [16..<64] (map (block_word 4 block) [0..<16] @ replicate 48 0)"

type_synonym 'w vars8 = "'w \<times> 'w \<times> 'w \<times> 'w \<times> 'w \<times> 'w \<times> 'w \<times> 'w"

definition sha256_round :: "u32 list \<Rightarrow> nat \<Rightarrow> u32 vars8 \<Rightarrow> u32 vars8" where
  "sha256_round w i v = (case v of (a, b, c, d, e, f, g, h) \<Rightarrow>
     let s1 = word_rotr 6 e XOR word_rotr 11 e XOR word_rotr 25 e;
         ch = (e AND f) XOR (NOT e AND g);
         temp1 = h + s1 + ch + SHA256_K ! i + w ! i;
         s0 = word_rotr 2 a XOR word_rotr 13 a XOR word_rotr 22 a;
         maj = (a AND b) XOR (a AND c) XOR (b AND c);
         temp2 = s0 + maj
     in (temp1 + temp2, a, b, c, d + temp1, e, f, g))"

definition add_vars8 :: "'a :: plus list \<Rightarrow> 'a vars8 \<Rightarrow> 'a list" where
  "add_vars8 st v = (case v of (a, b, c, d, e, f, g, h) \<Rightarrow>
     [st ! 0 + a, st ! 1 + b, st ! 2 + c, st ! 3 + d, st ! 4 + e, st ! 5 + f, st ! 6 + g, st ! 7 + h])"

definition vars8_of :: "'a list \<Rightarrow> 'a vars8" where
  "vars8_of st = (st ! 0, st ! 1, st ! 2, st ! 3, st ! 4, st ! 5, st ! 6, st ! 7)"

definition sha256_transform :: "u32 list \<Rightarrow> u8 list \<Rightarrow> u32 list" where
  "sha256_transform st block =
     (let w = sha256_schedule block in add_vars8 st (fold (sha256_round w) [0..<64] (vars8_of st)))"

definition SHA256_INIT :: "u32 list" where
  "SHA256_INIT = [0x6a09e667, 0xbb67ae85, 0x3c6ef372, 0xa54ff53a, 0x510e527f, 0x9b05688c,
     0x1f83d9ab, 0x5be0cd19]"

definition sha256_new :: "(u32, u64) hasher" where
  "sha256_new = \<lparr>h_state = SHA256_INIT, h_count = 0, h_buffer = replicate 64 0\<rparr>"

definition sha256_update :: "u8 list \<Rightarrow> (u32, u64) hasher \<Rightarrow> (u32, u64) hasher" where
  "sha256_update data s = hash_update 64 sha256_transform data s"

definition sha256_finalize :: "(u32, u64) hasher \<Rightarrow> u8 list \<times> (u32, u64) hasher" where
  "sha256_finalize s = (let s' = hash_finalize 64 56 sha256_transform (word_to_be_bytes 8) s
     in (concat (map (word_to_be_bytes 4) (h_state s')), s'))"

section \<open>SHA-512 and SHA-384\<close>

definition SHA512_K :: "u64 list" where
  "SHA512_K = concat [
     [0x428a2f98d728ae22, 0x7137449123ef65cd, 0xb5c0fbcfec4d3b2f, 0xe9b5dba58189dbbc],
     [0x3956c25bf348b538, 0x59f111f1b605d019, 0x923f82a4af194f9b, 0xab1c5ed5da6d8118],
     [0xd807aa98a3030242, 0x12835b0145706fbe, 0x243185be4ee4b28c, 0x550c7dc3d5ffb4e2],
     [0x72be5d74f27b896f, 0x80deb1fe3b1696b1, 0x9bdc06a725c71235, 0xc19bf174cf692694],
     [0xe49b69c19ef14ad2, 0xefbe4786384f25e3, 0x0fc19dc68b8cd5b5, 0x240ca1cc77ac9c65],
     [0x2de92c6f592b0275, 0x4a7484aa6ea6e483, 0x5cb0a9dcbd41fbd4, 0x76f988da831153b5],
     [0x983e5152ee66dfab, 0xa831c66d2db43210, 0xb00327c898fb213f, 0xbf597fc7beef0ee4],
     [0xc6e00bf33da88fc2, 0xd5a79147930aa725, 0x06ca6351e003826f, 0x142929670a0e6e70],
     [0x27b70a8546d22ffc, 0x2e1b21385c26c926, 0x4d2c6dfc5ac42aed, 0x53380d139d95b3df],
     [0x650a73548baf63de, 0x766a0abb3c77b2a8, 0x81c2c92e47edaee6, 0x92722c851482353b],
     [0xa2bfe8a14cf10364, 0xa81a664bbc423001, 0xc24b8b70d0f89791, 0xc76c51a30654be30],
     [0xd192e819d6ef5218, 0xd69906245565a910, 0xf40e35855771202a, 0x106aa07032bbd1b8],
     [0x19a4c116b8d2d0c8, 0x1e376c085141ab53, 0x2748774cdf8eeb99, 0x34b0bcb5e19b48a8],
     [0x391c0cb3c5c95a63, 0x4ed8aa4ae3418acb, 0x5b9cca4f7763e373, 0x682e6ff3d6b2b8a3],
     [0x748f82ee5defb2fc, 0x78a5636f43172f60, 0x84c87814a1f0ab72, 0x8cc702081a6439ec],
     [0x90befffa23631e28, 0xa4506cebde82bde9, 0xbef9a3f7b2c67915, 0xc67178f2e372532b],
     [0xca273eceea26619c, 0xd186b8c721c0c207, 0xeada7dd6cde0eb1e, 0xf57d4f7fee6ed178],
     [0x06f067aa72176fba, 0x0a637dc5a2c898a6, 0x113f9804bef90dae, 0x1b710b35131c471b],
     [0x28db77f523047d84, 0x32caab7b40c72493, 0x3c9ebe0a15c9bebc, 0x431d67c49c100d4c],
     [0x4cc5d4becb3e42b6, 0x597f299cfc657e2a, 0x5fcb6fab3ad6faec, 0x6c44198c4a475817]]"

definition sha512_schedule :: "u8 list \<Rightarrow> u64 list" where
  "sha512_schedule block = fold (\<lambda>i w.
       let s0 = word_rotr 1 (w ! (i - 15)) XOR word_rotr 8 (w ! (i - 15)) XOR drop_bit 7 (w ! (i - 15));
           s1 = word_rotr 19 (w ! (i - 2)) XOR word_rotr 61 (w ! (i - 2)) XOR drop_bit 6 (w ! (i - 2))
       in w[i := w ! (i - 16) + s0 + w ! (i - 7) + s1])
     [16..<80] (map (block_word 8 block) [0..<16] @ replicate 64 0)"

definition sha512_round :: "u64 list \<Rightarrow> nat \<Rightarrow> u64 vars8 \<Rightarrow> u64 vars8" where
  "sha512_round w i v = (case v of (a, b, c, d, e, f, g, h) \<Rightarrow>
     let s1 = word_rotr 14 e XOR word_rotr 18 e XOR word_rotr 41 e;
         ch = (e AND f) XOR (NOT e AND g);
         temp1 = h + s1 + ch + SHA512_K ! i + w ! i;
         s0 = word_rotr 28 a XOR word_rotr 34 a XOR word_rotr 39 a;
         maj = (a AND b) XOR (a AND c) XOR (b AND c);
         temp2 = s0 + maj
     in (temp1 + temp2, a, b, c, d + temp1, e, f, g))"

definition sha512_transform :: "u64 list \<Rightarrow> u8 list \<Rightarrow> u64 list" where
  "sha512_transform st block =
     (let w = sha512_schedule block in add_vars8 st (fold (sha512_round w) [0..<80] (vars8_of st)))"

definition SHA512_INIT :: "u64 list" where
  "SHA512_INIT = [0x6a09e667f3bcc908, 0xbb67ae8584caa73b, 0x3c6ef372fe94f82b, 0xa54ff53a5f1d36f1,
     0x510e527fade682d1, 0x9b05688c2b3e6c1f, 0x1f83d9abfb41bd6b, 0x5be0cd19137e2179]"

definition sha512_new :: "(u64, u128) hasher" where
  "sha512_new = \<lparr>h_state = SHA512_INIT, h_count = 0, h_buffer = replicate 128 0\<rparr>"

definition sha512_update :: "u8 list \<Rightarrow> (u64, u128) hasher \<Rightarrow> (u64, u128) hasher" where
  "sha512_update data s = hash_update 128 sha512_transform data s"

definition sha512_finalize :: "(u64, u128) hasher \<Rightarrow> u8 list \<times> (u64, u128) hasher" where
  "sha512_finalize s = (let s' = hash_finalize 128 112 sha512_transform (word_to_be_bytes 16) s
     in (concat (map (word_to_be_bytes 8) (h_state s')), s'))"

definition SHA384_INIT :: "u64 list" where
  "SHA384_INIT = [0xcbbb9d5dc1059ed8, 0x629a292a367cd507, 0x9159015a3070dd17, 0x152fecd8f70e5939,
     0x67332667ffc00b31, 0x8eb44a8768581511, 0xdb0c2e0d64f98fa7, 0x47b5481dbefa4fa4]"

definition sha384_new :: "(u64, u128) hasher" where
  "sha384_new = sha512_new\<lparr>h_state := SHA384_INIT\<rparr>"

definition sha384_update :: "u8 list \<Rightarrow> (u64, u128) hasher \<Rightarrow> (u64, u128) hasher" where
  "sha384_update data s = sha512_update data s"

definition sha384_finalize :: "(u64, u128) hasher \<Rightarrow> u8 list \<times> (u64, u128) hasher" where
  "sha384_finalize s = (case sha512_finalize s of (full, s') \<Rightarrow> (take 48 full, s'))"

section \<open>HMAC and the one-shot functions\<close>

record hmac =
  hm_hasher :: "(u32, u64) hasher"
  hm_outer_hasher :: "(u32, u64) hasher"

definition xor_into :: "u8 list \<Rightarrow> u8 list \<Rightarrow> u8 list" where
  "xor_into pad key = fold (\<lambda>i p. p[i := p ! i XOR key ! i]) [0..<length key] pad"

definition hmac_new_sha256 :: "u8 list \<Rightarrow> hmac" where
  "hmac_new_sha256 key =
     (let k = (if 64 < length key then fst (sha256_finalize (sha256_update key sha256_new)) else key);
          ipad = xor_into (replicate 64 0x36) k;
          opad = xor_into (replicate 64 0x5c) k
      in \<lparr>hm_hasher = sha256_update ipad sha256_new, hm_outer_hasher = sha256_update opad sha256_new\<rparr>)"

definition hmac_update :: "u8 list \<Rightarrow> hmac \<Rightarrow> hmac" where
  "hmac_update data h = h\<lparr>hm_hasher := sha256_update data (hm_hasher h)\<rparr>"

definition hmac_finalize :: "hmac \<Rightarrow> u8 list \<times> hmac" where
  "hmac_finalize h = (case sha256_finalize (hm_hasher h) of (inner_hash, s1) \<Rightarrow>
     case sha256_finalize (sha256_update inner_hash (hm_outer_hasher h)) of (digest, s2) \<Rightarrow>
       (digest, h\<lparr>hm_hasher := s1, hm_outer_hasher := s2\<rparr>))"

definition md5 :: "u8 list \<Rightarrow> u8 list" where
  "md5 data = fst (md5_finalize (md5_update data md5_new))"

definition sha1 :: "u8 list \<Rightarrow> u8 list" where
  "sha1 data = fst (sha1_finalize (sha1_update data sha1_new))"

definition sha256 :: "u8 list \<Rightarrow> u8 list" where
  "sha256 data = fst (sha256_finalize (sha256_update data sha256_new))"

definition sha384 :: "u8 list \<Rightarrow> u8 list" where
  "sha384 data = fst (sha384_finalize (sha384_update data sha384_new))"

definition sha512 :: "u8 list \<Rightarrow> u8 list" where
  "sha512 data = fst (sha512_finalize (sha512_update data sha512_new))"

section \<open>Streams\<close>

interpretation md5_hash: block_hash 64 56 6 md5_transform "word_to_le_bytes 8 :: u64 \<Rightarrow> u8 list" MD5_INIT
  by unfold_locales simp_all

interpretation sha1_hash: block_hash 64 56 6 sha1_transform "word_to_be_bytes 8 :: u64 \<Rightarrow> u8 list" SHA1_INIT
  by unfold_locales simp_all

interpretation sha256_hash: block_hash 64 56 6 sha256_transform "word_to_be_bytes 8 :: u64 \<Rightarrow> u8 list" SHA256_INIT
  by unfold_locales simp_all

interpretation sha512_hash: block_hash 128 112 7 sha512_transform
  "word_to_be_bytes 16 :: 128 word \<Rightarrow> u8 list" SHA512_INIT
  by unfold_locales simp_all

interpretation sha384_hash: block_hash 128 112 7 sha512_transform
  "word_to_be_bytes 16 :: 128 word \<Rightarrow> u8 list" SHA384_INIT
  by unfold_locales simp_all

section \<open>The block functions of FIPS 180-4\<close>

definition Ch :: "'a :: len word \<Rightarrow> 'a word \<Rightarrow> 'a word \<Rightarrow> 'a word" where
  "Ch x y z = (x AND y) XOR (NOT x AND z)"

definition Parity :: "'a :: len word \<Rightarrow> 'a word \<Rightarrow> 'a word \<Rightarrow> 'a word" where
  "Parity x y z = x XOR y XOR z"

definition Maj :: "'a :: len word \<Rightarrow> 'a word \<Rightarrow> 'a word \<Rightarrow> 'a word" where
  "Maj x y z = (x AND y) XOR (x AND z) XOR (y AND z)"

function sha1_W :: "u8 list \<Rightarrow> nat \<Rightarrow> u32" where
  "sha1_W m t = (if t < 16 then block_word 4 m t
     else word_rotl 1 (sha1_W m (t - 3) XOR sha1_W m (t - 8) XOR sha1_W m (t - 14) XOR sha1_W m (t - 16)))"
  by pat_completeness auto
termination by (relation "measure snd") auto

function sha256_W :: "u8 list \<Rightarrow> nat \<Rightarrow> u32" where
  "sha256_W m t = (if t < 16 then block_word 4 m t
     else let x = sha256_W m (t - 2); y = sha256_W m (t - 15) in
       (word_rotr 17 x XOR word_rotr 19 x XOR drop_bit 10 x) + sha256_W m (t - 7)
       + (word_rotr 7 y XOR word_rotr 18 y XOR drop_bit 3 y) + sha256_W m (t - 16))"
  by pat_completeness auto
termination by (relation "measure snd") auto

function sha512_W :: "u8 list \<Rightarrow> nat \<Rightarrow> u64" where
  "sha512_W m t = (if t < 16 then block_word 8 m t
     else let x = sha512_W m (t - 2); y = sha512_W m (t - 15) in
       (word_rotr 19 x XOR word_rotr 61 x XOR drop_bit 6 x) + sha512_W m (t - 7)
       + (word_rotr 1 y XOR word_rotr 8 y XOR drop_bit 7 y) + sha512_W m (t - 16))"
  by pat_completeness auto
termination by (relation "measure snd") auto

declare sha1_W.simps [simp del] sha256_W.simps [simp del] sha512_W.simps [simp del]

primrec sha1_vars :: "u32 list \<Rightarrow> u8 list \<Rightarrow> nat \<Rightarrow> u32 \<times> u32 \<times> u32 \<times> u32 \<times> u32" where
  "sha1_vars H m 0 = (H ! 0, H ! 1, H ! 2, H ! 3, H ! 4)"
| "sha1_vars H m (Suc t) = (case sha1_vars H m t of (a, b, c, d, e) \<Rightarrow>
     let f = (if t \<le> 19 then Ch b c d else if t \<le> 39 then Parity b c d
              else if t \<le> 59 then Maj b c d else Parity b c d);
         K = (if t \<le> 19 then 0x5a827999 else if t \<le> 39 then 0x6ed9eba1
              else if t \<le> 59 then 0x8f1bbcdc else 0xca62c1d6)
     in (word_rotl 5 a + f + e + K + sha1_W m t, a, word_rotl 30 b, c, d))"

primrec sha256_vars :: "u32 list \<Rightarrow> u8 list \<Rightarrow> nat \<Rightarrow> u32 vars8" where
  "sha256_vars H m 0 = vars8_of H"
| "sha256_vars H m (Suc t) = (case sha256_vars H m t of (a, b, c, d, e, f, g, h) \<Rightarrow>
     let T1 = h + (word_rotr 6 e XOR word_rotr 11 e XOR word_rotr 25 e) + Ch e f g
            + SHA256_K ! t + sha256_W m t;
         T2 = (word_rotr 2 a XOR word_rotr 13 a XOR word_rotr 22 a) + Maj a b c
     in (T1 + T2, a, b, c, d + T1, e, f, g))"

primrec sha512_vars :: "u64 list \<Rightarrow> u8 list \<Rightarrow> nat \<Rightarrow> u64 vars8" where
  "sha512_vars H m 0 = vars8_of H"
| "sha512_vars H m (Suc t) = (case sha512_vars H m t of (a, b, c, d, e, f, g, h) \<Rightarrow>
     let T1 = h + (word_rotr 14 e XOR word_rotr 18 e XOR word_rotr 41 e) + Ch e f g
            + SHA512_K ! t + sha512_W m t;
         T2 = (word_rotr 28 a XOR word_rotr 34 a XOR word_rotr 39 a) + Maj a b c
     in (T1 + T2, a, b, c, d + T1, e, f, g))"

definition sha1_block :: "u32 list \<Rightarrow> u8 list \<Rightarrow> u32 list" where
  "sha1_block H m = (case sha1_vars H m 80 of (a, b, c, d, e) \<Rightarrow>
     [H ! 0 + a, H ! 1 + b, H ! 2 + c, H ! 3 + d, H ! 4 + e])"

definition sha256_block :: "u32 list \<Rightarrow> u8 list \<Rightarrow> u32 list" where
  "sha256_block H m = add_vars8 H (sha256_vars H m 64)"

definition sha512_block :: "u64 list \<Rightarrow> u8 list \<Rightarrow> u64 list" where
  "sha512_block H m = add_vars8 H (sha512_vars H m 80)"

section \<open>The transformations are the reference block functions\<close>

lemma fold_schedule:
  assumes "length w0 = N" "n \<le> N" "\<And>t. t < n \<Longrightarrow> w0 ! t = W t"
    and step: "\<And>w t. n \<le> t \<Longrightarrow> t < N \<Longrightarrow> (\<And>j. j < t \<Longrightarrow> w ! j = W j) \<Longrightarrow> h t w = w[t := W t]"
  shows "t < N \<Longrightarrow> fold h [n..<N] w0 ! t = W t"
proof -
  have "length (fold h [n..<n + k] w0) = N \<and> (\<forall>t < n + k. fold h [n..<n + k] w0 ! t = W t)"
    if "n + k \<le> N" for k
    using that
  proof (induction k)
    case (Suc k)
    let ?w = "fold h [n..<n + k] w0"
    have "h (n + k) ?w = ?w[n + k := W (n + k)]" using Suc by (intro step) simp_all
    with Suc show ?case by (auto simp: nth_list_update less_Suc_eq)
  qed (use assms in simp)
  from this [of "N - n"] assms(2) show "t < N \<Longrightarrow> fold h [n..<N] w0 ! t = W t" by simp
qed

lemma sha1_schedule_W: "t < 80 \<Longrightarrow> sha1_schedule m ! t = sha1_W m t"
  unfolding sha1_schedule_def
  by (rule fold_schedule [where n = 16])
    (simp_all add: nth_append sha1_W.simps [of m "_ :: nat"])

lemma sha256_schedule_W: "t < 64 \<Longrightarrow> sha256_schedule m ! t = sha256_W m t"
  unfolding sha256_schedule_def
  by (rule fold_schedule [where n = 16])
    (simp_all add: nth_append Let_def ac_simps sha256_W.simps [of m "_ :: nat"])

lemma sha512_schedule_W: "t < 80 \<Longrightarrow> sha512_schedule m ! t = sha512_W m t"
  unfolding sha512_schedule_def
  by (rule fold_schedule [where n = 16])
    (simp_all add: nth_append Let_def ac_simps sha512_W.simps [of m "_ :: nat"])

lemma ch_or: "(b AND c) OR (NOT b AND d) = Ch b c d"
  by (rule bit_word_eqI) (auto simp: Ch_def bit_simps)

lemma maj_or: "(b AND c) OR (b AND d) OR (c AND d) = Maj b c d"
  by (rule bit_word_eqI) (auto simp: Maj_def bit_simps)

lemma sha1_rounds: "n \<le> 80 \<Longrightarrow>
  fold (sha1_round (sha1_schedule m)) [0..<n] (H ! 0, H ! 1, H ! 2, H ! 3, H ! 4) = sha1_vars H m n"
proof (induction n)
  case (Suc n)
  then show ?case
    by (cases "sha1_vars H m n")
      (auto simp: sha1_round_def sha1_mix_def sha1_schedule_W ch_or maj_or Parity_def Let_def)
qed simp

lemma sha256_rounds: "n \<le> 64 \<Longrightarrow>
  fold (sha256_round (sha256_schedule m)) [0..<n] (vars8_of H) = sha256_vars H m n"
proof (induction n)
  case (Suc n)
  then show ?case
    by (cases "sha256_vars H m n") (simp add: sha256_round_def sha256_schedule_W Ch_def Maj_def Let_def)
qed simp

lemma sha512_rounds: "n \<le> 80 \<Longrightarrow>
  fold (sha512_round (sha512_schedule m)) [0..<n] (vars8_of H) = sha512_vars H m n"
proof (induction n)
  case (Suc n)
  then show ?case
    by (cases "sha512_vars H m n") (simp add: sha512_round_def sha512_schedule_W Ch_def Maj_def Let_def)
qed simp

lemma sha1_transform_block: "sha1_transform = sha1_block"
  by (intro ext) (simp only: sha1_transform_def sha1_block_def sha1_rounds [OF order_refl])

lemma sha256_transform_block: "sha256_transform = sha256_block"
  by (intro ext) (simp add: sha256_transform_def sha256_block_def sha256_rounds Let_def)

lemma sha512_transform_block: "sha512_transform = sha512_block"
  by (intro ext) (simp add: sha512_transform_def sha512_block_def sha512_rounds Let_def)

section \<open>The digests\<close>

definition md5_spec :: "u8 list \<Rightarrow> u8 list" where
  "md5_spec m = concat (map (word_to_le_bytes 4)
     (hash_spec 64 56 md5_transform (word_to_le_bytes 8 :: u64 \<Rightarrow> u8 list) MD5_INIT m))"

definition sha1_spec :: "u8 list \<Rightarrow> u8 list" where
  "sha1_spec m = concat (map (word_to_be_bytes 4)
     (hash_spec 64 56 sha1_block (word_to_be_bytes 8 :: u64 \<Rightarrow> u8 list) SHA1_INIT m))"

definition sha256_spec :: "u8 list \<Rightarrow> u8 list" where
  "sha256_spec m = concat (map (word_to_be_bytes 4)
     (hash_spec 64 56 sha256_block (word_to_be_bytes 8 :: u64 \<Rightarrow> u8 list) SHA256_INIT m))"

definition sha512_spec :: "u64 list \<Rightarrow> u8 list \<Rightarrow> u8 list" where
  "sha512_spec init m = concat (map (word_to_be_bytes 8)
     (hash_spec 128 112 sha512_block (word_to_be_bytes 16 :: 128 word \<Rightarrow> u8 list) init m))"

lemma update_funs:
  "md5_update = hash_update 64 md5_transform" "sha1_update = hash_update 64 sha1_transform"
  "sha256_update = hash_update 64 sha256_transform" "sha512_update = hash_update 128 sha512_transform"
  "sha384_update = hash_update 128 sha512_transform"
  by (intro ext, simp add: md5_update_def sha1_update_def sha256_update_def sha512_update_def sha384_update_def)+

lemma md5_stream: "fst (md5_finalize (fold md5_update ds md5_new)) = md5_spec (concat ds)"
  by (simp add: md5_finalize_def Let_def update_funs md5_new_def md5_spec_def md5_hash.stream_spec)

lemma sha1_stream: "fst (sha1_finalize (fold sha1_update ds sha1_new)) = sha1_spec (concat ds)"
  by (simp add: sha1_finalize_def Let_def update_funs sha1_new_def sha1_spec_def sha1_hash.stream_spec
      flip: sha1_transform_block)

lemma sha256_stream: "fst (sha256_finalize (fold sha256_update ds sha256_new)) = sha256_spec (concat ds)"
  by (simp add: sha256_finalize_def Let_def update_funs sha256_new_def sha256_spec_def sha256_hash.stream_spec
      flip: sha256_transform_block)

lemma sha512_stream:
  "fst (sha512_finalize (fold sha512_update ds sha512_new)) = sha512_spec SHA512_INIT (concat ds)"
  by (simp add: sha512_finalize_def Let_def update_funs sha512_new_def sha512_spec_def sha512_hash.stream_spec
      flip: sha512_transform_block)

lemma sha384_stream:
  "fst (sha384_finalize (fold sha384_update ds sha384_new)) = take 48 (sha512_spec SHA384_INIT (concat ds))"
  by (simp add: sha384_finalize_def sha512_finalize_def Let_def update_funs sha384_new_def sha512_new_def
      sha512_spec_def sha384_hash.stream_spec flip: sha512_transform_block)

lemma one_shot:
  "md5 m = md5_spec m" "sha1 m = sha1_spec m" "sha256 m = sha256_spec m"
  "sha512 m = sha512_spec SHA512_INIT m" "sha384 m = take 48 (sha512_spec SHA384_INIT m)"
  using md5_stream [of "[m]"] sha1_stream [of "[m]"] sha256_stream [of "[m]"] sha512_stream [of "[m]"]
    sha384_stream [of "[m]"]
  by (simp_all add: md5_def sha1_def sha256_def sha512_def sha384_def)

text \<open>A digest has a fixed length.\<close>

lemma foldl_length:
  "length init = n \<Longrightarrow> (\<And>st b. length (f st b) = n) \<Longrightarrow> length (foldl f init bs) = n"
  by (induction bs arbitrary: init) simp_all

lemma length_concat_const: "(\<And>x. x \<in> set xs \<Longrightarrow> length (g x) = k) \<Longrightarrow> length (concat (map g xs)) = k * length xs"
  by (induction xs) simp_all

lemma length_sha256_spec: "length (sha256_spec m) = 32"
proof -
  have "length (hash_spec 64 56 sha256_block (word_to_be_bytes 8 :: u64 \<Rightarrow> u8 list) SHA256_INIT m) = 8"
    unfolding hash_spec_def
    by (rule foldl_length) (simp_all add: SHA256_INIT_def sha256_block_def add_vars8_def split: prod.splits)
  then show ?thesis unfolding sha256_spec_def by (subst length_concat_const) simp_all
qed

section \<open>HMAC\<close>

definition hmac_key :: "u8 list \<Rightarrow> u8 list" where
  "hmac_key key = (let k = (if 64 < length key then sha256 key else key) in k @ replicate (64 - length k) 0)"

definition hmac_spec :: "u8 list \<Rightarrow> u8 list \<Rightarrow> u8 list" where
  "hmac_spec key m = sha256 (map (\<lambda>b. b XOR 0x5c) (hmac_key key)
     @ sha256 (map (\<lambda>b. b XOR 0x36) (hmac_key key) @ m))"

lemma xor_into_spec:
  assumes "length k \<le> n"
  shows "xor_into (replicate n c) k = map (\<lambda>b. b XOR c) (k @ replicate (n - length k) 0)"
proof -
  have "j \<le> length k \<Longrightarrow> fold (\<lambda>i p. p[i := p ! i XOR k ! i]) [0..<j] (replicate n c)
      = map (\<lambda>b. b XOR c) (take j k) @ replicate (n - j) c" for j
  proof (induction j)
    case (Suc j)
    have "replicate (n - j) c = c # replicate (n - Suc j) c"
      using Suc.prems assms by (cases "n - j") (simp_all add: replicate_Suc [symmetric] del: replicate_Suc)
    with Suc assms show ?case
      by (simp add: nth_append list_update_append take_Suc_conv_app_nth xor.commute)
  qed simp
  from this [of "length k"] show ?thesis by (simp add: xor_into_def)
qed

lemma hmac_stream:
  "fst (hmac_finalize (fold hmac_update ds (hmac_new_sha256 key))) = hmac_spec key (concat ds)"
proof -
  define k where "k = (if 64 < length key then sha256 key else key)"
  have k: "length k \<le> 64" by (simp add: k_def one_shot length_sha256_spec)
  define i where "i = map (\<lambda>b. b XOR 0x36) (hmac_key key)"
  define p where "p = map (\<lambda>b. b XOR 0x5c) (hmac_key key)"
  have new: "hmac_new_sha256 key = \<lparr>hm_hasher = sha256_update i sha256_new, hm_outer_hasher = sha256_update p sha256_new\<rparr>"
    using k by (simp add: hmac_new_sha256_def Let_def k_def [unfolded sha256_def, symmetric] xor_into_spec i_def p_def
        hmac_key_def k_def [symmetric])
  have upd: "fold hmac_update ds h = h\<lparr>hm_hasher := fold sha256_update ds (hm_hasher h)\<rparr>" for h
    by (induction ds arbitrary: h) (simp_all add: hmac_update_def)
  have inner: "fst (sha256_finalize (fold sha256_update ds (sha256_update i sha256_new))) = sha256 (i @ concat ds)"
    using sha256_stream [of "i # ds"] by (simp add: one_shot)
  have outer: "fst (sha256_finalize (sha256_update x (sha256_update p sha256_new))) = sha256 (p @ x)" for x
    using sha256_stream [of "[p, x]"] by (simp add: one_shot)
  show ?thesis
    using inner outer by (simp add: hmac_finalize_def hmac_spec_def new upd split_def i_def p_def)
qed

section \<open>Properties\<close>

text \<open>
  C27: Hashing a stream in any pieces gives the FIPS 180-4 digest of the concatenated
  input: padding, length field, message schedule and rounds.
\<close>

theorem sha256_streams:
  "fst (sha256_finalize (fold sha256_update ds sha256_new)) = sha256_spec (concat ds)"
  by (rule sha256_stream)

text \<open>
  The same for SHA-512, with a 128-bit length and 80 rounds, and for SHA-384, which
  is its truncation from other initial values.
\<close>

theorem sha512_streams:
  "fst (sha512_finalize (fold sha512_update ds sha512_new)) = sha512_spec SHA512_INIT (concat ds)
    \<and> fst (sha384_finalize (fold sha384_update ds sha384_new)) = take 48 (sha512_spec SHA384_INIT (concat ds))"
  by (simp add: sha512_stream sha384_stream)

text \<open>
  C28: The keyed digest of a stream is the nested digest of RFC 2104, with a key longer
  than a block replaced by its digest.
\<close>

theorem hmac_sha256_streams:
  "fst (hmac_finalize (fold hmac_update ds (hmac_new_sha256 key))) = hmac_spec key (concat ds)"
  by (rule hmac_stream)

end
