(* ===== verification/Accounts.thy ===== *)
theory Accounts
  imports Token Hash
begin

text \<open>
  The account database, \<open>src/nt61/src/se/users.rs\<close> with the account overlay of
  \<open>src/nt61/src/registry/cm.rs\<close>, and the logon primitives of \<open>src/nt61/src/se/logon.rs\<close>.
  The static tables and the identifier counter are the state \<open>sam_state\<close>; a string is
  the list of its code points; the random bytes of a new salt are an argument, \<open>None\<close>
  when the generator fails.  Flushing the hive to disk is not part of the state.
  Lemmas: creation keeps names unique up to ASCII case and apart from the built-in
  names, an account that was created is found under every spelling of its name and
  accepts exactly the passwords with the stored digest, reloading the persisted
  accounts gives the same table, and only administrators and the system get the
  powerful privileges at logon.
\<close>

section \<open>Strings\<close>

type_synonym rust_str = "nat list"

definition str :: "string \<Rightarrow> rust_str" where
  "str cs = map of_char cs"

text \<open>The Unicode property White\_Space, which \<open>str::trim\<close> removes at both ends.\<close>

definition is_whitespace :: "nat \<Rightarrow> bool" where
  "is_whitespace c \<longleftrightarrow> 9 \<le> c \<and> c \<le> 13 \<or> c = 0x20 \<or> c = 0x85 \<or> c = 0xA0 \<or> c = 0x1680
     \<or> 0x2000 \<le> c \<and> c \<le> 0x200A \<or> c = 0x2028 \<or> c = 0x2029 \<or> c = 0x202F \<or> c = 0x205F \<or> c = 0x3000"

definition trim_end_matches :: "(nat \<Rightarrow> bool) \<Rightarrow> rust_str \<Rightarrow> rust_str" where
  "trim_end_matches P s = rev (dropWhile P (rev s))"

definition trim :: "rust_str \<Rightarrow> rust_str" where
  "trim s = trim_end_matches is_whitespace (dropWhile is_whitespace s)"

definition ascii_lower :: "nat \<Rightarrow> nat" where
  "ascii_lower c = (if 65 \<le> c \<and> c \<le> 90 then c + 32 else c)"

definition to_ascii_lowercase :: "rust_str \<Rightarrow> rust_str" where
  "to_ascii_lowercase s = map ascii_lower s"

definition eq_ignore_ascii_case :: "rust_str \<Rightarrow> rust_str \<Rightarrow> bool" where
  "eq_ignore_ascii_case a b \<longleftrightarrow> map ascii_lower a = map ascii_lower b"

definition utf8_len :: "nat \<Rightarrow> nat" where
  "utf8_len c = (if c < 0x80 then 1 else if c < 0x800 then 2 else if c < 0x10000 then 3 else 4)"

definition str_len :: "rust_str \<Rightarrow> nat" where
  "str_len s = sum_list (map utf8_len s)"

definition normalize_name :: "rust_str \<Rightarrow> rust_str" where
  "normalize_name name = trim_end_matches (\<lambda>c. c = 0) (trim name)"

section \<open>Accounts\<close>

datatype account_kind = KSystem | KAdministrators | KUser | KGuest

record account_entry =
  ac_rid :: u32
  ac_sid :: sid
  ac_kind :: account_kind
  ac_enabled :: bool

record user_record =
  ur_name :: rust_str
  ur_entry :: account_entry
  ur_salt :: "u8 list"
  ur_password_hash :: "u8 list"

record sam_runtime_user =
  sr_rid :: u32
  sr_name :: rust_str
  sr_enabled :: bool
  sr_salt :: "u8 list"
  sr_password_hash :: "u8 list"

record sam_state =
  runtime_accounts :: "user_record list"
  next_dynamic_rid :: u32
  sam_runtime_users :: "sam_runtime_user list"

definition SYSTEM :: account_entry where
  "SYSTEM = \<lparr>ac_rid = 18, ac_sid = well_known LocalSystem, ac_kind = KSystem, ac_enabled = True\<rparr>"

definition ADMINS :: account_entry where
  "ADMINS = \<lparr>ac_rid = 544, ac_sid = well_known Administrators, ac_kind = KAdministrators, ac_enabled = True\<rparr>"

definition GUESTS :: account_entry where
  "GUESTS = \<lparr>ac_rid = 546, ac_sid = well_known Guests, ac_kind = KGuest, ac_enabled = False\<rparr>"

definition NT61TEST :: account_entry where
  "NT61TEST = \<lparr>ac_rid = 1001, ac_sid = with_2subs [0, 0, 0, 0, 0, 5] 21 1001, ac_kind = KUser, ac_enabled = True\<rparr>"

definition BUILTIN :: "account_entry list" where
  "BUILTIN = [SYSTEM, ADMINS, GUESTS, NT61TEST]"

definition MAX_NAME_LENGTH :: nat where [se_consts]: "MAX_NAME_LENGTH = 64"

datatype create_user_error = NameTooLong | EmptyName | DuplicateName | RidExhausted | OutOfMemory

definition sam_initial :: sam_state where
  "sam_initial = \<lparr>runtime_accounts = [], next_dynamic_rid = 0x1002, sam_runtime_users = []\<rparr>"

definition password_hash :: "u8 list \<Rightarrow> u8 list \<Rightarrow> u8 list" where
  "password_hash password salt = sha256 (salt @ password)"

definition lookup_by_sid :: "sid \<Rightarrow> sam_state \<Rightarrow> account_entry option" where
  "lookup_by_sid s st = (case find (\<lambda>a. sid_equals (ac_sid a) s) BUILTIN of
     Some a \<Rightarrow> Some a
   | None \<Rightarrow> map_option ur_entry (find (\<lambda>r. sid_equals (ac_sid (ur_entry r)) s) (runtime_accounts st)))"

primrec kind_name :: "account_kind \<Rightarrow> rust_str" where
  "kind_name KSystem = str ''SYSTEM''"
| "kind_name KAdministrators = str ''Administrators''"
| "kind_name KUser = str ''nt61test''"
| "kind_name KGuest = str ''Guest''"

definition builtin_name :: "account_entry \<Rightarrow> rust_str" where
  "builtin_name entry = kind_name (ac_kind entry)"

definition lookup_by_name :: "rust_str \<Rightarrow> sam_state \<Rightarrow> account_entry option" where
  "lookup_by_name name st = (let normalized = normalize_name name in
     case find (\<lambda>a. eq_ignore_ascii_case normalized (builtin_name a)) BUILTIN of
       Some a \<Rightarrow> Some a
     | None \<Rightarrow> map_option ur_entry (find (\<lambda>r. eq_ignore_ascii_case (ur_name r) (to_ascii_lowercase normalized))
         (runtime_accounts st)))"

definition all_accounts :: "sam_state \<Rightarrow> account_entry list" where
  "all_accounts st = BUILTIN @ map ur_entry (runtime_accounts st)"

definition add_sam_runtime_user :: "sam_runtime_user \<Rightarrow> sam_state \<Rightarrow> bool \<times> sam_state" where
  "add_sam_runtime_user u st =
     (if list_ex (\<lambda>e. sr_rid e = sr_rid u) (sam_runtime_users st) then (False, st)
      else (True, st\<lparr>sam_runtime_users := sam_runtime_users st @ [u]\<rparr>))"

definition user_entry :: "u32 \<Rightarrow> bool \<Rightarrow> account_entry" where
  "user_entry rid enabled = \<lparr>ac_rid = rid, ac_sid = with_2subs [0, 0, 0, 0, 0, 5] 21 rid,
     ac_kind = KUser, ac_enabled = enabled\<rparr>"

definition load_user :: "sam_runtime_user \<Rightarrow> user_record" where
  "load_user u = \<lparr>ur_name = sr_name u, ur_entry = user_entry (sr_rid u) (sr_enabled u),
     ur_salt = sr_salt u, ur_password_hash = sr_password_hash u\<rparr>"

definition users_init :: "sam_state \<Rightarrow> sam_state" where
  "users_init st = fold (\<lambda>u st. st\<lparr>runtime_accounts := runtime_accounts st @ [load_user u]\<rparr>)
     (sam_runtime_users st) (st\<lparr>runtime_accounts := []\<rparr>)"

text \<open>
  The loop that takes a fresh identifier retries until its exchange succeeds; without a
  competing writer it takes the current value.
\<close>

definition create_user ::
  "rust_str \<Rightarrow> u8 list \<Rightarrow> bool \<Rightarrow> u8 list option \<Rightarrow> sam_state \<Rightarrow>
     (create_user_error + account_entry) \<times> sam_state" where
  "create_user name0 password enabled random st =
     (let name = normalize_name name0 in
      if name = [] then (Inl EmptyName, st)
      else if MAX_NAME_LENGTH < str_len name then (Inl NameTooLong, st)
      else if list_ex (\<lambda>r. eq_ignore_ascii_case (ur_name r) name) (runtime_accounts st)
           \<or> list_ex (\<lambda>e. eq_ignore_ascii_case (builtin_name e) name) BUILTIN
        then (Inl DuplicateName, st)
      else if next_dynamic_rid st = - 1 then (Inl RidExhausted, st)
      else let rid = next_dynamic_rid st;
               st1 = st\<lparr>next_dynamic_rid := rid + 1\<rparr> in
        case random of None \<Rightarrow> (Inl OutOfMemory, st1)
        | Some salt \<Rightarrow>
            let st2 = st1\<lparr>runtime_accounts := runtime_accounts st1 @
                  [\<lparr>ur_name = name, ur_entry = user_entry rid enabled, ur_salt = salt,
                    ur_password_hash = password_hash password salt\<rparr>]\<rparr>
            in (Inr (user_entry rid enabled),
                snd (add_sam_runtime_user \<lparr>sr_rid = rid, sr_name = name, sr_enabled = enabled,
                  sr_salt = salt, sr_password_hash = password_hash password salt\<rparr> st2)))"

definition constant_time_eq :: "u8 list \<Rightarrow> u8 list \<Rightarrow> bool" where
  "constant_time_eq a b \<longleftrightarrow> fold (\<lambda>(left, right) diff. diff OR (left XOR right)) (zip a b) 0 = 0"

definition verify_runtime_password :: "rust_str \<Rightarrow> u8 list \<Rightarrow> sam_state \<Rightarrow> bool" where
  "verify_runtime_password name password st =
     (let normalized = to_ascii_lowercase (normalize_name name) in
      case find (\<lambda>r. eq_ignore_ascii_case (ur_name r) normalized) (runtime_accounts st) of
        None \<Rightarrow> False
      | Some r \<Rightarrow> constant_time_eq (ur_password_hash r) (password_hash password (ur_salt r)))"

section \<open>Logon\<close>

definition group_on :: "sid \<Rightarrow> token_group" where
  "group_on s = \<lparr>grp_sid = s, grp_attributes = SE_GROUP_ENABLED OR SE_GROUP_ENABLED_BY_DEFAULT\<rparr>"

definition privilege_on :: "privilege_name \<Rightarrow> token_privilege" where
  "privilege_on n = \<lparr>prv_luid = privilege_luid n,
     prv_attributes = SE_PRIVILEGE_ENABLED_BY_DEFAULT OR SE_PRIVILEGE_ENABLED\<rparr>"

definition TOKEN_HAS_IMPERSONATE_PRIVILEGE :: u32 where
  [se_consts]: "TOKEN_HAS_IMPERSONATE_PRIVILEGE = 0x0010"

definition logon_token :: "account_entry \<Rightarrow> token" where
  "logon_token account =
     (let t1 = add_group (group_on SID_USERS) (add_group (group_on SID_EVERYONE) (new_primary (ac_sid account)));
          t2 = (if ac_kind account = KAdministrators then add_group (group_on SID_ADMINISTRATORS) t1 else t1);
          t3 = add_privilege (privilege_on SE_CHANGE_NOTIFY_PRIVILEGE) t2
      in if ac_kind account = KAdministrators \<or> ac_kind account = KSystem
         then let t4 = add_privilege (privilege_on SE_IMPERSONATE_PRIVILEGE)
                    (add_privilege (privilege_on SE_RESTORE_PRIVILEGE)
                      (add_privilege (privilege_on SE_BACKUP_PRIVILEGE) t3))
              in t4\<lparr>tok_flags := tok_flags t4 OR TOKEN_HAS_IMPERSONATE_PRIVILEGE\<rparr>
         else t3)"

text \<open>
  The outer option is the one of the source; the inner one is the pointer, null when
  the allocation of the token fails.
\<close>

definition logon_user :: "rust_str \<Rightarrow> sam_state \<Rightarrow> pool \<Rightarrow> token option option \<times> pool" where
  "logon_user name st p = (case lookup_by_name name st of None \<Rightarrow> (None, p)
     | Some account \<Rightarrow> if \<not> ac_enabled account then (None, p)
         else (case persist_token (logon_token account) p of (t, p1) \<Rightarrow> (Some t, p1)))"

definition create_impersonation :: "sid \<Rightarrow> impersonation_level_enum \<Rightarrow> token" where
  "create_impersonation primary_user_sid level =
     add_group (group_on SID_EVERYONE) (new_impersonation primary_user_sid level)"

definition name_for_sid :: "sid \<Rightarrow> sam_state \<Rightarrow> rust_str option" where
  "name_for_sid s st = (case lookup_by_sid s st of None \<Rightarrow> None
     | Some account \<Rightarrow> Some (kind_name (ac_kind account)))"

section \<open>Names\<close>

lemma eq_ignore_equiv:
  "eq_ignore_ascii_case a a" "eq_ignore_ascii_case a b \<Longrightarrow> eq_ignore_ascii_case b a"
  "eq_ignore_ascii_case a b \<Longrightarrow> eq_ignore_ascii_case b c \<Longrightarrow> eq_ignore_ascii_case a c"
  by (simp_all add: eq_ignore_ascii_case_def)

lemma ascii_lower_idem [simp]: "ascii_lower (ascii_lower c) = ascii_lower c"
  by (simp add: ascii_lower_def)

lemma eq_ignore_lowercase [simp]:
  "eq_ignore_ascii_case a (to_ascii_lowercase b) \<longleftrightarrow> eq_ignore_ascii_case a b"
  by (simp add: eq_ignore_ascii_case_def to_ascii_lowercase_def comp_def)

lemma to_ascii_lowercase_eq: "to_ascii_lowercase a = to_ascii_lowercase b \<longleftrightarrow> eq_ignore_ascii_case a b"
  by (simp add: eq_ignore_ascii_case_def to_ascii_lowercase_def)

section \<open>The invariant of the database\<close>

definition sam_inv :: "sam_state \<Rightarrow> bool" where
  "sam_inv st \<longleftrightarrow> distinct (map (\<lambda>r. to_ascii_lowercase (ur_name r)) (runtime_accounts st))
     \<and> (\<forall>r \<in> set (runtime_accounts st). \<forall>e \<in> set BUILTIN. \<not> eq_ignore_ascii_case (builtin_name e) (ur_name r))
     \<and> runtime_accounts st = map load_user (sam_runtime_users st)
     \<and> distinct (map sr_rid (sam_runtime_users st))
     \<and> (\<forall>u \<in> set (sam_runtime_users st). sr_rid u < next_dynamic_rid st)"

lemma sam_inv_initial [wf_intros]: "sam_inv sam_initial"
  by (simp add: sam_inv_def sam_initial_def)

lemma users_init_eq:
  "users_init st = st\<lparr>runtime_accounts := map load_user (sam_runtime_users st)\<rparr>"
proof -
  have "fold (\<lambda>u st. st\<lparr>runtime_accounts := runtime_accounts st @ [load_user u]\<rparr>) us s
      = s\<lparr>runtime_accounts := runtime_accounts s @ map load_user us\<rparr>" for us and s :: sam_state
    by (induction us arbitrary: s) simp_all
  then show ?thesis by (simp add: users_init_def)
qed

lemma users_init_id: "sam_inv st \<Longrightarrow> users_init st = st"
  by (simp add: users_init_eq sam_inv_def)

text \<open>The outcomes of a creation.\<close>

lemma create_user_cases:
  assumes "create_user name0 pw en random st = (r, st')"
  obtains (refused) e where "r = Inl e" "st' = st"
    | (no_salt) "r = Inl OutOfMemory" "random = None" "next_dynamic_rid st \<noteq> - 1"
      "st' = st\<lparr>next_dynamic_rid := next_dynamic_rid st + 1\<rparr>"
    | (created) salt u where "random = Some salt" "r = Inr (user_entry (next_dynamic_rid st) en)"
      "next_dynamic_rid st \<noteq> - 1" "normalize_name name0 \<noteq> []" "str_len (normalize_name name0) \<le> 64"
      "\<forall>r \<in> set (runtime_accounts st). \<not> eq_ignore_ascii_case (ur_name r) (normalize_name name0)"
      "\<forall>e \<in> set BUILTIN. \<not> eq_ignore_ascii_case (builtin_name e) (normalize_name name0)"
      "u = \<lparr>sr_rid = next_dynamic_rid st, sr_name = normalize_name name0, sr_enabled = en,
        sr_salt = salt, sr_password_hash = password_hash pw salt\<rparr>"
      "st' = snd (add_sam_runtime_user u (st\<lparr>next_dynamic_rid := next_dynamic_rid st + 1,
        runtime_accounts := runtime_accounts st @ [load_user u]\<rparr>))"
proof -
  let ?n = "normalize_name name0"
  consider (bad) "?n = [] \<or> 64 < str_len ?n
      \<or> list_ex (\<lambda>r. eq_ignore_ascii_case (ur_name r) ?n) (runtime_accounts st)
      \<or> list_ex (\<lambda>e. eq_ignore_ascii_case (builtin_name e) ?n) BUILTIN \<or> next_dynamic_rid st = - 1"
    | (ok) "?n \<noteq> []" "str_len ?n \<le> 64" "\<not> list_ex (\<lambda>r. eq_ignore_ascii_case (ur_name r) ?n) (runtime_accounts st)"
      "\<not> list_ex (\<lambda>e. eq_ignore_ascii_case (builtin_name e) ?n) BUILTIN" "next_dynamic_rid st \<noteq> - 1"
    by linarith
  then show thesis
  proof cases
    case bad
    then have "\<exists>e. r = Inl e \<and> st' = st"
      using assms unfolding create_user_def Let_def MAX_NAME_LENGTH_def by (auto split: if_splits)
    then show thesis using refused by blast
  next
    case ok
    show thesis
    proof (cases random)
      case None
      with ok assms show thesis by (intro no_salt) (simp_all add: create_user_def Let_def se_consts)
    next
      case (Some salt)
      with ok assms show thesis
        by (intro created [of salt "\<lparr>sr_rid = next_dynamic_rid st, sr_name = ?n, sr_enabled = en,
          sr_salt = salt, sr_password_hash = password_hash pw salt\<rparr>"])
          (auto simp: create_user_def Let_def se_consts load_user_def list_ex_iff)
    qed
  qed
qed

lemma rid_step: "v \<noteq> - 1 \<Longrightarrow> v < v + 1" for v :: u32
proof -
  assume "v \<noteq> - 1"
  then have "unat v \<noteq> 2 ^ 32 - 1"
    using unsigned_minus_1_eq_mask [where ?'a = nat and ?'b = 32] word_unat_eq_iff [of v "- 1"]
    by (simp add: mask_eq_exp_minus_1)
  moreover have "unat v < 2 ^ 32" using unsigned_less [of v] by simp
  ultimately show ?thesis by (simp add: word_less_nat_alt unat_word_ariths)
qed

lemma fresh_rid_persisted:
  assumes "sam_inv st"
  shows "add_sam_runtime_user u (st\<lparr>next_dynamic_rid := n, runtime_accounts := rs\<rparr>) =
    (if sr_rid u = next_dynamic_rid st
     then (True, st\<lparr>next_dynamic_rid := n, runtime_accounts := rs, sam_runtime_users := sam_runtime_users st @ [u]\<rparr>)
     else add_sam_runtime_user u (st\<lparr>next_dynamic_rid := n, runtime_accounts := rs\<rparr>))"
  using assms by (auto simp: add_sam_runtime_user_def list_ex_iff sam_inv_def)

lemma create_user_inv:
  assumes "sam_inv st" "create_user name0 pw en random st = (r, st')"
  shows "sam_inv st'"
  using assms(2)
proof (cases rule: create_user_cases)
  case (refused e)
  with assms(1) show ?thesis by simp
next
  case no_salt
  have "v < next_dynamic_rid st + 1" if "v < next_dynamic_rid st" for v
    using that rid_step [OF no_salt(3)] by (rule less_trans)
  with assms(1) no_salt(4) show ?thesis unfolding sam_inv_def by auto
next
  case (created salt u)
  have st': "st' = st\<lparr>next_dynamic_rid := next_dynamic_rid st + 1,
      runtime_accounts := runtime_accounts st @ [load_user u], sam_runtime_users := sam_runtime_users st @ [u]\<rparr>"
    using created(8,9) fresh_rid_persisted [OF assms(1), of u] by simp
  have name: "ur_name (load_user u) = normalize_name name0" "sr_rid u = next_dynamic_rid st"
    by (simp_all add: created(8) load_user_def)
  have lt: "v < next_dynamic_rid st + 1" if "v < next_dynamic_rid st" for v
    using that rid_step [OF created(3)] by (rule less_trans)
  have "to_ascii_lowercase (normalize_name name0) \<notin> (\<lambda>r. to_ascii_lowercase (ur_name r)) ` set (runtime_accounts st)"
    using created(6) eq_ignore_equiv(2) by (auto simp: to_ascii_lowercase_eq)
  with assms(1) created(3,7) name lt rid_step [OF created(3)] show ?thesis
    unfolding st' sam_inv_def by auto
qed

section \<open>Finding an account again\<close>

lemma find_last: "\<forall>x \<in> set xs. \<not> P x \<Longrightarrow> P y \<Longrightarrow> find P (xs @ [y]) = Some y"
  by (induction xs) simp_all

lemma find_None_all: "\<forall>x \<in> set xs. \<not> P x \<Longrightarrow> find P xs = None"
  by (induction xs) simp_all

lemma created_accounts:
  assumes "create_user name0 pw en random st = (Inr a, st')"
  obtains r salt where "runtime_accounts st' = runtime_accounts st @ [r]" "ur_entry r = a"
    "random = Some salt" "ur_name r = normalize_name name0" "ur_salt r = salt"
    "ur_password_hash r = password_hash pw salt" "a = user_entry (next_dynamic_rid st) en"
    "\<forall>r \<in> set (runtime_accounts st). \<not> eq_ignore_ascii_case (ur_name r) (normalize_name name0)"
    "\<forall>e \<in> set BUILTIN. \<not> eq_ignore_ascii_case (builtin_name e) (normalize_name name0)"
  using assms
proof (cases rule: create_user_cases)
  case (created salt u)
  then show thesis
    by (intro that [of "load_user u" salt]) (simp_all add: load_user_def add_sam_runtime_user_def)
qed simp_all

lemma created_found:
  assumes "create_user name0 pw en random st = (Inr a, st')"
    and same: "eq_ignore_ascii_case (normalize_name name) (normalize_name name0)"
  shows "lookup_by_name name st' = Some a"
    and "verify_runtime_password name pw' st' \<longleftrightarrow>
      constant_time_eq (password_hash pw (the random)) (password_hash pw' (the random))"
proof -
  obtain r salt where r: "runtime_accounts st' = runtime_accounts st @ [r]" "ur_entry r = a"
    "random = Some salt" "ur_name r = normalize_name name0" "ur_salt r = salt"
    "ur_password_hash r = password_hash pw salt"
    "\<forall>r \<in> set (runtime_accounts st). \<not> eq_ignore_ascii_case (ur_name r) (normalize_name name0)"
    "\<forall>e \<in> set BUILTIN. \<not> eq_ignore_ascii_case (builtin_name e) (normalize_name name0)"
    by (rule created_accounts [OF assms(1)])
  have old: "\<forall>r \<in> set (runtime_accounts st). \<not> eq_ignore_ascii_case (ur_name r) (normalize_name name)"
    "\<forall>e \<in> set BUILTIN. \<not> eq_ignore_ascii_case (normalize_name name) (builtin_name e)"
    using r(7,8) same eq_ignore_equiv(2,3) by blast+
  have new: "eq_ignore_ascii_case (ur_name r) (normalize_name name)" using r(4) same eq_ignore_equiv(2) by simp
  have f: "find (\<lambda>r. eq_ignore_ascii_case (ur_name r) (normalize_name name)) (runtime_accounts st') = Some r"
    using old(1) new by (simp add: r(1) find_last)
  show "lookup_by_name name st' = Some a"
    using f r(2) find_None_all [OF old(2)] by (simp add: lookup_by_name_def Let_def)
  show "verify_runtime_password name pw' st' \<longleftrightarrow>
      constant_time_eq (password_hash pw (the random)) (password_hash pw' (the random))"
    using f r(3,5,6) by (simp add: verify_runtime_password_def Let_def)
qed

lemma constant_time_eq_iff:
  assumes "length a = length b"
  shows "constant_time_eq a b \<longleftrightarrow> a = b"
proof -
  have "fold (\<lambda>(x, y) d. d OR (x XOR y)) (zip a b) d0 = 0 \<longleftrightarrow> d0 = 0 \<and> a = b" for d0 :: u8
    using assms
  proof (induction a b arbitrary: d0 rule: list_induct2)
    case (Cons x xs y ys)
    have "d0 OR (x XOR y) = 0 \<longleftrightarrow> d0 = 0 \<and> x = y" by (auto simp: word_eq_bits bit_simps)
    with Cons show ?case by simp
  qed simp
  then show ?thesis by (simp add: constant_time_eq_def)
qed

lemma length_password_hash: "length (password_hash pw salt) = 32"
  by (simp add: password_hash_def one_shot length_sha256_spec)

section \<open>After a restart\<close>

text \<open>
  A restart keeps the persisted accounts and resets the counter.
\<close>

definition restart :: "sam_state \<Rightarrow> sam_state" where
  "restart st = users_init (sam_initial\<lparr>sam_runtime_users := sam_runtime_users st\<rparr>)"

lemma restart_accounts: "sam_inv st \<Longrightarrow> runtime_accounts (restart st) = runtime_accounts st"
  by (simp add: restart_def users_init_eq sam_inv_def)

lemma restart_rid_reused:
  assumes "\<exists>u \<in> set (sam_runtime_users st). sr_rid u = 0x1002"
    and "create_user name pw en random (restart st) = (Inr a, st')"
  shows "ac_rid a = 0x1002" "\<exists>b \<in> set (all_accounts (restart st)). ac_sid b = ac_sid a"
    "sam_runtime_users st' = sam_runtime_users st"
proof -
  let ?s = "restart st"
  have s: "next_dynamic_rid ?s = 0x1002" "sam_runtime_users ?s = sam_runtime_users st"
    "runtime_accounts ?s = map load_user (sam_runtime_users st)"
    by (simp_all add: restart_def users_init_eq sam_initial_def)
  obtain u where u: "u \<in> set (sam_runtime_users st)" "sr_rid u = 0x1002" using assms(1) by blast
  obtain v where v: "a = user_entry 0x1002 en" "sr_rid v = 0x1002"
    "st' = snd (add_sam_runtime_user v (?s\<lparr>next_dynamic_rid := next_dynamic_rid ?s + 1,
        runtime_accounts := runtime_accounts ?s @ [load_user v]\<rparr>))"
    using assms(2)
  proof (cases rule: create_user_cases)
    case (created salt u)
    then show thesis by (intro that [of u]) (simp_all add: s(1))
  qed simp_all
  show "ac_rid a = 0x1002" by (simp add: v(1) user_entry_def)
  show "\<exists>b \<in> set (all_accounts ?s). ac_sid b = ac_sid a"
    using u by (intro bexI [of _ "ur_entry (load_user u)"])
      (auto simp: all_accounts_def s(3) load_user_def user_entry_def v(1))
  show "sam_runtime_users st' = sam_runtime_users st"
    using assms(1) by (simp add: v(2,3) add_sam_runtime_user_def s(2) list_ex_iff)
qed

section \<open>Tokens at logon\<close>

lemma wf_sid_accounts:
  assumes "sam_inv st" "lookup_by_name name st = Some a"
  shows "wf_sid (ac_sid a)"
proof -
  have "a \<in> set BUILTIN \<or> (\<exists>r \<in> set (runtime_accounts st). a = ur_entry r)"
    using assms(2) by (auto simp: lookup_by_name_def Let_def find_Some_iff split: option.splits)
  moreover have "wf_sid (ac_sid e)" if "e \<in> set BUILTIN" for e
    using that wf_well_known [of LocalSystem] wf_well_known [of Administrators] wf_well_known [of Guests]
    by (auto simp: BUILTIN_def SYSTEM_def ADMINS_def GUESTS_def NT61TEST_def wf_with_2subs simp del: well_known.simps)
  ultimately show ?thesis
    using assms(1) by (auto simp: sam_inv_def load_user_def user_entry_def wf_with_2subs)
qed

definition powerful :: "account_kind \<Rightarrow> bool" where
  "powerful k \<longleftrightarrow> k = KAdministrators \<or> k = KSystem"

lemma group_on_sid: "grp_sid (group_on s) = s"
  by (simp add: group_on_def)

lemma wf_named_sids [simp]: "wf_sid SID_EVERYONE" "wf_sid SID_USERS" "wf_sid SID_ADMINISTRATORS"
  using wf_well_known by (simp_all only: SID_EVERYONE_def SID_USERS_def SID_ADMINISTRATORS_def)

lemma logon_token_parts:
  assumes "wf_sid (ac_sid a)"
  shows "wf_token (logon_token a)" "user (logon_token a) = ac_sid a"
    "token_groups (logon_token a) = map group_on ([SID_EVERYONE, SID_USERS]
       @ (if ac_kind a = KAdministrators then [SID_ADMINISTRATORS] else []))"
    "token_privileges (logon_token a) = map privilege_on (SE_CHANGE_NOTIFY_PRIVILEGE #
       (if powerful (ac_kind a) then [SE_BACKUP_PRIVILEGE, SE_RESTORE_PRIVILEGE, SE_IMPERSONATE_PRIVILEGE] else []))"
proof -
  note simps = logon_token_def Let_def token_groups_add token_privileges_add wf_add_group wf_add_privilege
    wf_new_primary [OF assms] group_on_sid powerful_def token_adding se_consts
  show "wf_token (logon_token a)" "user (logon_token a) = ac_sid a"
    by (simp_all add: simps)
  show "token_groups (logon_token a) = map group_on ([SID_EVERYONE, SID_USERS]
       @ (if ac_kind a = KAdministrators then [SID_ADMINISTRATORS] else []))"
    by (simp add: simps)
  show "token_privileges (logon_token a) = map privilege_on (SE_CHANGE_NOTIFY_PRIVILEGE #
       (if powerful (ac_kind a) then [SE_BACKUP_PRIVILEGE, SE_RESTORE_PRIVILEGE, SE_IMPERSONATE_PRIVILEGE] else []))"
    by (simp add: simps)
qed

lemma privilege_on_simps [simp]:
  "prv_luid (privilege_on n) = privilege_luid n" "prv_is_enabled (privilege_on n)"
  by (simp_all add: privilege_on_def prv_is_enabled_def se_consts)

lemma logon_user_token:
  assumes "sam_inv st" "logon_user name st p = (Some (Some t), p')"
  obtains a where "lookup_by_name name st = Some a" "ac_enabled a" "t = logon_token a" "wf_sid (ac_sid a)"
    "pool_live p' = pool_live p + 1"
proof -
  obtain a where a: "lookup_by_name name st = Some a" "ac_enabled a" "persist_token (logon_token a) p = (Some t, p')"
    using assms(2) by (auto simp: logon_user_def split: option.splits if_splits prod.splits)
  then have "t = logon_token a" "pool_live p' = pool_live p + 1"
    by (auto simp: persist_token_def dest: pool_live_allocate split: prod.splits bool.splits)
  with a wf_sid_accounts [OF assms(1) a(1)] show thesis by (intro that) simp_all
qed

lemma logon_privileges:
  assumes "wf_sid (ac_sid a)"
  shows "has_privilege l (logon_token a) \<longleftrightarrow> l = privilege_luid SE_CHANGE_NOTIFY_PRIVILEGE
    \<or> powerful (ac_kind a) \<and> l \<in> privilege_luid ` {SE_BACKUP_PRIVILEGE, SE_RESTORE_PRIVILEGE, SE_IMPERSONATE_PRIVILEGE}"
  unfolding has_privilege_iff [OF logon_token_parts(1) [OF assms]] logon_token_parts(4) [OF assms]
  by (auto simp del: privilege_luid.simps)

section \<open>Properties\<close>

text \<open>
  C32: Creating an account keeps the invariant of the database (names distinct up to
  ASCII case and apart from the built-in names, identifiers distinct and below the
  counter, the persisted overlay equal to the table), and reloading the overlay then
  changes nothing.
\<close>

theorem create_user_keeps_database:
  assumes "sam_inv st" "create_user name pw en random st = (r, st')"
  shows "sam_inv st' \<and> users_init st' = st'"
  using create_user_inv [OF assms] users_init_id by simp

theorem create_user_keeps_database_witness:
  "sam_inv (snd (create_user (str ''alice'') [1] True (Some []) sam_initial))"
  using create_user_keeps_database [OF sam_inv_initial, of "str ''alice''" "[1]" True "Some []"]
  by (cases "create_user (str ''alice'') [1] True (Some []) sam_initial") simp

text \<open>
  C31: An account that was created is found under every spelling of its name that
  normalises to it up to ASCII case, accepts its password, and accepts another one
  only if the salted digests are equal.
\<close>

theorem created_user_logs_on:
  assumes "create_user name0 pw en (Some salt) st = (Inr a, st')"
    "eq_ignore_ascii_case (normalize_name name) (normalize_name name0)"
  shows "lookup_by_name name st' = Some a \<and> verify_runtime_password name pw st'
    \<and> (verify_runtime_password name pw' st' \<longleftrightarrow> sha256 (salt @ pw') = sha256 (salt @ pw))"
  using created_found(1) [OF assms] created_found(2) [OF assms, of pw] created_found(2) [OF assms, of pw']
    constant_time_eq_iff [of "password_hash pw salt" "password_hash pw' salt"]
    constant_time_eq_iff [of "password_hash pw salt" "password_hash pw salt"]
  by (auto simp: length_password_hash) (auto simp: password_hash_def)

theorem created_user_logs_on_witness:
  "\<exists>a st'. create_user (str ''alice'') [1] True (Some []) sam_initial = (Inr a, st')
     \<and> lookup_by_name (str ''ALICE'') st' = Some a \<and> verify_runtime_password (str ''ALICE'') [1] st'"
proof -
  have n: "normalize_name (str ''alice'') = str ''alice''" "normalize_name (str ''ALICE'') = str ''ALICE''"
    by (simp_all add: normalize_name_def trim_def trim_end_matches_def str_def is_whitespace_def)
  obtain a st' where c: "create_user (str ''alice'') [1] True (Some []) sam_initial = (Inr a, st')"
    unfolding create_user_def n
    by (simp add: sam_initial_def str_def str_len_def utf8_len_def Let_def se_consts BUILTIN_def SYSTEM_def ADMINS_def
        GUESTS_def NT61TEST_def builtin_name_def eq_ignore_ascii_case_def ascii_lower_def del: well_known.simps)
  have "eq_ignore_ascii_case (normalize_name (str ''ALICE'')) (normalize_name (str ''alice''))"
    unfolding n by (simp add: eq_ignore_ascii_case_def str_def ascii_lower_def)
  from created_user_logs_on [OF c this] c show ?thesis by blast
qed

text \<open>
  After a restart the identifier counter starts again at its initial value: if an
  account with that identifier was persisted, the next account that is created gets
  the same identifier and security identifier, and is not persisted.
\<close>

theorem restart_reuses_rid:
  assumes "\<exists>u \<in> set (sam_runtime_users st). sr_rid u = 0x1002"
    and "create_user name pw en random (restart st) = (Inr a, st')"
  shows "ac_rid a = 0x1002 \<and> (\<exists>b \<in> set (all_accounts (restart st)). ac_sid b = ac_sid a)
    \<and> sam_runtime_users st' = sam_runtime_users st"
  using restart_rid_reused [OF assms] by simp

theorem restart_reuses_rid_witness:
  "\<exists>st a st'. create_user (str ''bob'') [] True (Some []) (restart st) = (Inr a, st') \<and> ac_rid a = 0x1002"
proof -
  let ?u = "\<lparr>sr_rid = 0x1002, sr_name = str ''alice'', sr_enabled = True, sr_salt = [], sr_password_hash = []\<rparr>"
  let ?st = "sam_initial\<lparr>sam_runtime_users := [?u]\<rparr>"
  have n: "normalize_name (str ''bob'') = str ''bob''"
    by (simp add: normalize_name_def trim_def trim_end_matches_def str_def is_whitespace_def)
  obtain a st' where c: "create_user (str ''bob'') [] True (Some []) (restart ?st) = (Inr a, st')"
    unfolding create_user_def n restart_def users_init_eq
    by (simp add: sam_initial_def str_def str_len_def utf8_len_def Let_def se_consts BUILTIN_def SYSTEM_def ADMINS_def
        GUESTS_def NT61TEST_def builtin_name_def eq_ignore_ascii_case_def ascii_lower_def load_user_def
        del: well_known.simps)
  have u: "\<exists>u \<in> set (sam_runtime_users ?st). sr_rid u = 0x1002" by simp
  from restart_reuses_rid [OF u c] c show ?thesis by blast
qed

text \<open>
  Logging on succeeds only for an enabled account; the token runs as that account,
  and only accounts of the administrators and system kinds get a privilege other than
  change-notify.
\<close>

theorem logon_token_privileges:
  assumes "sam_inv st" "logon_user name st p = (Some (Some t), p')"
  shows "\<exists>a. lookup_by_name name st = Some a \<and> ac_enabled a \<and> wf_token t \<and> user t = ac_sid a
    \<and> (\<forall>l. has_privilege l t \<longrightarrow> l = privilege_luid SE_CHANGE_NOTIFY_PRIVILEGE
          \<or> ac_kind a = KAdministrators \<or> ac_kind a = KSystem)"
proof -
  obtain a where a: "lookup_by_name name st = Some a" "ac_enabled a" "t = logon_token a" "wf_sid (ac_sid a)"
    by (rule logon_user_token [OF assms])
  then show ?thesis using logon_token_parts(1,2) [OF a(4)] logon_privileges [OF a(4)] by (auto simp: powerful_def)
qed

theorem logon_token_privileges_witness:
  "\<exists>t p'. logon_user (str ''system'') sam_initial \<lparr>pool_script = [True], pool_live = 0\<rparr> = (Some (Some t), p')
     \<and> wf_token t"
proof -
  have n: "normalize_name (str ''system'') = str ''system''"
    by (simp add: normalize_name_def trim_def trim_end_matches_def str_def is_whitespace_def)
  have "lookup_by_name (str ''system'') sam_initial = Some SYSTEM"
    unfolding lookup_by_name_def n
    by (simp add: str_def BUILTIN_def SYSTEM_def builtin_name_def eq_ignore_ascii_case_def ascii_lower_def Let_def
        del: well_known.simps)
  then obtain t p' where t: "logon_user (str ''system'') sam_initial \<lparr>pool_script = [True], pool_live = 0\<rparr>
      = (Some (Some t), p')"
    by (simp add: logon_user_def SYSTEM_def persist_token_def pool_allocate_def del: well_known.simps)
  from logon_token_privileges [OF sam_inv_initial t] t show ?thesis by blast
qed

end
