(* ===== verification/Hash_Kat.thy ===== *)
theory Hash_Kat
  imports Hash
begin

text \<open>
  Known-answer tests: the hash functions of \<^verbatim>\<open>crypto/hash.rs\<close> evaluated in the
  kernel on published test vectors.
\<close>

text \<open>The bytes of an ASCII literal.\<close>

definition ascii_bytes :: "string \<Rightarrow> u8 list" where
  "ascii_bytes s = map (of_nat \<circ> of_char) s"

section \<open>Properties\<close>

text \<open>
  The digest of the three bytes ``abc'' is the one FIPS 180-4 publishes for SHA-256.
\<close>

theorem sha256_abc:
  "sha256 (ascii_bytes ''abc'') =
     [0xba, 0x78, 0x16, 0xbf, 0x8f, 0x01, 0xcf, 0xea, 0x41, 0x41, 0x40, 0xde, 0x5d, 0xae, 0x22, 0x23,
      0xb0, 0x03, 0x61, 0xa3, 0x96, 0x17, 0x7a, 0x9c, 0xb4, 0x10, 0xff, 0x61, 0xf2, 0x00, 0x15, 0xad]"
  by code_simp

end
