(* ===== verification/Lznt1.thy ===== *)
theory Lznt1
  imports Nt_Prelude
begin

text \<open>
  The LZNT1 codec of \<^verbatim>\<open>fs/ntfs/compression.rs\<close>.  Both directions work on byte slices
  with explicit positions, as in the source: the compressor cuts its input into blocks
  of 4096 bytes and stores each one compressed or, when that does not help, as it is;
  the decompressor reads the blocks back.  The main lemma is that decompressing what
  the compressor wrote gives the input back, except for one case: a last block of a
  single byte is stored under the header that marks the end of the data, and is lost.
\<close>

section \<open>Decompression\<close>

definition COMPRESSION_UNIT_SIZE :: nat where "COMPRESSION_UNIT_SIZE = 65536"
definition COMPRESSION_BLOCK_SIZE :: nat where "COMPRESSION_BLOCK_SIZE = 4096"

text \<open>The two readings of a block header.\<close>

definition block_is_compressed :: "u16 \<Rightarrow> bool" where
  "block_is_compressed header \<longleftrightarrow> header AND 0x8000 \<noteq> 0"

definition block_size :: "u16 \<Rightarrow> nat" where
  "block_size header = unat ((header AND 0x0FFF) + 1)"

text \<open>
  The copy of a back reference, byte by byte, so that a reference may overlap the bytes
  it produces.  The output slice has a fixed length.
\<close>

fun copy_match :: "nat \<Rightarrow> nat \<Rightarrow> nat \<Rightarrow> u8 list \<Rightarrow> nat \<times> u8 list" where
  "copy_match 0 from dst out = (dst, out)"
| "copy_match (Suc n) from dst out =
     (if length out \<le> dst then (dst, out)
      else copy_match n (from + 1) (dst + 1) (out[dst := out ! from]))"

text \<open>The eight items that follow a tag byte.\<close>

fun tag_items ::
  "u8 list \<Rightarrow> nat \<Rightarrow> u8 \<Rightarrow> nat list \<Rightarrow> nat \<Rightarrow> nat \<Rightarrow> u8 list \<Rightarrow> ntstatus + nat \<times> nat \<times> u8 list" where
  "tag_items c block_end tag [] src dst out = Inr (src, dst, out)"
| "tag_items c block_end tag (b # bs) src dst out =
     (if block_end \<le> src \<or> length out \<le> dst then Inr (src, dst, out)
      else if tag AND push_bit b 1 = 0 then
        if length c \<le> src then Inr (src, dst, out)
        else tag_items c block_end tag bs (src + 1) (dst + 1) (out[dst := c ! src])
      else if length c \<le> src + 1 then Inr (src, dst, out)
      else
        let token = le_u16 (c ! src) (c ! (src + 1));
            len = unat (drop_bit 12 token AND 0x0F) + 3;
            distance = unat (token AND 0x0FFF) + 1
        in if dst < distance then Inl STATUS_UNSUCCESSFUL
           else (case copy_match len (dst - distance) dst out of
                   (dst', out') \<Rightarrow> tag_items c block_end tag bs (src + 2) dst' out'))"

lemma tag_items_src: "tag_items c be tag bs src dst out = Inr (src', dst', out') \<Longrightarrow> src \<le> src'"
  by (induction c be tag bs src dst out rule: tag_items.induct)
    (fastforce simp: Let_def split: if_splits prod.splits)+

text \<open>The items of one compressed block.\<close>

function block_items ::
  "u8 list \<Rightarrow> nat \<Rightarrow> nat \<Rightarrow> nat \<Rightarrow> u8 list \<Rightarrow> ntstatus + nat \<times> nat \<times> u8 list" where
  "block_items c block_end src dst out =
     (if src < block_end \<and> dst < length out then
        if length c \<le> src then Inr (src, dst, out)
        else (case tag_items c block_end (c ! src) [0..<8] (src + 1) dst out of
                Inl e \<Rightarrow> Inl e
              | Inr (src', dst', out') \<Rightarrow> block_items c block_end src' dst' out')
      else Inr (src, dst, out))"
  by pat_completeness auto
termination
  by (relation "measure (\<lambda>(c, be, src, dst, out). length c - src)") (auto dest!: tag_items_src)

declare block_items.simps [simp del]

lemma block_items_src: "block_items c be src dst out = Inr (src', dst', out') \<Longrightarrow> src \<le> src'"
proof (induction c be src dst out rule: block_items.induct)
  case (1 c be src dst out)
  show ?case
    using "1.prems" "1.IH" tag_items_src [of c be "c ! src" "[0..<8]" "src + 1" dst out]
    by (subst (asm) block_items.simps) (fastforce split: if_splits sum.splits prod.splits)
qed

function blocks :: "u8 list \<Rightarrow> nat \<Rightarrow> nat \<Rightarrow> u8 list \<Rightarrow> ntstatus + nat \<times> u8 list" where
  "blocks c src dst out =
     (if src < length c \<and> dst < length out then
        if length c < src + 2 then Inr (dst, out)
        else
          let header = le_u16 (c ! src) (c ! (src + 1)) in
          if header = 0 then Inr (dst, out)
          else if \<not> block_is_compressed header then
            let copy_size = min (min (block_size header) (length out - dst)) (length c - (src + 2))
            in blocks c (src + 2 + copy_size) (dst + copy_size)
                 (overwrite out dst (slice_of c (src + 2) (src + 2 + copy_size)))
          else (case block_items c (src + 2 + block_size header) (src + 2) dst out of
                  Inl e \<Rightarrow> Inl e
                | Inr (src', dst', out') \<Rightarrow> blocks c src' dst' out')
      else Inr (dst, out))"
  by pat_completeness auto
termination
  by (relation "measure (\<lambda>(c, src, dst, out). length c - src)") (auto dest!: block_items_src)

declare blocks.simps [simp del]

definition decompress_lznt1 :: "u8 list \<Rightarrow> u8 list \<Rightarrow> ntstatus + nat \<times> u8 list" where
  "decompress_lznt1 compressed decompressed = blocks compressed 0 0 decompressed"

section \<open>Compression\<close>

text \<open>How far the data at two positions agree, up to the longest match of 18 bytes.\<close>

function match_run :: "u8 list \<Rightarrow> nat \<Rightarrow> nat \<Rightarrow> nat \<Rightarrow> nat" where
  "match_run data i pos len =
     (if pos + len < length data \<and> data ! (i + len) = data ! (pos + len) \<and> len < 18
      then match_run data i pos (len + 1) else len)"
  by pat_completeness auto
termination by (relation "measure (\<lambda>(data, i, pos, len). 18 - len)") auto

declare match_run.simps [simp del]

definition find_best_match :: "u8 list \<Rightarrow> nat \<Rightarrow> nat \<times> nat" where
  "find_best_match data pos = fold (\<lambda>i (best_distance, best_length).
       let len = match_run data i pos 0 in
       if best_length < len then (pos - i, len) else (best_distance, best_length))
     [pos - 4095..<pos] (0, 0)"

text \<open>The loop over the eight items of a tag: position, tag and output.\<close>

fun compress_items :: "u8 list \<Rightarrow> nat list \<Rightarrow> nat \<Rightarrow> u8 \<Rightarrow> u8 list \<Rightarrow> nat \<times> u8 \<times> u8 list" where
  "compress_items data [] pos tag out = (pos, tag, out)"
| "compress_items data (b # bs) pos tag out =
     (if length data \<le> pos then (pos, tag, out)
      else case find_best_match data pos of (match_distance, match_length) \<Rightarrow>
        if 3 \<le> match_length then
          let token = push_bit 12 (of_nat (match_length - 3) :: u16) OR of_nat (match_distance - 1)
          in compress_items data bs (pos + match_length) (tag OR push_bit b 1) (out @ u16_to_le_bytes token)
        else compress_items data bs (pos + 1) tag (out @ [data ! pos]))"

lemma compress_items_pos:
  "compress_items data bs pos tag out = (pos', tag', out') \<Longrightarrow> pos \<le> pos'"
  by (induction data bs pos tag out rule: compress_items.induct)
    (fastforce simp: Let_def split: if_splits prod.splits)+

lemma compress_items_progress:
  assumes "(pos', tag', out') = compress_items data bs pos tag out" "pos < length data" "bs \<noteq> []"
  shows "length data - pos' < length data - pos"
proof -
  obtain b bs' where bs: "bs = b # bs'" using assms(3) by (cases bs) auto
  obtain d l where f: "find_best_match data pos = (d, l)" by (cases "find_best_match data pos")
  have "pos < pos'"
  proof (cases "3 \<le> l")
    case True
    with assms(1,2) f bs have "pos + l \<le> pos'" by (auto simp: Let_def dest!: compress_items_pos [OF sym])
    with True show ?thesis by simp
  next
    case False
    with assms(1,2) f bs have "pos + 1 \<le> pos'" by (auto dest!: compress_items_pos [OF sym])
    then show ?thesis by simp
  qed
  with assms(2) show ?thesis by simp
qed

function compress_from :: "u8 list \<Rightarrow> nat \<Rightarrow> u8 list \<Rightarrow> u8 list" where
  "compress_from data pos output =
     (if pos < length data then
        let tag_pos = length output in
        (case compress_items data [0..<8] pos 0 (output @ [0]) of
           (pos', tag, output') \<Rightarrow> compress_from data pos' (output'[tag_pos := tag]))
      else output)"
  by pat_completeness auto
termination
  by (relation "measure (\<lambda>(data, pos, out). length data - pos)")
    (simp, auto simp del: compress_items.simps dest!: compress_items_progress)

declare compress_from.simps [simp del]

definition compress_block :: "u8 list \<Rightarrow> u8 list" where
  "compress_block data = compress_from data 0 []"

text \<open>
  The whole input.  A result that does not fit into the output slice is an error; what
  was written before stays in the slice.
\<close>

function compress_blocks :: "u8 list \<Rightarrow> nat \<Rightarrow> nat \<Rightarrow> u8 list \<Rightarrow> (ntstatus + nat) \<times> u8 list" where
  "compress_blocks data src dst compressed =
     (if src < length data then
        let size = min COMPRESSION_BLOCK_SIZE (length data - src);
            block_data = slice_of data src (src + size);
            temp = compress_block block_data;
            compressed_size = length temp
        in if compressed_size < size then
             if length compressed < dst + 2 + compressed_size then (Inl STATUS_UNSUCCESSFUL, compressed)
             else compress_blocks data (src + size) (dst + 2 + compressed_size)
               (overwrite (overwrite compressed dst (u16_to_le_bytes (0x8000 OR of_nat (compressed_size - 1))))
                  (dst + 2) temp)
           else
             if length compressed < dst + 2 + size then (Inl STATUS_UNSUCCESSFUL, compressed)
             else compress_blocks data (src + size) (dst + 2 + size)
               (overwrite (overwrite compressed dst (u16_to_le_bytes (of_nat (size - 1)))) (dst + 2) block_data)
      else (Inr dst, compressed))"
  by pat_completeness auto
termination
  by (relation "measure (\<lambda>(data, src, dst, c). length data - src)") (auto simp: COMPRESSION_BLOCK_SIZE_def min_def)

declare compress_blocks.simps [simp del]

definition compress_lznt1 :: "u8 list \<Rightarrow> u8 list \<Rightarrow> (ntstatus + nat) \<times> u8 list" where
  "compress_lznt1 data compressed = compress_blocks data 0 0 compressed"

section \<open>Compressed files\<close>

definition is_compressed :: "u32 \<Rightarrow> bool" where
  "is_compressed attributes \<longleftrightarrow> attributes AND 0x0800 \<noteq> 0"

text \<open>
  Reading from a compressed file: the unit that contains the offset is expanded into a
  buffer and the requested part copied out.  Slicing past the end of the data panics.
\<close>

definition read_compressed_file ::
  "u8 list \<Rightarrow> u64 \<Rightarrow> nat \<Rightarrow> u8 list \<Rightarrow> (ntstatus + nat \<times> u8 list) rust" where
  "read_compressed_file compressed_data offset len out =
     (let unit_index = unat offset div COMPRESSION_UNIT_SIZE;
          unit_offset = unat offset mod COMPRESSION_UNIT_SIZE;
          unit_start = unit_index * COMPRESSION_UNIT_SIZE in
      if length compressed_data < unit_start then Inl IndexOutOfBounds
      else Inr (case decompress_lznt1 (drop unit_start compressed_data) (replicate COMPRESSION_UNIT_SIZE 0) of
        Inl e \<Rightarrow> Inl e
      | Inr (decompressed_size, decompressed) \<Rightarrow>
          let copy_start = min unit_offset decompressed_size;
              copy_len = min (min len (decompressed_size - copy_start)) (length out)
          in Inr (copy_len, overwrite out 0 (slice_of decompressed copy_start (copy_start + copy_len)))))"

definition write_compressed_file :: "u8 list \<Rightarrow> u8 list \<Rightarrow> (ntstatus + nat) \<times> u8 list" where
  "write_compressed_file data compressed_output =
     (case compress_lznt1 data (replicate (length data * 2) 0) of
        (Inl e, _) \<Rightarrow> (Inl e, compressed_output)
      | (Inr compressed_size, temp) \<Rightarrow> (Inr compressed_size, take compressed_size temp))"


section \<open>Matches and tokens\<close>

lemma match_run:
  assumes "\<forall>k < len. data ! (i + k) = data ! (pos + k)" "len \<le> 18" "pos + len \<le> length data"
    "match_run data i pos len = n"
  shows "len \<le> n \<and> n \<le> 18 \<and> pos + n \<le> length data \<and> (\<forall>k < n. data ! (i + k) = data ! (pos + k))"
  using assms
proof (induction data i pos len rule: match_run.induct)
  case (1 data i pos len)
  show ?case
  proof (cases "pos + len < length data \<and> data ! (i + len) = data ! (pos + len) \<and> len < 18")
    case True
    with 1(2-5) have "match_run data i pos (len + 1) = n" by (subst (asm) match_run.simps) simp
    moreover from True 1(2) have "\<forall>k < len + 1. data ! (i + k) = data ! (pos + k)" by (auto simp: less_Suc_eq)
    ultimately show ?thesis using 1(1) [OF True] True by simp
  next
    case False
    with 1(5) have "n = len" by (subst (asm) match_run.simps) (simp split: if_splits)
    with 1(2-4) show ?thesis by simp
  qed
qed

text \<open>What a match that was found promises.\<close>

definition good_match :: "u8 list \<Rightarrow> nat \<Rightarrow> nat \<times> nat \<Rightarrow> bool" where
  "good_match data pos r = (case r of (d, l) \<Rightarrow> l = 0 \<or> 1 \<le> d \<and> d \<le> pos \<and> d \<le> 4095 \<and> l \<le> 18
     \<and> pos + l \<le> length data \<and> (\<forall>k < l. data ! (pos - d + k) = data ! (pos + k)))"

lemma good_match_fold:
  assumes "\<forall>i \<in> set is. i < pos \<and> pos - i \<le> 4095" "pos \<le> length data" "good_match data pos r"
  shows "good_match data pos (fold (\<lambda>i (bd, bl).
     let len = match_run data i pos 0 in if bl < len then (pos - i, len) else (bd, bl)) is r)"
  using assms
proof (induction "is" arbitrary: r)
  case (Cons i "is")
  have "good_match data pos (pos - i, match_run data i pos 0)"
    using match_run [of 0 data i pos] Cons.prems(1,2) by (auto simp: good_match_def)
  with Cons show ?case by (cases r) (simp add: Let_def)
qed simp

lemma find_best_match:
  assumes "pos \<le> length data"
  shows "good_match data pos (find_best_match data pos)"
  unfolding find_best_match_def
  by (rule good_match_fold) (use assms in \<open>auto simp: good_match_def\<close>)

lemma token_fields:
  assumes "a < 16" "b < 4096"
  defines "t \<equiv> push_bit 12 (of_nat a :: u16) OR of_nat b"
  shows "unat (drop_bit 12 t AND 0x0F) = a" "unat (t AND 0x0FFF) = b"
proof -
  have ba: "bit a n \<Longrightarrow> n < 4" for n
    using assms(1) bit_take_bit_iff [of 4 a n] by (simp add: take_bit_nat_eq_self)
  have bb: "bit b n \<Longrightarrow> n < 12" for n
    using assms(2) bit_take_bit_iff [of 12 b n] by (simp add: take_bit_nat_eq_self)
  have m: "(0x0F :: u16) = mask 4" "(0x0FFF :: u16) = mask 12" by (simp_all add: mask_eq_exp_minus_1)
  have "drop_bit 12 t AND mask 4 = of_nat a"
    by (intro bit_word_eqI) (auto simp: t_def bit_simps dest: ba bb)
  then show "unat (drop_bit 12 t AND 0x0F) = a" using assms(1) by (simp add: m)
  have "t AND mask 12 = of_nat b"
    by (intro bit_word_eqI) (auto simp: t_def bit_simps dest: ba bb)
  then show "unat (t AND 0x0FFF) = b" using assms(2) by (simp add: m)
qed

section \<open>One block\<close>

text \<open>The bytes that stand at a position of a slice.\<close>

definition stands_at :: "u8 list \<Rightarrow> nat \<Rightarrow> u8 list \<Rightarrow> bool" where
  "stands_at c src bs \<longleftrightarrow> src + length bs \<le> length c \<and> take (length bs) (drop src c) = bs"

lemma stands_at_Cons:
  "stands_at c src (b # bs) \<longleftrightarrow> src < length c \<and> c ! src = b \<and> stands_at c (src + 1) bs"
  by (auto simp: stands_at_def Cons_nth_drop_Suc [symmetric])

lemma stands_at_append:
  "stands_at c src (as @ bs) \<longleftrightarrow> stands_at c src as \<and> stands_at c (src + length as) bs"
proof (induction as arbitrary: src)
  case Nil
  then show ?case by (auto simp: stands_at_def)
next
  case (Cons a as)
  then show ?case by (simp add: stands_at_Cons)
qed

lemma stands_at_u16:
  "stands_at c src (u16_to_le_bytes v) \<Longrightarrow> src + 1 < length c \<and> le_u16 (c ! src) (c ! (src + 1)) = v"
  by (simp add: u16_to_le_bytes_def stands_at_Cons)

text \<open>
  The output agrees with the message \<open>m\<close> up to a position and has room for all of it.
\<close>

definition agrees :: "u8 list \<Rightarrow> nat \<Rightarrow> u8 list \<Rightarrow> bool" where
  "agrees m dst out \<longleftrightarrow> take dst out = take dst m \<and> dst \<le> length m \<and> length m \<le> length out"

lemma agrees_nth: "agrees m dst out \<Longrightarrow> k < dst \<Longrightarrow> out ! k = m ! k"
  by (metis agrees_def nth_take)

lemma agrees_step:
  assumes "agrees m dst out" "dst < length m"
  shows "agrees m (dst + 1) (out[dst := m ! dst])"
  using assms by (auto simp: agrees_def take_Suc_conv_app_nth)

lemma copy_match_agrees:
  assumes "agrees m dst out" "from < dst" "dst + n \<le> length m"
    "\<forall>k < n. m ! (from + k) = m ! (dst + k)"
  shows "\<exists>out'. copy_match n from dst out = (dst + n, out') \<and> agrees m (dst + n) out' \<and> length out' = length out"
  using assms
proof (induction n arbitrary: "from" dst out)
  case (Suc n)
  have o: "out ! from = m ! dst" using agrees_nth [OF Suc.prems(1,2)] Suc.prems(4) by (metis add_0_right zero_less_Suc)
  have a: "agrees m (dst + 1) (out[dst := out ! from])"
    using agrees_step [OF Suc.prems(1)] Suc.prems(3) o by simp
  have e: "\<forall>k < n. m ! (from + 1 + k) = m ! (dst + 1 + k)" using Suc.prems(4) by (auto dest: spec [of _ "Suc _"])
  have "dst < length out" using Suc.prems(1,3) by (simp add: agrees_def)
  with Suc.IH [OF a _ _ e] Suc.prems(2,3) show ?case by auto
qed simp

lemma compress_items_out:
  "compress_items data bs pos tag out = (pos', tag', out') \<Longrightarrow> \<exists>new. out' = out @ new"
proof (induction data bs pos tag out rule: compress_items.induct)
  case (2 data b bs pos tag out)
  obtain d l where f: "find_best_match data pos = (d, l)" by (cases "find_best_match data pos")
  with 2 show ?case by (auto simp: Let_def split: if_splits)
qed simp

lemma compress_items_bounds:
  "compress_items data bs pos tag out = (pos', tag', out') \<Longrightarrow> pos \<le> length data \<Longrightarrow>
     pos' \<le> length data \<and> (\<forall>b. b \<notin> set bs \<longrightarrow> bit tag' b = bit tag b)"
proof (induction data bs pos tag out rule: compress_items.induct)
  case (2 data b bs pos tag out)
  obtain d l where f: "find_best_match data pos = (d, l)" by (cases "find_best_match data pos")
  with find_best_match [OF 2(4)] have "3 \<le> l \<Longrightarrow> pos + l \<le> length data" by (auto simp: good_match_def)
  with 2 f show ?case by (auto simp: Let_def bit_simps split: if_splits)
qed simp

lemma tag_bit: "b < 8 \<Longrightarrow> tag AND 2 ^ b = 0 \<longleftrightarrow> \<not> bit tag b" for tag :: u8
  by (auto simp: and_eq_0_iff_bits bit_simps)

text \<open>
  The block under compression is the part of the message at \<open>base\<close>.
\<close>

definition block_of :: "u8 list \<Rightarrow> nat \<Rightarrow> u8 list \<Rightarrow> bool" where
  "block_of m base data \<longleftrightarrow> base + length data \<le> length m \<and> (\<forall>k < length data. data ! k = m ! (base + k))"

lemma decode_match:
  assumes "find_best_match data pos = (d, l)" "3 \<le> l" "pos < length data"
    "block_of m base data" "agrees m (base + pos) out"
  defines "token \<equiv> push_bit 12 (of_nat (l - 3) :: u16) OR of_nat (d - 1)"
  shows "unat (drop_bit 12 token AND 0x0F) + 3 = l" "unat (token AND 0x0FFF) + 1 = d" "d \<le> base + pos"
    "\<exists>out'. copy_match l (base + pos - d) (base + pos) out = (base + pos + l, out')
       \<and> agrees m (base + pos + l) out' \<and> length out' = length out"
proof -
  have g: "1 \<le> d" "d \<le> pos" "d \<le> 4095" "l \<le> 18" "pos + l \<le> length data"
    "\<forall>k < l. data ! (pos - d + k) = data ! (pos + k)"
    using find_best_match [of pos data] assms(1-3) by (auto simp: good_match_def)
  show "unat (drop_bit 12 token AND 0x0F) + 3 = l" "unat (token AND 0x0FFF) + 1 = d" "d \<le> base + pos"
    unfolding token_def using token_fields [of "l - 3" "d - 1"] g assms(2) by simp_all
  have "m ! (base + pos - d + k) = m ! (base + pos + k)" if "k < l" for k
  proof -
    have "data ! (pos - d + k) = m ! (base + (pos - d + k))" "data ! (pos + k) = m ! (base + (pos + k))"
      using assms(4) that g(1,2,5) by (simp_all add: block_of_def)
    then show ?thesis using g(2,6) that by (simp add: ac_simps)
  qed
  then show "\<exists>out'. copy_match l (base + pos - d) (base + pos) out = (base + pos + l, out')
       \<and> agrees m (base + pos + l) out' \<and> length out' = length out"
    using g assms(4) by (intro copy_match_agrees [OF assms(5)]) (simp_all add: block_of_def)
qed

lemma tag_items_decodes:
  assumes "compress_items data bs pos tag out0 = (pos', tag', out0 @ new)" "pos \<le> length data"
    "distinct bs" "\<forall>b \<in> set bs. b < 8 \<and> \<not> bit tag b"
    "stands_at c src new" "src + length new \<le> block_end" "pos' = length data \<longrightarrow> src + length new = block_end"
    "block_of m base data" "agrees m (base + pos) out"
  shows "\<exists>out'. tag_items c block_end tag' bs src (base + pos) out = Inr (src + length new, base + pos', out')
    \<and> agrees m (base + pos') out' \<and> length out' = length out"
  using assms
proof (induction bs arbitrary: pos tag out0 new src out)
  case (Cons b bs)
  show ?case
  proof (cases "length data \<le> pos")
    case True
    with Cons.prems show ?thesis by auto
  next
    case False
    then have room: "base + pos < length out" using Cons.prems(8,9) by (simp add: block_of_def agrees_def)
    obtain d l where f: "find_best_match data pos = (d, l)" by (cases "find_best_match data pos")
    show ?thesis
    proof (cases "3 \<le> l")
      case True
      define t :: u16 where "t = push_bit 12 (of_nat (l - 3)) OR of_nat (d - 1)"
      note dm = decode_match [OF f True _ Cons.prems(8,9), folded t_def]
      have "compress_items data bs (pos + l) (tag OR push_bit b 1) (out0 @ u16_to_le_bytes t)
          = (pos', tag', out0 @ new)" using Cons.prems(1) False f True by (simp add: Let_def t_def del: of_nat_diff)
      moreover from compress_items_out [OF this] obtain new' where n: "new = u16_to_le_bytes t @ new'" by auto
      ultimately have r: "compress_items data bs (pos + l) (tag OR push_bit b 1) (out0 @ u16_to_le_bytes t)
          = (pos', tag', (out0 @ u16_to_le_bytes t) @ new')" by simp
      have pl: "pos + l \<le> length data" using find_best_match [of pos data] f True Cons.prems(2) by (auto simp: good_match_def)
      obtain out1 where o: "copy_match l (base + pos - d) (base + pos) out = (base + pos + l, out1)"
        "agrees m (base + pos + l) out1" "length out1 = length out" using dm(4) False by auto
      have st: "stands_at c src (u16_to_le_bytes t)" "stands_at c (src + 2) new'"
        using Cons.prems(5) by (simp_all add: n stands_at_append)
      have "\<exists>out'. tag_items c block_end tag' bs (src + 2) (base + (pos + l)) out1
          = Inr (src + 2 + length new', base + pos', out') \<and> agrees m (base + pos') out' \<and> length out' = length out1"
        by (rule Cons.IH [OF r pl _ _ st(2)])
          (use n o(2) Cons.prems in \<open>auto simp: bit_simps add.assoc\<close>)
      moreover have "bit tag' b" using compress_items_bounds [OF r pl] Cons.prems(3,4) by (auto simp: bit_simps)
      moreover have "tag_items c block_end tag' (b # bs) src (base + pos) out
          = tag_items c block_end tag' bs (src + 2) (base + (pos + l)) out1"
      proof -
        have "src < block_end" "tag' AND push_bit b 1 \<noteq> 0"
          using n Cons.prems(4,6) calculation(2) by (simp_all add: tag_bit)
        then show ?thesis
          using room dm(1-3) False o(1) stands_at_u16 [OF st(1)] by (simp add: Let_def add.assoc not_le not_less)
      qed
      ultimately show ?thesis using n o(3) by (simp add: add.assoc)
    next
      case lit: False
      have "compress_items data bs (pos + 1) tag (out0 @ [data ! pos]) = (pos', tag', out0 @ new)"
        using Cons.prems(1) False f lit by simp
      moreover from compress_items_out [OF this] obtain new' where n: "new = data ! pos # new'" by auto
      ultimately have r: "compress_items data bs (pos + 1) tag (out0 @ [data ! pos])
          = (pos', tag', (out0 @ [data ! pos]) @ new')" by simp
      have "\<not> bit tag' b" using compress_items_bounds [OF r] False Cons.prems(3,4) by auto
      moreover have "c ! src = m ! (base + pos)" "src < length c"
        using Cons.prems(5,8) False n by (auto simp: stands_at_Cons block_of_def)
      moreover have a: "agrees m (base + pos + 1) (out[base + pos := m ! (base + pos)])"
        using agrees_step [OF Cons.prems(9)] Cons.prems(8) False by (simp add: block_of_def)
      moreover have "\<exists>out'. tag_items c block_end tag' bs (src + 1) (base + (pos + 1)) (out[base + pos := m ! (base + pos)])
          = Inr (src + 1 + length new', base + pos', out') \<and> agrees m (base + pos') out'
            \<and> length out' = length (out[base + pos := m ! (base + pos)])"
        by (rule Cons.IH [OF r])
          (use n a False Cons.prems in \<open>auto simp: stands_at_Cons add.assoc\<close>)
      ultimately show ?thesis using room Cons.prems(4,6) n by (auto simp: tag_bit)
    qed
  qed
qed auto

lemma compress_from_out:
  "\<exists>rest. compress_from data pos outp = outp @ rest \<and> (pos < length data \<longleftrightarrow> rest \<noteq> [])"
proof (induction data pos outp rule: compress_from.induct)
  case (1 data pos outp)
  show ?case
  proof (cases "pos < length data")
    case True
    obtain pos' tag outp' where i: "compress_items data [0..<8] pos 0 (outp @ [0]) = (pos', tag, outp')"
      by (cases "compress_items data [0..<8] pos 0 (outp @ [0])") auto
    obtain new where n: "outp' = (outp @ [0]) @ new" using compress_items_out [OF i] by blast
    obtain rest where "compress_from data pos' (outp'[length outp := tag]) = outp'[length outp := tag] @ rest"
      using "1.IH" [OF True refl i [symmetric] refl] by blast
    then show ?thesis
      using True by (subst compress_from.simps) (simp add: i n Let_def del: compress_items.simps)
  next
    case False
    then show ?thesis by (subst compress_from.simps) simp
  qed
qed

lemma block_items_decodes:
  assumes "compress_from data pos outp = outp @ rest" "pos \<le> length data"
    "stands_at c src rest" "src + length rest = block_end" "block_of m base data" "agrees m (base + pos) out"
  shows "\<exists>out'. block_items c block_end src (base + pos) out = Inr (block_end, base + length data, out')
    \<and> agrees m (base + length data) out' \<and> length out' = length out"
  using assms
proof (induction data pos outp arbitrary: rest src out rule: compress_from.induct)
  case (1 data pos outp)
  show ?case
  proof (cases "pos < length data")
    case True
    obtain pos' tag outp' where i: "compress_items data [0..<8] pos 0 (outp @ [0]) = (pos', tag, outp')"
      by (cases "compress_items data [0..<8] pos 0 (outp @ [0])") auto
    obtain new where n: "outp' = (outp @ [0]) @ new" using compress_items_out [OF i] by blast
    have p': "pos' \<le> length data" using compress_items_bounds [OF i] True by simp
    obtain rest' where r: "compress_from data pos' (outp @ tag # new) = (outp @ tag # new) @ rest'"
      "pos' < length data \<longleftrightarrow> rest' \<noteq> []" using compress_from_out by blast
    have rest: "rest = tag # new @ rest'"
      using True "1.prems"(1) r(1)
      by (subst (asm) compress_from.simps) (simp add: i n Let_def del: compress_items.simps)
    have st: "c ! src = tag" "src < length c" "stands_at c (src + 1) new" "stands_at c (src + 1 + length new) rest'"
      using "1.prems"(3) by (simp_all add: rest stands_at_Cons stands_at_append)
    have "\<exists>out1. tag_items c block_end tag [0..<8] (src + 1) (base + pos) out
        = Inr (src + 1 + length new, base + pos', out1) \<and> agrees m (base + pos') out1 \<and> length out1 = length out"
      using r(2) p' "1.prems"(4) True
      by (intro tag_items_decodes [OF i [unfolded n] _ _ _ st(3) _ _ "1.prems"(5,6)])
        (auto simp: rest simp del: compress_items.simps)
    then obtain out1 where t: "tag_items c block_end tag [0..<8] (src + 1) (base + pos) out
        = Inr (src + 1 + length new, base + pos', out1)" "agrees m (base + pos') out1" "length out1 = length out" by blast
    have "\<exists>out'. block_items c block_end (src + 1 + length new) (base + pos') out1
        = Inr (block_end, base + length data, out') \<and> agrees m (base + length data) out' \<and> length out' = length out1"
      using "1.IH" [OF True refl i [symmetric] refl _ p' st(4) _ "1.prems"(5) t(2)] r(1) n rest "1.prems"(4)
      by simp
    moreover have "src < block_end" "base + pos < length out"
      using "1.prems"(4,5,6) True by (auto simp: rest block_of_def agrees_def)
    ultimately show ?thesis
      using st(1,2) t(1,3) by (subst block_items.simps) (simp del: tag_items.simps)
  next
    case False
    with "1.prems" have "rest = []" "pos = length data" by (simp_all add: compress_from.simps)
    with "1.prems" show ?thesis by (subst block_items.simps) simp
  qed
qed

lemma compress_block_decodes:
  assumes "stands_at c src (compress_block data)" "block_of m base data" "agrees m base out"
  shows "\<exists>out'. block_items c (src + length (compress_block data)) src base out
      = Inr (src + length (compress_block data), base + length data, out')
    \<and> agrees m (base + length data) out' \<and> length out' = length out"
  using block_items_decodes [of data 0 "[]" "compress_block data" c src _ m base out] assms
  by (simp add: compress_block_def)

lemma compress_block_nonempty: "data \<noteq> [] \<Longrightarrow> compress_block data \<noteq> []"
  using compress_from_out [of data 0 "[]"] by (auto simp: compress_block_def)

section \<open>The whole stream\<close>

lemma header_fields:
  assumes "k < 4096"
  shows "block_size (of_nat k) = k + 1" "\<not> block_is_compressed (of_nat k)"
    "block_size (0x8000 OR of_nat k) = k + 1" "block_is_compressed (0x8000 OR of_nat k)"
proof -
  have b: "bit k n \<Longrightarrow> n < 12" for n
    using assms bit_take_bit_iff [of 12 k n] by (simp add: take_bit_nat_eq_self)
  have p: "(0x8000 :: u16) = 2 ^ 15" and m: "(0x0FFF :: u16) = mask 12" by (simp_all add: mask_eq_exp_minus_1)
  define e :: u16 where "e = 0x8000"
  have e: "bit e n \<longleftrightarrow> n = 15" for n unfolding e_def p bit_exp_iff by auto
  have "(of_nat k :: u16) AND mask 12 = of_nat k" "(e OR of_nat k) AND mask 12 = of_nat k"
    by (intro bit_word_eqI; auto simp: bit_simps e dest: b)+
  moreover have "unat (of_nat k + 1 :: u16) = k + 1"
    using assms unat_small_u16 [of "k + 1"] by (simp add: add.commute)
  ultimately show "block_size (of_nat k) = k + 1" "block_size (0x8000 OR of_nat k) = k + 1"
    by (simp_all only: block_size_def m e_def)
  show "\<not> block_is_compressed (of_nat k)" "block_is_compressed (0x8000 OR of_nat k)"
    unfolding block_is_compressed_def and_eq_0_iff_bits e_def [symmetric] by (auto simp: bit_simps e dest: b)
qed

lemma compressed_header_nonzero: "block_is_compressed h \<Longrightarrow> h \<noteq> 0"
  by (auto simp: block_is_compressed_def)

text \<open>One block of the stream: its header and its bytes.\<close>

definition block_bytes :: "u8 list \<Rightarrow> u8 list" where
  "block_bytes data = (if length (compress_block data) < length data
     then u16_to_le_bytes (0x8000 OR of_nat (length (compress_block data) - 1)) @ compress_block data
     else u16_to_le_bytes (of_nat (length data - 1)) @ data)"

lemma blocks_step:
  assumes "stands_at c src (block_bytes data)" "2 \<le> length data" "length data \<le> 4096"
    "block_of m base data" "agrees m base out"
  shows "\<exists>out'. blocks c src base out = blocks c (src + length (block_bytes data)) (base + length data) out'
    \<and> agrees m (base + length data) out' \<and> length out' = length out"
proof -
  have room: "base < length out" using assms(2,4,5) by (auto simp: block_of_def agrees_def)
  let ?z = "compress_block data"
  have "data \<noteq> []" using assms(2) by auto
  then have z: "1 \<le> length ?z" using compress_block_nonempty [of data] by (cases ?z) auto
  show ?thesis
  proof (cases "length ?z < length data")
    case True
    define h :: u16 where "h = 0x8000 OR of_nat (length ?z - 1)"
    have h: "block_size h = length ?z" "block_is_compressed h"
      unfolding h_def using header_fields(3,4) [of "length ?z - 1"] True assms(3) z by simp_all
    have st: "stands_at c src (u16_to_le_bytes h)" "stands_at c (src + 2) ?z"
      using assms(1) True by (simp_all add: block_bytes_def h_def stands_at_append)
    obtain out' where o: "block_items c (src + 2 + length ?z) (src + 2) base out
        = Inr (src + 2 + length ?z, base + length data, out')" "agrees m (base + length data) out'" "length out' = length out"
      using compress_block_decodes [OF st(2) assms(4,5)] by blast
    have "blocks c src base out = blocks c (src + 2 + length ?z) (base + length data) out'"
      using stands_at_u16 [OF st(1)] h o(1) room compressed_header_nonzero [OF h(2)]
      by (subst blocks.simps) (simp add: Let_def)
    with o(2,3) True show ?thesis by (auto simp: block_bytes_def)
  next
    case False
    define h :: u16 where "h = of_nat (length data - 1)"
    have h: "block_size h = length data" "\<not> block_is_compressed h"
      unfolding h_def using header_fields(1,2) [of "length data - 1"] assms(2,3) by simp_all
    have "unat h = length data - 1" unfolding h_def using assms(3) by (intro unat_small_u16) simp
    with assms(2) have "h \<noteq> 0" by auto
    have st: "stands_at c src (u16_to_le_bytes h)" "stands_at c (src + 2) data"
      using assms(1) False by (simp_all add: block_bytes_def h_def stands_at_append)
    let ?out = "overwrite out base data"
    have sl: "slice_of c (src + 2) (src + 2 + length data) = data" "src + 2 + length data \<le> length c"
      using st(2) by (simp_all add: stands_at_def slice_of_def)
    have "min (min (length data) (length out - base)) (length c - (src + 2)) = length data"
      using sl(2) assms(4,5) by (auto simp: block_of_def agrees_def min_def)
    then have "blocks c src base out = blocks c (src + 2 + length data) (base + length data) ?out"
      using stands_at_u16 [OF st(1)] h \<open>h \<noteq> 0\<close> sl(1) room by (subst blocks.simps) (simp add: Let_def)
    moreover have "data = take (length data) (drop base m)"
      using assms(4) by (intro nth_equalityI) (auto simp: block_of_def)
    then have "agrees m (base + length data) ?out"
      using assms(4,5) take_overwrite_end [of base out data] take_add [of base "length data" m]
      by (simp add: agrees_def block_of_def)
    moreover have "length ?out = length out" using assms(4,5) by (simp add: agrees_def block_of_def)
    ultimately show ?thesis using False by (auto simp: block_bytes_def)
  qed
qed

text \<open>A block of one byte is stored under the header that ends the data.\<close>

lemma blocks_stop:
  assumes "stands_at c src (block_bytes [b])"
  shows "blocks c src base out = Inr (base, out)"
proof -
  have "compress_block [b] \<noteq> []" by (rule compress_block_nonempty) simp
  then have "stands_at c src (u16_to_le_bytes 0)"
    using assms by (auto simp: block_bytes_def stands_at_append split: if_splits)
  from stands_at_u16 [OF this] show ?thesis by (subst blocks.simps) (simp add: Let_def)
qed

text \<open>
  The compressor as a sequence of blocks: each step appends the bytes of one block.
\<close>

lemma compress_blocks_unfold:
  assumes "src < length data" "sz = min 4096 (length data - src)" "blk = slice_of data src (src + sz)"
    "z = compress_block blk"
  shows "compress_blocks data src dst buf = (if length z < sz then
       if length buf < dst + 2 + length z then (Inl STATUS_UNSUCCESSFUL, buf)
       else compress_blocks data (src + sz) (dst + 2 + length z)
         (overwrite (overwrite buf dst (u16_to_le_bytes (0x8000 OR of_nat (length z - 1)))) (dst + 2) z)
     else
       if length buf < dst + 2 + sz then (Inl STATUS_UNSUCCESSFUL, buf)
       else compress_blocks data (src + sz) (dst + 2 + sz)
         (overwrite (overwrite buf dst (u16_to_le_bytes (of_nat (sz - 1)))) (dst + 2) blk))"
  unfolding assms(4,3) unfolding assms(2)
  by (subst compress_blocks.simps) (simp only: assms(1) if_True Let_def COMPRESSION_BLOCK_SIZE_def)

lemma compress_blocks_step:
  assumes "src < length data" "compress_blocks data src dst buf = (Inr n, buf')"
    "sz = min 4096 (length data - src)" "blk = slice_of data src (src + sz)" "bs = block_bytes blk"
  shows "dst + length bs \<le> length buf \<and>
    compress_blocks data (src + sz) (dst + length bs) (overwrite buf dst bs) = (Inr n, buf')"
proof -
  have l: "length blk = sz" using assms(1,3,4) by (simp add: slice_of_def)
  have o: "overwrite (overwrite buf dst (u16_to_le_bytes h)) (dst + 2) ys = overwrite buf dst (u16_to_le_bytes h @ ys)"
    if "dst + 2 + length ys \<le> length buf" for h ys
    using that by (intro overwrite_after_overwrite) simp_all
  define z where "z = compress_block blk"
  note e = assms(2) [unfolded compress_blocks_unfold [OF assms(1,3,4) z_def]]
  show ?thesis
  proof (cases "length z < sz")
    case True
    with e have "dst + 2 + length z \<le> length buf" by (auto split: if_splits)
    with e True o [of z] show ?thesis unfolding assms(5) block_bytes_def z_def [symmetric] l by (simp add: add.assoc)
  next
    case False
    with e have "dst + 2 + sz \<le> length buf" by (auto split: if_splits)
    with e False o [of blk] show ?thesis unfolding assms(5) block_bytes_def z_def [symmetric] l by (simp add: l add.assoc)
  qed
qed

lemma compress_blocks_frame:
  assumes "compress_blocks data src dst buf = (Inr n, buf')" "dst \<le> length buf"
  shows "dst \<le> n \<and> n \<le> length buf \<and> length buf' = length buf \<and> take dst buf' = take dst buf"
  using assms
proof (induction "length data - src" arbitrary: src dst buf rule: less_induct)
  case less
  show ?case
  proof (cases "src < length data")
    case False
    with less.prems show ?thesis by (auto simp: compress_blocks.simps)
  next
    case True
    define sz where "sz = min 4096 (length data - src)"
    define bs where "bs = block_bytes (slice_of data src (src + sz))"
    have s: "dst + length bs \<le> length buf"
      "compress_blocks data (src + sz) (dst + length bs) (overwrite buf dst bs) = (Inr n, buf')"
      using compress_blocks_step [OF True less.prems(1) sz_def refl bs_def] by simp_all
    have "length data - (src + sz) < length data - src" using True by (simp add: sz_def)
    from less.hyps [OF this s(2)] s(1) have f: "dst + length bs \<le> n" "n \<le> length buf" "length buf' = length buf"
      "take (dst + length bs) buf' = take (dst + length bs) (overwrite buf dst bs)" by simp_all
    have "take dst (take (dst + length bs) buf') = take dst (take (dst + length bs) (overwrite buf dst bs))"
      by (simp only: f(4))
    then have "take dst buf' = take dst buf" using s(1) by (simp add: min_def)
    with f show ?thesis by simp
  qed
qed

lemma compress_blocks_decodes:
  assumes "compress_blocks data src dst buf = (Inr n, buf')" "dst \<le> length buf"
    "src mod 4096 = 0 \<or> src = length data" "agrees data src out"
  shows "\<exists>out'. blocks (take n buf') dst src out
      = Inr (if length data mod 4096 = 1 \<and> src < length data then length data - 1 else length data, out')
    \<and> agrees data (if length data mod 4096 = 1 \<and> src < length data then length data - 1 else length data) out'
    \<and> length out' = length out"
  using assms
proof (induction "length data - src" arbitrary: src dst buf out rule: less_induct)
  case less
  show ?case
  proof (cases "src < length data")
    case False
    with less.prems have "src = length data" "n = dst" "buf' = buf"
      by (auto simp: compress_blocks.simps agrees_def)
    with less.prems show ?thesis by (subst blocks.simps) simp
  next
    case True
    define sz where "sz = min 4096 (length data - src)"
    define blk where "blk = slice_of data src (src + sz)"
    define bs where "bs = block_bytes blk"
    have s: "dst + length bs \<le> length buf"
      "compress_blocks data (src + sz) (dst + length bs) (overwrite buf dst bs) = (Inr n, buf')"
      using compress_blocks_step [OF True less.prems(1) sz_def blk_def bs_def] by simp_all
    have lb: "length blk = sz" and bo: "block_of data src blk"
      using True by (auto simp: blk_def sz_def slice_of_def block_of_def)
    note f = compress_blocks_frame [OF s(2)]
    have st: "stands_at (take n buf') dst bs"
    proof -
      have "take (dst + length bs) buf' = take dst buf @ bs" using f s(1) by (simp add: take_overwrite_end)
      from arg_cong [OF this, of "drop dst"] have "take (length bs) (drop dst buf') = bs"
        using s(1) by (simp add: drop_take)
      moreover have "min (length bs) (n - dst) = length bs" using f s(1) by auto
      ultimately show ?thesis using f s(1) by (simp add: stands_at_def drop_take)
    qed
    have src: "src mod 4096 = 0" using True less.prems(3) by simp
    show ?thesis
    proof (cases "sz = 1")
      case one: True
      then obtain b where b: "blk = [b]" using lb by (cases blk) auto
      have "length data = src + 1" using one True by (auto simp: sz_def min_def split: if_splits)
      moreover from this src have "length data mod 4096 = 1" by (simp add: mod_Suc)
      ultimately show ?thesis using blocks_stop [OF st [unfolded bs_def b]] less.prems(4) by auto
    next
      case False
      have sz: "2 \<le> sz" "sz \<le> 4096" using False True by (auto simp: sz_def)
      have nx: "(src + sz) mod 4096 = 0 \<or> src + sz = length data"
        using src True by (auto simp: sz_def min_def mod_add_eq [symmetric])
      obtain out1 where o: "blocks (take n buf') dst src out = blocks (take n buf') (dst + length bs) (src + sz) out1"
        "agrees data (src + sz) out1" "length out1 = length out"
        using blocks_step [OF st [unfolded bs_def], of data src out] sz lb bo less.prems(4) bs_def by auto
      have "length data - (src + sz) < length data - src" using True sz by simp
      from less.hyps [OF this s(2) _ nx o(2)] s(1) obtain out' where
        r: "blocks (take n buf') (dst + length bs) (src + sz) out1
      = Inr (if length data mod 4096 = 1 \<and> src + sz < length data then length data - 1 else length data, out')"
        "agrees data (if length data mod 4096 = 1 \<and> src + sz < length data then length data - 1 else length data) out'"
        "length out' = length out1" by auto
      have "length data mod 4096 = 1 \<Longrightarrow> src + sz < length data"
      proof (rule ccontr)
        assume a: "length data mod 4096 = 1" "\<not> src + sz < length data"
        with True have "length data = src + sz" by (auto simp: sz_def)
        then have "length data mod 4096 = sz mod 4096" using src by (metis add_0 mod_add_left_eq)
        with a(1) sz show False by (cases "sz = 4096") simp_all
      qed
      with r o True show ?thesis by auto
    qed
  qed
qed

lemma lznt1_decodes:
  assumes "compress_lznt1 data buf = (Inr n, buf')" "length data \<le> length out"
  defines "k \<equiv> (if length data mod 4096 = 1 then length data - 1 else length data)"
  shows "\<exists>out'. decompress_lznt1 (take n buf') out = Inr (k, out') \<and> take k out' = take k data
    \<and> length out' = length out"
proof -
  have a: "agrees data 0 out" using assms(2) by (simp add: agrees_def)
  have "(length data mod 4096 = 1 \<and> 0 < length data) = (length data mod 4096 = 1)" by auto
  with compress_blocks_decodes [OF assms(1) [unfolded compress_lznt1_def] _ _ a] show ?thesis
    by (auto simp: decompress_lznt1_def k_def agrees_def)
qed

section \<open>Room for the result\<close>

text \<open>Every block takes at most two bytes more than its data.\<close>

lemma compress_blocks_fits:
  assumes "dst + (length data - src) + 2 * ((length data - src + 4095) div 4096) \<le> length buf"
  shows "\<exists>n buf'. compress_blocks data src dst buf = (Inr n, buf')"
  using assms
proof (induction "length data - src" arbitrary: src dst buf rule: less_induct)
  case less
  show ?case
  proof (cases "src < length data")
    case False
    then show ?thesis by (auto simp: compress_blocks.simps)
  next
    case True
    define sz where "sz = min 4096 (length data - src)"
    define blk where "blk = slice_of data src (src + sz)"
    define z where "z = compress_block blk"
    define w where "w = (if length z < sz then u16_to_le_bytes (0x8000 OR of_nat (length z - 1))
       else u16_to_le_bytes (of_nat (sz - 1)))"
    define y where "y = (if length z < sz then z else blk)"
    have lb: "length blk = sz" using True by (auto simp: blk_def sz_def slice_of_def)
    have q: "(length data - (src + sz) + 4095) div 4096 + 1 \<le> (length data - src + 4095) div 4096" "1 \<le> sz"
      "sz + (length data - (src + sz)) = length data - src"
      using True by (auto simp: sz_def min_def)
    have y: "length y \<le> sz" "length w = 2" using lb by (simp_all add: y_def w_def)
    have fit: "dst + 2 + length y + (length data - (src + sz)) + 2 * ((length data - (src + sz) + 4095) div 4096) \<le> length buf"
      using less.prems q y(1) by linarith
    have e: "compress_blocks data src dst buf = compress_blocks data (src + sz) (dst + 2 + length y)
        (overwrite (overwrite buf dst w) (dst + 2) y)"
      using fit by (simp add: compress_blocks_unfold [OF True sz_def blk_def z_def] y_def w_def lb split: if_splits)
    have "length data - (src + sz) < length data - src" using True q(2) by simp
    then show ?thesis unfolding e by (rule less.hyps) (use fit y in simp)
  qed
qed

lemma write_fits:
  assumes "length data \<noteq> 1"
  shows "\<exists>n buf'. compress_lznt1 data (replicate (length data * 2) 0) = (Inr n, buf')"
  unfolding compress_lznt1_def
proof (rule compress_blocks_fits)
  have "2 * ((length data + 4095) div 4096) \<le> length data" proof (cases "(length data + 4095) div 4096 \<le> 1")
    case True
    moreover have "length data = 0 \<Longrightarrow> (length data + 4095) div 4096 = 0" by simp
    ultimately show ?thesis using assms by linarith
  next
    case False
    moreover have "4096 * ((length data + 4095) div 4096) \<le> length data + 4095" by simp
    ultimately show ?thesis by linarith
  qed
  then show "0 + (length data - 0) + 2 * ((length data - 0 + 4095) div 4096) \<le> length (replicate (length data * 2) (0 :: u8))"
    by simp
qed

section \<open>Files\<close>

text \<open>What is left of the data after a write and a read.\<close>

definition kept :: "u8 list \<Rightarrow> u8 list" where
  "kept data = (if length data mod 4096 = 1 then butlast data else data)"

lemma kept_take: "kept data = take (if length data mod 4096 = 1 then length data - 1 else length data) data"
  by (simp add: kept_def butlast_conv_take)

lemma lznt1_kept:
  assumes "compress_lznt1 data buf = (Inr n, buf')" "length data \<le> length out"
  shows "\<exists>out'. decompress_lznt1 (take n buf') out = Inr (length (kept data), out')
    \<and> take (length (kept data)) out' = kept data \<and> length out' = length out"
  using lznt1_decodes [OF assms] by (auto simp: kept_take)

lemma write_read:
  assumes "length data \<noteq> 1" "length data \<le> COMPRESSION_UNIT_SIZE" "unat offset < COMPRESSION_UNIT_SIZE"
  obtains n c where "write_compressed_file data c0 = (Inr n, c)"
    "read_compressed_file c offset len out =
       (let part = take (min len (length out)) (drop (unat offset) (kept data))
        in Inr (Inr (length part, overwrite out 0 part)))"
proof -
  obtain n buf' where w: "compress_lznt1 data (replicate (length data * 2) 0) = (Inr n, buf')"
    using write_fits [OF assms(1)] by blast
  obtain d where d: "decompress_lznt1 (take n buf') (replicate COMPRESSION_UNIT_SIZE 0) = Inr (length (kept data), d)"
    "take (length (kept data)) d = kept data" "length d = COMPRESSION_UNIT_SIZE"
    using lznt1_kept [OF w, of "replicate COMPRESSION_UNIT_SIZE 0"] assms(2) by auto
  define k where "k = length (kept data)"
  define s where "s = min (unat offset) k"
  define l where "l = min (min len (k - s)) (length out)"
  have sl: "slice_of d s (s + l) = take (min len (length out)) (drop (unat offset) (kept data))"
  proof -
    have "slice_of d s (s + l) = take l (drop s (take k d))"
      by (auto simp: slice_of_def take_drop l_def min_def)
    also have "\<dots> = take l (drop s (kept data))" using d(2) by (simp add: k_def)
    also have "\<dots> = take (min len (length out)) (drop (unat offset) (kept data))"
      by (rule nth_equalityI) (auto simp: l_def s_def k_def min_def)
    finally show ?thesis .
  qed
  have "length (take (min len (length out)) (drop (unat offset) (kept data))) = l"
    by (auto simp: l_def s_def k_def min_def)
  moreover have "read_compressed_file (take n buf') offset len out = Inr (Inr (l, overwrite out 0 (slice_of d s (s + l))))"
    using assms(3) d(1) by (simp add: read_compressed_file_def Let_def l_def s_def k_def)
  ultimately have "read_compressed_file (take n buf') offset len out =
      (let part = take (min len (length out)) (drop (unat offset) (kept data))
       in Inr (Inr (length part, overwrite out 0 part)))" by (simp only: sl Let_def)
  moreover have "write_compressed_file data c0 = (Inr n, take n buf')" using w by (simp add: write_compressed_file_def)
  ultimately show thesis using that by blast
qed

lemma write_one_byte: "length data = 1 \<Longrightarrow> \<exists>e. write_compressed_file data c0 = (Inl e, c0)"
proof -
  assume "length data = 1"
  then obtain x where d: "data = [x]" by (auto simp: length_Suc_conv)
  have u: "[0..<8] = 0 # [1..<8]" by (simp add: upt_rec)
  have i: "compress_items [x] [0..<8] 0 0 [0] = (1, 0, [0, x])"
    unfolding u by (cases "[1 :: nat..<8]") (simp_all add: find_best_match_def)
  have "compress_block [x] = [0, x]"
    unfolding compress_block_def by (subst compress_from.simps, subst compress_from.simps) (simp add: i [simplified])
  then have "compress_lznt1 [x] (replicate 2 0) = (Inl STATUS_UNSUCCESSFUL, replicate 2 0)"
    unfolding compress_lznt1_def
    by (subst compress_blocks.simps) (simp add: COMPRESSION_BLOCK_SIZE_def slice_of_def)
  then show ?thesis by (auto simp: d write_compressed_file_def numeral_2_eq_2)
qed

section \<open>Properties\<close>

text \<open>
  C5: Decompressing what the compressor wrote, into any buffer with room for the data,
  gives the data back; when the length leaves a last block of a single byte, that byte
  is lost, because it is stored under the header that ends the data.
\<close>

theorem lznt1_round_trip:
  assumes "compress_lznt1 data buf = (Inr n, buf')" "length data \<le> length out"
  shows "\<exists>out'. decompress_lznt1 (take n buf') out = Inr (length (kept data), out')
    \<and> take (length (kept data)) out' = kept data \<and> length out' = length out"
  using assms by (rule lznt1_kept)

theorem lznt1_round_trip_witness:
  "\<exists>n buf' out'. compress_lznt1 [7, 7, 9] (replicate 6 0) = (Inr n, buf')
    \<and> decompress_lznt1 (take n buf') [0, 0, 0, 0] = Inr (3, out') \<and> take 3 out' = [7, 7, 9]"
proof -
  obtain n buf' where c: "compress_lznt1 [7, 7, 9] (replicate 6 0) = (Inr n, buf')"
    using write_fits [of "[7, 7, 9]"] by auto
  have k: "kept [7, 7, 9] = [7, 7, 9]" "length [7, 7, 9 :: u8] = 3" by (simp_all add: kept_def)
  have "length [7, 7, 9 :: u8] \<le> length [0, 0, 0, 0 :: u8]" by simp
  from lznt1_round_trip [OF c this, unfolded k] c show ?thesis by blast
qed

text \<open>
  C22: Writing a file of at most one compression unit succeeds unless it has exactly one
  byte, when it is refused and the output stays as it was.  Reading at an offset inside the
  unit then copies out the bytes from there on, as many as were asked for, fit, and are
  there: all bytes of the file are there, except that a file whose length is 1 modulo 4096
  has lost its last byte.
\<close>

theorem compressed_file_round_trip:
  assumes "length data \<le> COMPRESSION_UNIT_SIZE" "unat offset < COMPRESSION_UNIT_SIZE"
  shows "if length data = 1 then \<exists>e. write_compressed_file data c0 = (Inl e, c0)
    else \<exists>n c. write_compressed_file data c0 = (Inr n, c)
      \<and> read_compressed_file c offset len out =
         (let left = (if length data mod 4096 = 1 then butlast data else data);
              part = take (min len (length out)) (drop (unat offset) left)
          in Inr (Inr (length part, overwrite out 0 part)))"
proof (cases "length data = 1")
  case True
  then show ?thesis using write_one_byte [OF True] by simp
next
  case False
  obtain n c where "write_compressed_file data c0 = (Inr n, c)"
    "read_compressed_file c offset len out =
       (let part = take (min len (length out)) (drop (unat offset) (kept data))
        in Inr (Inr (length part, overwrite out 0 part)))"
    by (rule write_read [OF False assms])
  then show ?thesis unfolding kept_def Let_def if_not_P [OF False] by blast
qed

theorem compressed_file_round_trip_witness:
  "\<exists>n c. write_compressed_file [1, 2, 3, 4] [] = (Inr n, c)
     \<and> read_compressed_file c 1 2 [0, 0, 0] = Inr (Inr (2, [2, 3, 0]))"
proof -
  have l: "overwrite [0, 0, 0 :: u8] 0 [2, 3] = [2, 3, 0]" by (simp add: overwrite_def)
  have "length [1, 2, 3, 4 :: u8] \<le> COMPRESSION_UNIT_SIZE" "unat (1 :: u64) < COMPRESSION_UNIT_SIZE"
    by (simp_all add: COMPRESSION_UNIT_SIZE_def)
  from compressed_file_round_trip [OF this, of "[]" 2 "[0, 0, 0]"] show ?thesis by (simp add: Let_def min_def l)
qed

end
