(* ===== verification/Cell_Allocator.thy ===== *)
theory Cell_Allocator
  imports Nt_Prelude "HOL-Library.AList" "HOL-Library.Multiset"
begin

text \<open>
  The cell allocator of a registry hive, \<^verbatim>\<open>registry/cell_allocator.rs\<close>: free cells in 32
  buckets by size, allocated cells in a map from offsets to sizes, and a frontier behind
  which nothing was handed out yet.  The invariant is that allocated and free cells tile
  the space between the start of the hive and the frontier: every byte there belongs to
  exactly one cell, so cells never overlap and nothing is lost.  All arithmetic is on
  32-bit words and wraps, as in the release build.
\<close>

section \<open>State and operations\<close>

definition MIN_CELL_SIZE :: u32 where "MIN_CELL_SIZE = 8"
definition MAX_CELL_SIZE :: u32 where "MAX_CELL_SIZE = 524288"
definition CELL_ALIGNMENT :: u32 where "CELL_ALIGNMENT = 8"
definition FREE_LIST_BUCKETS :: nat where "FREE_LIST_BUCKETS = 32"

datatype hive_error = TooSmall | BadMagic | UnsupportedVersion u32 | BadChecksum | Truncated
  | BadCellKind u8 | BadUtf16 | OutOfBounds | InvalidPointer

record free_cell =
  fc_offset :: u32
  fc_size :: u32

text \<open>The map of allocated cells is a list of pairs without repeated keys.\<close>

record cell_allocator =
  free_lists :: "free_cell list list"
  allocated :: "(u32 \<times> u32) list"
  total_allocated :: u32
  total_free :: u32
  next_offset :: u32
  max_size :: u32

definition cell_allocator_new :: "u32 \<Rightarrow> u32 \<Rightarrow> cell_allocator" where
  "cell_allocator_new initial_size maximum =
     \<lparr>free_lists = replicate FREE_LIST_BUCKETS [], allocated = [], total_allocated = 0, total_free = 0,
      next_offset = initial_size, max_size = maximum\<rparr>"

definition align_up :: "u32 \<Rightarrow> u32 \<Rightarrow> u32" where
  "align_up v alignment = (v + alignment - 1) AND NOT (alignment - 1)"

function floor_log :: "u32 \<Rightarrow> nat \<Rightarrow> nat" where
  "floor_log s log = (if 1 < s then floor_log (drop_bit 1 s) (log + 1) else log)"
  by pat_completeness auto
termination
proof (relation "measure (\<lambda>(s, log). unat s)", goal_cases)
  case (2 s log)
  then have "1 < unat s" by (simp add: word_less_nat_alt)
  then show ?case by (simp add: drop_bit_eq_div unat_div)
qed simp

declare floor_log.simps [simp del]

definition size_to_bucket :: "u32 \<Rightarrow> nat" where
  "size_to_bucket s =
     (if s \<le> 64 then 0 else if s \<le> 128 then 1 else if s \<le> 256 then 2 else if s \<le> 512 then 3
      else min (floor_log s 0 - 9) (FREE_LIST_BUCKETS - 1))"

text \<open>Taking the first cell with a property out of the first bucket that has one.\<close>

fun take_cell :: "(free_cell \<Rightarrow> bool) \<Rightarrow> free_cell list list \<Rightarrow> (free_cell \<times> free_cell list list) option" where
  "take_cell P [] = None"
| "take_cell P (b # bs) = (case find_from P b (length b) of
     Some i \<Rightarrow> Some (b ! i, remove_at i b # bs)
   | None \<Rightarrow> (case take_cell P bs of None \<Rightarrow> None | Some (c, bs') \<Rightarrow> Some (c, b # bs')))"

text \<open>Merging a cell with the free cell that ends before it and the one that starts after it.\<close>

definition coalesce_free_cell :: "u32 \<Rightarrow> u32 \<Rightarrow> cell_allocator \<Rightarrow> free_cell \<times> cell_allocator" where
  "coalesce_free_cell offset sz st =
     (let (result_offset, result_size, st1) =
            (case take_cell (\<lambda>c. fc_offset c + fc_size c = offset) (free_lists st) of
               None \<Rightarrow> (offset, sz, st)
             | Some (prev, fl) \<Rightarrow> (fc_offset prev, sz + fc_size prev,
                 st\<lparr>free_lists := fl, total_free := total_free st - fc_size prev\<rparr>));
          next_off = result_offset + result_size
      in case take_cell (\<lambda>c. fc_offset c = next_off) (free_lists st1) of
           None \<Rightarrow> (\<lparr>fc_offset = result_offset, fc_size = result_size\<rparr>, st1)
         | Some (nxt, fl) \<Rightarrow> (\<lparr>fc_offset = result_offset, fc_size = result_size + fc_size nxt\<rparr>,
             st1\<lparr>free_lists := fl, total_free := total_free st1 - fc_size nxt\<rparr>))"

definition free_cell_internal :: "u32 \<Rightarrow> u32 \<Rightarrow> cell_allocator \<Rightarrow> cell_allocator" where
  "free_cell_internal offset sz st = (case coalesce_free_cell offset sz st of (c, st1) \<Rightarrow>
     let bucket = size_to_bucket (fc_size c) in
     st1\<lparr>free_lists := (free_lists st1)[bucket := free_lists st1 ! bucket @ [c]],
         total_free := total_free st1 + fc_size c\<rparr>)"

definition cell_allocate :: "u32 \<Rightarrow> cell_allocator \<Rightarrow> (hive_error + u32) \<times> cell_allocator" where
  "cell_allocate sz st =
     (if sz < MIN_CELL_SIZE \<or> MAX_CELL_SIZE < sz then (Inl OutOfBounds, st)
      else
        let aligned_size = align_up sz CELL_ALIGNMENT;
            bucket = size_to_bucket aligned_size
        in case take_cell (\<lambda>c. aligned_size \<le> fc_size c) (drop bucket (free_lists st)) of
             Some (c, fl) \<Rightarrow>
               let offset = fc_offset c;
                   st1 = st\<lparr>free_lists := take bucket (free_lists st) @ fl\<rparr>;
                   remainder = fc_size c - aligned_size;
                   st2 = (if MIN_CELL_SIZE \<le> remainder
                          then free_cell_internal (offset + aligned_size) remainder st1 else st1)
               in (Inr offset, st2\<lparr>allocated := AList.update offset aligned_size (allocated st2),
                     total_allocated := total_allocated st2 + aligned_size,
                     total_free := total_free st2 - fc_size c\<rparr>)
           | None \<Rightarrow>
               let offset = next_offset st; new_next = offset + aligned_size
               in if max_size st < new_next then (Inl OutOfBounds, st)
                  else (Inr offset, st\<lparr>next_offset := new_next,
                     allocated := AList.update offset aligned_size (allocated st),
                     total_allocated := total_allocated st + aligned_size\<rparr>))"

definition cell_free :: "u32 \<Rightarrow> cell_allocator \<Rightarrow> (hive_error + unit) \<times> cell_allocator" where
  "cell_free offset st = (case map_of (allocated st) offset of
     None \<Rightarrow> (Inl InvalidPointer, st)
   | Some sz \<Rightarrow> (Inr (), free_cell_internal offset sz
       (st\<lparr>allocated := AList.delete offset (allocated st), total_allocated := total_allocated st - sz\<rparr>)))"

record cell_allocator_stats =
  st_total_allocated :: u32
  st_total_free :: u32
  st_allocated_cells :: u32
  st_next_offset :: u32

definition cell_stats :: "cell_allocator \<Rightarrow> cell_allocator_stats" where
  "cell_stats st = \<lparr>st_total_allocated = total_allocated st, st_total_free = total_free st,
     st_allocated_cells = of_nat (length (allocated st)), st_next_offset = next_offset st\<rparr>"

text \<open>The self check: no allocated cell reaches into the next one.\<close>

definition cell_validate :: "cell_allocator \<Rightarrow> hive_error + unit" where
  "cell_validate st =
     (let sorted = sort_key fst (allocated st) in
      if \<exists>i \<in> set [0..<length sorted - 1]. fst (sorted ! (i + 1)) < fst (sorted ! i) + snd (sorted ! i)
      then Inl OutOfBounds else Inr ())"

section \<open>Tilings\<close>

text \<open>
  How many cells of a multiset contain an address.  Splitting a cell, or merging two
  neighbours, does not change it.
\<close>

definition cover :: "(nat \<times> nat) multiset \<Rightarrow> nat \<Rightarrow> nat" where
  "cover M n = size {#c \<in># M. fst c \<le> n \<and> n < fst c + snd c#}"

definition tiles :: "(nat \<times> nat) multiset \<Rightarrow> nat \<Rightarrow> nat \<Rightarrow> bool" where
  "tiles M lo hi \<longleftrightarrow> (\<forall>n. cover M n = (if lo \<le> n \<and> n < hi then 1 else 0))"

lemma cover_empty [simp]: "cover {#} n = 0"
  by (simp add: cover_def)

lemma cover_add [simp]:
  "cover (add_mset (o1, s1) M) n = (if o1 \<le> n \<and> n < o1 + s1 then 1 else 0) + cover M n"
  by (simp add: cover_def)

lemma tiles_merge:
  "tiles (add_mset (o1, a) (add_mset (o1 + a, b) M)) lo hi \<longleftrightarrow> tiles (add_mset (o1, a + b) M) lo hi"
proof -
  have "cover (add_mset (o1, a) (add_mset (o1 + a, b) M)) n = cover (add_mset (o1, a + b) M) n" for n by auto
  then show ?thesis unfolding tiles_def by (simp only:)
qed

lemma tiles_bounds:
  assumes "tiles (add_mset (o1, s1) M) lo hi" "0 < s1"
  shows "lo \<le> o1" "o1 + s1 \<le> hi"
proof -
  have 1: "cover (add_mset (o1, s1) M) o1 \<noteq> 0" "cover (add_mset (o1, s1) M) (o1 + s1 - 1) \<noteq> 0"
    using assms(2) by auto
  have c: "cover (add_mset (o1, s1) M) n \<noteq> 0 \<Longrightarrow> lo \<le> n \<and> n < hi" for n
    using assms(1) unfolding tiles_def by (metis (full_types))
  from c [OF 1(1)] c [OF 1(2)] assms(2) show "lo \<le> o1" "o1 + s1 \<le> hi" by linarith+
qed

lemma tiles_member_bounds:
  "tiles M lo hi \<Longrightarrow> (o1, s1) \<in># M \<Longrightarrow> 0 < s1 \<Longrightarrow> lo \<le> o1 \<and> o1 + s1 \<le> hi"
  by (metis multi_member_split tiles_bounds)

lemma tiles_disjoint:
  assumes "tiles (add_mset (o1, s1) (add_mset (o2, s2) M)) lo hi" "0 < s1" "0 < s2"
  shows "o1 + s1 \<le> o2 \<or> o2 + s2 \<le> o1"
proof (rule ccontr)
  assume "\<not> ?thesis"
  then have "2 \<le> cover (add_mset (o1, s1) (add_mset (o2, s2) M)) (max o1 o2)" using assms(2,3) by (auto simp: max_def)
  with assms(1) show False unfolding tiles_def by (metis (full_types) not_less_eq_eq numeral_2_eq_2 zero_le One_nat_def)
qed

lemma tiles_extend:
  "tiles M lo hi \<Longrightarrow> lo \<le> hi \<Longrightarrow> tiles (add_mset (hi, s1) M) lo (hi + s1)"
  unfolding tiles_def cover_add by auto

lemma tiles_total:
  assumes "tiles M lo hi" "lo \<le> hi"
  shows "sum_mset (image_mset snd M) = hi - lo"
proof -
  have fin: "sum_mset (image_mset snd M) = (\<Sum>n < k. cover M n)" if "\<forall>c \<in># M. fst c + snd c \<le> k" for k
    using that
  proof (induction M)
    case (add c M)
    obtain a s where c: "c = (a, s)" by (cases c)
    have "(\<Sum>n<k. (if a \<le> n \<and> n < a + s then 1 else 0 :: nat)) = card {a..<a + s}"
    proof -
      have "{a..<a + s} = {n \<in> {..<k}. a \<le> n \<and> n < a + s}" using add.prems c by auto
      then show ?thesis by (simp add: sum.If_cases Int_def)
    qed
    with add c show ?case by (simp add: sum.distrib)
  qed simp
  have "\<exists>k. (\<forall>c \<in># M. fst c + snd c \<le> k) \<and> hi \<le> k"
  proof (induction M)
    case (add c M)
    then obtain k where "\<forall>c \<in># M. fst c + snd c \<le> k" "hi \<le> k" by blast
    then show ?case by (intro exI [of _ "max k (fst c + snd c)"]) auto
  qed auto
  then obtain k where k: "\<forall>c \<in># M. fst c + snd c \<le> k" "hi \<le> k" by blast
  have "sum_mset (image_mset snd M) = (\<Sum>n < k. if lo \<le> n \<and> n < hi then 1 else 0)"
    using fin [OF k(1)] assms(1) by (simp add: tiles_def)
  also have "\<dots> = card {lo..<hi}"
  proof -
    have "{lo..<hi} = {n \<in> {..<k}. lo \<le> n \<and> n < hi}" using k(2) by auto
    then show ?thesis by (simp add: sum.If_cases Int_def)
  qed
  finally show ?thesis by simp
qed

section \<open>The invariant\<close>

definition alloc_cells :: "cell_allocator \<Rightarrow> (nat \<times> nat) multiset" where
  "alloc_cells st = image_mset (\<lambda>(offset, sz). (unat offset, unat sz)) (mset (allocated st))"

definition fcell :: "free_cell \<Rightarrow> nat \<times> nat" where
  "fcell c = (unat (fc_offset c), unat (fc_size c))"

definition free_cells :: "cell_allocator \<Rightarrow> (nat \<times> nat) multiset" where
  "free_cells st = image_mset fcell (mset (concat (free_lists st)))"

definition total_size :: "(nat \<times> nat) multiset \<Rightarrow> nat" where
  "total_size M = sum_mset (image_mset snd M)"

text \<open>
  While an operation is under way some cells are in neither collection and the count of
  free bytes may be ahead; \<open>H\<close> and \<open>e\<close> are those cells and that difference.
\<close>

definition cell_inv :: "(nat \<times> nat) multiset \<Rightarrow> u32 \<Rightarrow> nat \<Rightarrow> cell_allocator \<Rightarrow> bool" where
  "cell_inv H e lo st \<longleftrightarrow>
     length (free_lists st) = FREE_LIST_BUCKETS \<and> distinct (map fst (allocated st))
   \<and> (\<forall>c \<in># alloc_cells st + free_cells st + H. 8 dvd snd c \<and> 0 < snd c)
   \<and> tiles (alloc_cells st + free_cells st + H) lo (unat (next_offset st))
   \<and> lo \<le> unat (next_offset st) \<and> next_offset st \<le> max_size st
   \<and> total_allocated st = of_nat (total_size (alloc_cells st))
   \<and> total_free st = e + of_nat (total_size (free_cells st))"

lemma total_size_add [simp]: "total_size (add_mset c M) = snd c + total_size M" "total_size {#} = 0"
  by (simp_all add: total_size_def)

lemma size_to_bucket_less: "size_to_bucket sz < FREE_LIST_BUCKETS"
  by (auto simp: size_to_bucket_def FREE_LIST_BUCKETS_def min_def)

lemma mset_remove_at: "i < length xs \<Longrightarrow> mset xs = add_mset (xs ! i) (mset (remove_at i xs))"
  by (subst id_take_nth_drop, assumption) (simp add: remove_at_def)

lemma take_cell_Some:
  "take_cell P fs = Some (c, fs') \<Longrightarrow>
     P c \<and> length fs' = length fs \<and> mset (concat fs) = add_mset c (mset (concat fs'))"
proof (induction fs arbitrary: c fs')
  case (Cons b bs)
  show ?case
  proof (cases "find_from P b (length b)")
    case None
    with Cons show ?thesis by (auto split: option.splits)
  next
    case (Some i)
    with Cons.prems find_from_Some [OF Some] mset_remove_at [of i b] show ?thesis by auto
  qed
qed simp

lemma mset_concat_update:
  assumes "b < length fl"
  shows "mset (concat (fl[b := fl ! b @ [c]])) = add_mset c (mset (concat fl))"
proof -
  have "mset (concat fl) = mset (concat (take b fl)) + mset (fl ! b) + mset (concat (drop (Suc b) fl))"
    by (subst id_take_nth_drop [OF assms]) simp
  then show ?thesis using assms by (simp add: upd_conv_take_nth_drop)
qed

lemma hole_bounds:
  assumes "cell_inv (add_mset (a, s1) H) e lo st"
  shows "a + s1 \<le> unat (next_offset st)" "lo \<le> a" "0 < s1" "8 dvd s1" "a + s1 < 2 ^ 32"
proof -
  have t: "tiles (add_mset (a, s1) (alloc_cells st + free_cells st + H)) lo (unat (next_offset st))"
    and c: "0 < s1" "8 dvd s1" using assms by (simp_all add: cell_inv_def)
  from tiles_bounds [OF t c(1)] c unsigned_less [of "next_offset st", where ?'a = nat]
  show "a + s1 \<le> unat (next_offset st)" "lo \<le> a" "0 < s1" "8 dvd s1" "a + s1 < 2 ^ 32" by simp_all
qed

lemma hole_merge:
  "cell_inv (add_mset (a, s1) (add_mset (a + s1, s2) H)) e lo st \<Longrightarrow> cell_inv (add_mset (a, s1 + s2) H) e lo st"
  by (auto simp: cell_inv_def tiles_merge)

lemma hole_split:
  "cell_inv (add_mset (a, s1 + s2) H) e lo st \<Longrightarrow> 0 < s1 \<Longrightarrow> 0 < s2 \<Longrightarrow> 8 dvd s1 \<Longrightarrow>
     cell_inv (add_mset (a, s1) (add_mset (a + s1, s2) H)) e lo st"
  by (auto simp: cell_inv_def tiles_merge dvd_add_right_iff)

text \<open>Taking a cell out of the free lists, with and without counting it.\<close>

lemma remove_free_cell:
  assumes "cell_inv H e lo st" "length fl = length (free_lists st)"
    "mset (concat (free_lists st)) = add_mset c (mset (concat fl))"
  shows "cell_inv (add_mset (fcell c) H) e lo (st\<lparr>free_lists := fl, total_free := total_free st - fc_size c\<rparr>)"
    "cell_inv (add_mset (fcell c) H) (e + fc_size c) lo (st\<lparr>free_lists := fl\<rparr>)"
  using assms by (auto simp: cell_inv_def alloc_cells_def free_cells_def fcell_def)

lemma take_free_cell:
  assumes "cell_inv H e lo st" "take_cell P (free_lists st) = Some (c, fl)"
  shows "cell_inv (add_mset (fcell c) H) e lo (st\<lparr>free_lists := fl, total_free := total_free st - fc_size c\<rparr>)" "P c"
  using take_cell_Some [OF assms(2)] remove_free_cell(1) [OF assms(1)] by simp_all

lemma unat_plus_fits: "unat (a :: u32) + unat b < 2 ^ 32 \<Longrightarrow> unat (a + b) = unat a + unat b"
  by (simp add: unat_word_ariths)

text \<open>The cells that the two merging steps find.\<close>

lemma merge_prev:
  assumes "cell_inv (add_mset (unat offset, unat sz) H) e lo st"
    "take_cell (\<lambda>c. fc_offset c + fc_size c = offset) (free_lists st) = Some (prev, fl)"
  shows "cell_inv (add_mset (unat (fc_offset prev), unat (sz + fc_size prev)) H) e lo
    (st\<lparr>free_lists := fl, total_free := total_free st - fc_size prev\<rparr>)"
proof -
  note t = take_free_cell [OF assms]
  have p: "unat (fc_offset prev) + unat (fc_size prev) = unat offset"
    using t(2) hole_bounds(5) [OF t(1) [unfolded fcell_def]] unat_plus_fits by metis
  have m: "cell_inv (add_mset (unat (fc_offset prev), unat (fc_size prev) + unat sz) H) e lo
      (st\<lparr>free_lists := fl, total_free := total_free st - fc_size prev\<rparr>)"
    using t(1) by (intro hole_merge) (simp add: fcell_def p)
  have "unat (sz + fc_size prev) = unat (fc_size prev) + unat sz"
    using hole_bounds(5) [OF m] unat_plus_fits [of sz "fc_size prev"] by simp
  with m show ?thesis by simp
qed

lemma merge_next:
  assumes "cell_inv (add_mset (unat offset, unat sz) H) e lo st"
    "take_cell (\<lambda>c. fc_offset c = offset + sz) (free_lists st) = Some (nxt, fl)"
  shows "cell_inv (add_mset (unat offset, unat (sz + fc_size nxt)) H) e lo
    (st\<lparr>free_lists := fl, total_free := total_free st - fc_size nxt\<rparr>)"
proof -
  note t = take_free_cell [OF assms]
  have n: "unat (fc_offset nxt) = unat offset + unat sz"
    using t(2) hole_bounds(5) [OF assms(1)] unat_plus_fits by metis
  have m: "cell_inv (add_mset (unat offset, unat sz + unat (fc_size nxt)) H) e lo
      (st\<lparr>free_lists := fl, total_free := total_free st - fc_size nxt\<rparr>)"
    using t(1) by (intro hole_merge) (simp add: fcell_def n add_mset_commute)
  have "unat (sz + fc_size nxt) = unat sz + unat (fc_size nxt)"
    using hole_bounds(5) [OF m] unat_plus_fits [of sz "fc_size nxt"] by simp
  with m show ?thesis by simp
qed

definition same_frame :: "cell_allocator \<Rightarrow> cell_allocator \<Rightarrow> bool" where
  "same_frame st' st \<longleftrightarrow> allocated st' = allocated st \<and> total_allocated st' = total_allocated st
     \<and> next_offset st' = next_offset st \<and> max_size st' = max_size st"

lemma coalesce_inv:
  assumes "cell_inv (add_mset (unat offset, unat sz) H) e lo st" "coalesce_free_cell offset sz st = (c, st')"
  shows "cell_inv (add_mset (fcell c) H) e lo st' \<and> same_frame st' st"
proof -
  obtain o1 s1 st1 where 1: "(case take_cell (\<lambda>c. fc_offset c + fc_size c = offset) (free_lists st) of
               None \<Rightarrow> (offset, sz, st)
             | Some (prev, fl) \<Rightarrow> (fc_offset prev, sz + fc_size prev,
                 st\<lparr>free_lists := fl, total_free := total_free st - fc_size prev\<rparr>)) = (o1, s1, st1)"
    using prod_cases3 by blast
  have i: "cell_inv (add_mset (unat o1, unat s1) H) e lo st1 \<and> same_frame st1 st"
    using 1 merge_prev [OF assms(1)] assms(1) by (auto simp: same_frame_def split: option.splits)
  have "(case take_cell (\<lambda>c. fc_offset c = o1 + s1) (free_lists st1) of
           None \<Rightarrow> (\<lparr>fc_offset = o1, fc_size = s1\<rparr>, st1)
         | Some (nxt, fl) \<Rightarrow> (\<lparr>fc_offset = o1, fc_size = s1 + fc_size nxt\<rparr>,
             st1\<lparr>free_lists := fl, total_free := total_free st1 - fc_size nxt\<rparr>)) = (c, st')"
    using assms(2) by (simp add: coalesce_free_cell_def 1 Let_def)
  with i merge_next [of o1 s1 H e lo st1] show ?thesis
    by (auto simp: same_frame_def fcell_def split: option.splits)
qed

lemma free_cell_internal_inv:
  assumes "cell_inv (add_mset (unat offset, unat sz) H) e lo st"
  shows "cell_inv H e lo (free_cell_internal offset sz st) \<and> same_frame (free_cell_internal offset sz st) st"
proof -
  obtain c st1 where c: "coalesce_free_cell offset sz st = (c, st1)" by (cases "coalesce_free_cell offset sz st")
  note i = coalesce_inv [OF assms c]
  define st2 where "st2 = free_cell_internal offset sz st"
  have s2: "st2 = st1\<lparr>free_lists := (free_lists st1)[size_to_bucket (fc_size c) := free_lists st1 ! size_to_bucket (fc_size c) @ [c]],
         total_free := total_free st1 + fc_size c\<rparr>"
    by (simp add: st2_def free_cell_internal_def c Let_def)
  have "size_to_bucket (fc_size c) < length (free_lists st1)"
    using i size_to_bucket_less [of "fc_size c"] by (simp add: cell_inv_def)
  then have "free_cells st2 = add_mset (fcell c) (free_cells st1)"
    by (simp add: s2 free_cells_def mset_concat_update)
  moreover have "alloc_cells st2 = alloc_cells st1" by (simp add: s2 alloc_cells_def)
  ultimately have "cell_inv H e lo st2"
    using i by (simp add: cell_inv_def s2 fcell_def)
  with i show ?thesis by (simp add: st2_def [symmetric] same_frame_def s2)
qed

section \<open>The operations\<close>

lemma unat_align_up:
  assumes "8 \<le> sz" "sz \<le> MAX_CELL_SIZE"
  shows "unat (align_up sz CELL_ALIGNMENT) = (unat sz + 7) div 8 * 8"
proof -
  have b: "unat sz \<le> 524288" using assms(2) by (simp add: MAX_CELL_SIZE_def word_le_nat_alt)
  have e: "align_up sz CELL_ALIGNMENT = (sz + 7) AND NOT (mask 3)"
    by (simp add: align_up_def CELL_ALIGNMENT_def mask_eq_exp_minus_1 add.commute)
  also have "\<dots> = push_bit 3 (drop_bit 3 (sz + 7))"
    by (rule bit_word_eqI) (auto simp: bit_simps)
  also have "\<dots> = (sz + 7) div 8 * 8" by (simp add: push_bit_eq_mult drop_bit_eq_div)
  finally have "unat (align_up sz CELL_ALIGNMENT) = unat ((sz + 7) div 8 * 8)" by simp
  also have "\<dots> = (unat (sz + 7) div 8 * 8) mod 2 ^ 32" by (simp add: unat_word_ariths unat_div)
  also have "unat (sz + 7) = unat sz + 7" using b by (simp add: unat_word_ariths)
  finally show ?thesis using b by simp
qed

lemma aligned_bounds:
  assumes "8 \<le> sz" "sz \<le> MAX_CELL_SIZE"
  shows "8 dvd unat (align_up sz CELL_ALIGNMENT)" "0 < unat (align_up sz CELL_ALIGNMENT)"
    "unat sz \<le> unat (align_up sz CELL_ALIGNMENT)" "unat (align_up sz CELL_ALIGNMENT) \<le> 524288"
proof -
  have "8 \<le> unat sz" "unat sz \<le> 524288" using assms by (simp_all add: MAX_CELL_SIZE_def word_le_nat_alt)
  then show "8 dvd unat (align_up sz CELL_ALIGNMENT)" "0 < unat (align_up sz CELL_ALIGNMENT)"
    "unat sz \<le> unat (align_up sz CELL_ALIGNMENT)" "unat (align_up sz CELL_ALIGNMENT) \<le> 524288"
    unfolding unat_align_up [OF assms] by auto
qed

lemma update_fresh: "k \<notin> fst ` set al \<Longrightarrow> AList.update k v al = al @ [(k, v)]"
  by (induction al) auto

lemma mset_delete:
  "distinct (map fst al) \<Longrightarrow> map_of al k = Some v \<Longrightarrow> mset al = add_mset (k, v) (mset (AList.delete k al))"
proof (induction al)
  case (Cons p al)
  show ?case
  proof (cases "fst p = k")
    case True
    with Cons.prems have "k \<notin> fst ` set al" by auto
    then have "AList.delete k al = al" by (force simp: AList.delete_eq filter_id_conv)
    with Cons.prems True show ?thesis by (cases p) simp
  next
    case False
    with Cons show ?thesis by (cases p) simp
  qed
qed simp

text \<open>A cell that belongs to nobody becomes an allocated one; its offset is new.\<close>

lemma insert_allocated:
  assumes "cell_inv (add_mset (unat offset, unat sz) H) e lo st"
  shows "cell_inv H e lo (st\<lparr>allocated := AList.update offset sz (allocated st),
      total_allocated := total_allocated st + sz\<rparr>)"
    "AList.update offset sz (allocated st) = allocated st @ [(offset, sz)]"
proof -
  have "offset \<notin> fst ` set (allocated st)"
  proof
    assume "offset \<in> fst ` set (allocated st)"
    then obtain s2 where "(offset, s2) \<in> set (allocated st)" by auto
    then have m: "(unat offset, unat s2) \<in># alloc_cells st" by (force simp: alloc_cells_def)
    then obtain M where M: "alloc_cells st = add_mset (unat offset, unat s2) M" by (metis multi_member_split)
    have "tiles (add_mset (unat offset, unat sz) (add_mset (unat offset, unat s2) (M + free_cells st + H)))
        lo (unat (next_offset st))" using assms by (simp add: cell_inv_def M add_mset_commute)
    moreover have "\<forall>c \<in># alloc_cells st. 0 < snd c" "0 < unat sz" using assms by (auto simp: cell_inv_def)
    from this(2) bspec [OF this(1) m] have "0 < unat sz" "0 < unat s2" by simp_all
    ultimately show False using tiles_disjoint by fastforce
  qed
  then show u: "AList.update offset sz (allocated st) = allocated st @ [(offset, sz)]" by (rule update_fresh)
  have "alloc_cells (st\<lparr>allocated := allocated st @ [(offset, sz)], total_allocated := total_allocated st + sz\<rparr>)
      = add_mset (unat offset, unat sz) (alloc_cells st)" by (simp add: alloc_cells_def)
  with \<open>offset \<notin> fst ` set (allocated st)\<close> assms
  show "cell_inv H e lo (st\<lparr>allocated := AList.update offset sz (allocated st),
      total_allocated := total_allocated st + sz\<rparr>)"
    by (simp add: cell_inv_def u free_cells_def)
qed

lemma remove_allocated:
  assumes "cell_inv H e lo st" "map_of (allocated st) offset = Some sz"
  shows "cell_inv (add_mset (unat offset, unat sz) H) e lo
    (st\<lparr>allocated := AList.delete offset (allocated st), total_allocated := total_allocated st - sz\<rparr>)"
proof -
  let ?st = "st\<lparr>allocated := AList.delete offset (allocated st), total_allocated := total_allocated st - sz\<rparr>"
  have "mset (allocated st) = add_mset (offset, sz) (mset (AList.delete offset (allocated st)))"
    using assms by (intro mset_delete) (simp_all add: cell_inv_def)
  moreover define A where "A = alloc_cells ?st"
  ultimately have a: "alloc_cells st = add_mset (unat offset, unat sz) A" by (simp add: alloc_cells_def)
  have "free_cells ?st = free_cells st" by (simp add: free_cells_def)
  moreover have "distinct (map fst (AList.delete offset (allocated st)))"
    using assms(1) by (simp add: cell_inv_def AList.distinct_delete)
  ultimately show ?thesis
    using assms(1) unfolding cell_inv_def A_def [symmetric] a by simp
qed

lemma settle_count: "cell_inv H e lo st \<Longrightarrow> cell_inv H 0 lo (st\<lparr>total_free := total_free st - e\<rparr>)"
  by (simp add: cell_inv_def alloc_cells_def free_cells_def)

text \<open>The part of a free cell that is not needed goes back.\<close>

definition give_back :: "free_cell \<Rightarrow> u32 \<Rightarrow> cell_allocator \<Rightarrow> cell_allocator" where
  "give_back c al st = (if MIN_CELL_SIZE \<le> fc_size c - al
     then free_cell_internal (fc_offset c + al) (fc_size c - al) st else st)"

lemma give_back_inv:
  assumes "cell_inv (add_mset (fcell c) H) e lo st" "al \<le> fc_size c" "8 dvd unat al" "0 < unat al"
  shows "cell_inv (add_mset (unat (fc_offset c), unat al) H) e lo (give_back c al st) \<and> same_frame (give_back c al st) st"
proof -
  note b = hole_bounds [OF assms(1) [unfolded fcell_def]]
  have rem: "unat (fc_size c - al) = unat (fc_size c) - unat al" using assms(2) by (simp add: unat_sub)
  have le: "unat al \<le> unat (fc_size c)" using assms(2) by (simp add: word_le_nat_alt)
  show ?thesis
  proof (cases "MIN_CELL_SIZE \<le> fc_size c - al")
    case True
    then have pos: "0 < unat (fc_size c - al)" by (simp add: MIN_CELL_SIZE_def word_le_nat_alt)
    have off: "unat (fc_offset c + al) = unat (fc_offset c) + unat al"
      using b(5) le by (intro unat_plus_fits) simp
    have "cell_inv (add_mset (unat (fc_offset c), unat al + unat (fc_size c - al)) H) e lo st"
      using assms(1) le rem by (simp add: fcell_def)
    from hole_split [OF this assms(4) pos assms(3)]
    have "cell_inv (add_mset (unat (fc_offset c + al), unat (fc_size c - al)) (add_mset (unat (fc_offset c), unat al) H)) e lo st"
      by (simp add: off add_mset_commute)
    from free_cell_internal_inv [OF this] True show ?thesis by (simp add: give_back_def)
  next
    case False
    then have "unat (fc_size c) - unat al < 8" using rem by (simp add: MIN_CELL_SIZE_def word_le_nat_alt)
    moreover have "8 dvd unat (fc_size c) - unat al" using b(4) assms(3) by (rule dvd_diff_nat)
    ultimately have "unat (fc_size c) - unat al = 0" by (auto dest: dvd_imp_le)
    with le False assms(1) show ?thesis by (simp add: give_back_def same_frame_def fcell_def)
  qed
qed

lemma cell_allocate_reuse:
  assumes "8 \<le> sz" "sz \<le> MAX_CELL_SIZE" "al = align_up sz CELL_ALIGNMENT"
    "take_cell (\<lambda>c. al \<le> fc_size c) (drop (size_to_bucket al) (free_lists st)) = Some (c, fl)"
    "st2 = give_back c al (st\<lparr>free_lists := take (size_to_bucket al) (free_lists st) @ fl\<rparr>)"
  shows "cell_allocate sz st = (Inr (fc_offset c), st2\<lparr>allocated := AList.update (fc_offset c) al (allocated st2),
     total_allocated := total_allocated st2 + al, total_free := total_free st2 - fc_size c\<rparr>)"
  using assms by (simp add: cell_allocate_def MIN_CELL_SIZE_def not_less Let_def give_back_def)

lemma cell_allocate_inv:
  assumes "cell_inv {#} 0 lo st" "unat (max_size st) + 524288 < 2 ^ 32" "cell_allocate sz st = (Inr offset, st')"
  shows "cell_inv {#} 0 lo st' \<and> allocated st' = allocated st @ [(offset, align_up sz CELL_ALIGNMENT)]
    \<and> max_size st' = max_size st"
proof -
  define al where "al = align_up sz CELL_ALIGNMENT"
  have r: "8 \<le> sz" "sz \<le> MAX_CELL_SIZE"
    using assms(3) by (auto simp: cell_allocate_def MIN_CELL_SIZE_def not_less split: if_splits)
  note ab = aligned_bounds [OF r, folded al_def]
  show ?thesis
  proof (cases "take_cell (\<lambda>c. al \<le> fc_size c) (drop (size_to_bucket al) (free_lists st))")
    case None
    have "next_offset st \<le> max_size st" using assms(1) by (simp add: cell_inv_def)
    then have n: "unat (next_offset st + al) = unat (next_offset st) + unat al"
      using assms(2) ab(4) by (intro unat_plus_fits) (simp add: word_le_nat_alt)
    from None r assms(3) have st': "offset = next_offset st" "next_offset st + al \<le> max_size st"
      "st' = st\<lparr>next_offset := next_offset st + al, allocated := AList.update offset al (allocated st),
          total_allocated := total_allocated st + al\<rparr>"
      by (auto simp: cell_allocate_def MIN_CELL_SIZE_def al_def [symmetric] Let_def not_less split: if_splits)
    let ?st = "st\<lparr>next_offset := next_offset st + al\<rparr>"
    have "cell_inv (add_mset (unat (next_offset st), unat al) {#}) 0 lo ?st"
      using assms(1) st'(2) ab(1,2) tiles_extend [of "alloc_cells st + free_cells st" lo "unat (next_offset st)" "unat al"]
      by (auto simp: cell_inv_def alloc_cells_def free_cells_def n)
    from insert_allocated [OF this] show ?thesis
      unfolding al_def [symmetric] st' by (simp add: cell_inv_def alloc_cells_def free_cells_def)
  next
    case (Some p)
    then obtain c fl where p: "take_cell (\<lambda>c. al \<le> fc_size c) (drop (size_to_bucket al) (free_lists st)) = Some (c, fl)"
      by (cases p) auto
    note t = take_cell_Some [OF p]
    let ?fl = "take (size_to_bucket al) (free_lists st) @ fl"
    have lf: "length ?fl = length (free_lists st)" using t by simp
    have "mset (concat (free_lists st)) = mset (concat (take (size_to_bucket al) (free_lists st)))
        + mset (concat (drop (size_to_bucket al) (free_lists st)))"
      by (metis append_take_drop_id concat_append mset_append)
    with t have "mset (concat (free_lists st)) = add_mset c (mset (concat ?fl))" by simp
    from remove_free_cell(2) [OF assms(1) lf this] t
    have i1: "cell_inv (add_mset (fcell c) {#}) (fc_size c) lo (st\<lparr>free_lists := ?fl\<rparr>)" "al \<le> fc_size c" by simp_all
    define st2 where "st2 = give_back c al (st\<lparr>free_lists := ?fl\<rparr>)"
    have i2: "cell_inv (add_mset (unat (fc_offset c), unat al) {#}) (fc_size c) lo st2" "same_frame st2 st"
      using give_back_inv [OF i1 ab(1,2)] by (simp_all add: st2_def same_frame_def)
    have "offset = fc_offset c" "st' = st2\<lparr>allocated := AList.update (fc_offset c) al (allocated st2),
     total_allocated := total_allocated st2 + al, total_free := total_free st2 - fc_size c\<rparr>"
      using assms(3) unfolding cell_allocate_reuse [OF r al_def p st2_def] by auto
    with settle_count [OF insert_allocated(1) [OF i2(1)]] insert_allocated(2) [OF i2(1)] i2(2) show ?thesis
      by (simp add: al_def [symmetric] same_frame_def)
  qed
qed

lemma cell_free_inv:
  assumes "cell_inv {#} 0 lo st" "cell_free offset st = (r, st')"
  shows "case r of Inl e \<Rightarrow> st' = st \<and> map_of (allocated st) offset = None
    | Inr _ \<Rightarrow> cell_inv {#} 0 lo st' \<and> allocated st' = AList.delete offset (allocated st)
        \<and> map_of (allocated st) offset \<noteq> None \<and> max_size st' = max_size st"
proof (cases "map_of (allocated st) offset")
  case None
  with assms(2) show ?thesis by (auto simp: cell_free_def)
next
  case (Some sz)
  from free_cell_internal_inv [OF remove_allocated [OF assms(1) Some]] assms(2) Some show ?thesis
    by (auto simp: cell_free_def same_frame_def)
qed

section \<open>What the invariant gives\<close>

text \<open>Two allocated cells do not overlap, and every one lies in the hive.\<close>

lemma allocated_apart:
  assumes "cell_inv H e lo st" "(o1, s1) \<in> set (allocated st)" "(o2, s2) \<in> set (allocated st)" "o1 \<noteq> o2"
  shows "unat o1 + unat s1 \<le> unat o2 \<or> unat o2 + unat s2 \<le> unat o1"
proof -
  let ?a = "(unat o1, unat s1)" and ?b = "(unat o2, unat s2)"
  have m: "?a \<in># alloc_cells st" "?b \<in># alloc_cells st" using assms(2,3) by (force simp: alloc_cells_def)+
  moreover have "?a \<noteq> ?b" using assms(4) by (simp add: word_unat_eq_iff)
  ultimately obtain M where "alloc_cells st = add_mset ?a (add_mset ?b M)"
    by (metis insert_noteq_member multi_member_split)
  then have "tiles (add_mset ?a (add_mset ?b (M + free_cells st + H))) lo (unat (next_offset st))"
    using assms(1) by (simp add: cell_inv_def)
  moreover have "\<forall>c \<in># alloc_cells st. 0 < snd c" using assms(1) by (auto simp: cell_inv_def)
  from bspec [OF this m(1)] bspec [OF this m(2)] have "0 < unat s1" "0 < unat s2" by simp_all
  ultimately show ?thesis by (rule tiles_disjoint)
qed

lemma allocated_inside:
  assumes "cell_inv H e lo st" "(o1, s1) \<in> set (allocated st)"
  shows "lo \<le> unat o1 \<and> unat o1 + unat s1 \<le> unat (max_size st)"
proof -
  have m: "(unat o1, unat s1) \<in># alloc_cells st" using assms(2) by (force simp: alloc_cells_def)
  have "\<forall>c \<in># alloc_cells st. 0 < snd c" using assms(1) by (auto simp: cell_inv_def)
  from bspec [OF this m] have "lo \<le> unat o1 \<and> unat o1 + unat s1 \<le> unat (next_offset st)"
    using assms(1) m by (intro tiles_member_bounds [of "alloc_cells st + free_cells st + H"]) (auto simp: cell_inv_def)
  moreover have "unat (next_offset st) \<le> unat (max_size st)" using assms(1) by (simp add: cell_inv_def word_le_nat_alt)
  ultimately show ?thesis by simp
qed

lemma cell_validate_ok:
  assumes "cell_inv H e lo st"
  shows "cell_validate st = Inr ()"
proof -
  define xs where "xs = sort_key fst (allocated st)"
  have "mset (map fst xs) = mset (map fst (allocated st))" by (simp add: xs_def)
  from mset_eq_imp_distinct_iff [OF this] have "distinct (map fst xs)" using assms by (simp add: cell_inv_def)
  then have s: "sorted (map fst xs)" "distinct (map fst xs)" "set xs = set (allocated st)"
    by (simp_all add: xs_def)
  have "fst (xs ! i) + snd (xs ! i) \<le> fst (xs ! (i + 1))" if i: "i < length xs - 1" for i
  proof -
    obtain o1 s1 o2 s2 where p: "xs ! i = (o1, s1)" "xs ! (i + 1) = (o2, s2)" by fastforce
    have mem: "(o1, s1) \<in> set (allocated st)" "(o2, s2) \<in> set (allocated st)"
      using i p s(3) by (metis less_diff_conv nth_mem add_lessD1)+
    have "o1 \<le> o2" using sorted_nth_mono [OF s(1), of i "i + 1"] i p by simp
    moreover have "o1 \<noteq> o2" using nth_eq_iff_index_eq [OF s(2), of i "i + 1"] i p by simp
    ultimately have "unat o1 + unat s1 \<le> unat o2"
      using allocated_apart [OF assms mem] by (auto simp: word_le_nat_alt word_unat_eq_iff)
    moreover from this have "unat (o1 + s1) = unat o1 + unat s1"
      using unsigned_less [of o2, where ?'a = nat] by (intro unat_plus_fits) simp
    ultimately show ?thesis unfolding p by (simp add: word_le_nat_alt)
  qed
  then show ?thesis by (auto simp: cell_validate_def xs_def [symmetric] Let_def not_less [symmetric])
qed

text \<open>The counters hold the sizes of the two collections, and together they fill the hive.\<close>

lemma cell_totals:
  assumes "cell_inv {#} 0 lo st"
  shows "unat (total_allocated st) + unat (total_free st) = unat (next_offset st) - lo"
    "unat (total_allocated st) = (\<Sum>c \<leftarrow> allocated st. unat (snd c))"
proof -
  have t: "total_size (alloc_cells st + free_cells st) = unat (next_offset st) - lo"
    unfolding total_size_def using assms by (intro tiles_total) (simp_all add: cell_inv_def)
  have "total_size (alloc_cells st + free_cells st) = total_size (alloc_cells st) + total_size (free_cells st)"
    by (simp add: total_size_def)
  with t unsigned_less [of "next_offset st", where ?'a = nat]
  have "total_size (alloc_cells st) < 2 ^ 32" "total_size (free_cells st) < 2 ^ 32"
    and s: "total_size (alloc_cells st) + total_size (free_cells st) = unat (next_offset st) - lo" by simp_all
  then have "unat (total_allocated st) = total_size (alloc_cells st)" "unat (total_free st) = total_size (free_cells st)"
    using assms by (simp_all add: cell_inv_def unsigned_of_nat take_bit_nat_eq_self)
  with s show "unat (total_allocated st) + unat (total_free st) = unat (next_offset st) - lo" by simp
  show "unat (total_allocated st) = (\<Sum>c \<leftarrow> allocated st. unat (snd c))"
    using \<open>unat (total_allocated st) = total_size (alloc_cells st)\<close>
    by (simp add: total_size_def alloc_cells_def sum_mset_sum_list [symmetric] multiset.map_comp comp_def split_beta)
qed

lemma cell_new_inv:
  assumes "initial_size \<le> maximum"
  shows "cell_inv {#} 0 (unat initial_size) (cell_allocator_new initial_size maximum)"
proof -
  have "tiles {#} (unat initial_size) (unat initial_size)" by (simp add: tiles_def)
  then show ?thesis
    using assms by (simp add: cell_inv_def cell_allocator_new_def alloc_cells_def free_cells_def FREE_LIST_BUCKETS_def)
qed

text \<open>Every sequence of allocations and releases.\<close>

inductive cell_run :: "u32 \<Rightarrow> u32 \<Rightarrow> cell_allocator \<Rightarrow> bool" for initial_size maximum where
  start: "cell_run initial_size maximum (cell_allocator_new initial_size maximum)"
| allocate: "cell_run initial_size maximum st \<Longrightarrow> cell_allocate sz st = (r, st') \<Longrightarrow> cell_run initial_size maximum st'"
| release: "cell_run initial_size maximum st \<Longrightarrow> cell_free offset st = (r, st') \<Longrightarrow> cell_run initial_size maximum st'"

lemma cell_allocate_Inl: "cell_allocate sz st = (Inl e, st') \<Longrightarrow> st' = st"
  by (auto simp: cell_allocate_def Let_def split: if_splits option.splits prod.splits)

lemma cell_run_inv:
  assumes "cell_run initial_size maximum st" "initial_size \<le> maximum" "unat maximum + 524288 < 2 ^ 32"
  shows "cell_inv {#} 0 (unat initial_size) st \<and> max_size st = maximum"
  using assms
proof (induction rule: cell_run.induct)
  case start
  then show ?case by (simp add: cell_new_inv) (simp add: cell_allocator_new_def)
next
  case (allocate st sz r st')
  then show ?case
    using cell_allocate_inv [of "unat initial_size" st sz _ st'] cell_allocate_Inl [of sz st _ st'] by (cases r) auto
next
  case (release st offset r st')
  then show ?case using cell_free_inv [of "unat initial_size" st offset r st'] by (cases r) auto
qed

section \<open>Properties\<close>

text \<open>
  C6: After every sequence of allocations and releases the allocated and free cells tile
  the hive up to the frontier: allocated cells lie inside the hive and do not overlap,
  the two byte counters add up to the space behind the frontier, and the self check
  passes.  The size of the hive must leave room for one largest cell below \<open>2 ^ 32\<close>.
\<close>

theorem hive_cells_tile:
  assumes "cell_run initial_size maximum st" "initial_size \<le> maximum" "unat maximum + 524288 < 2 ^ 32"
  shows "(\<forall>(o1, s1) \<in> set (allocated st). initial_size \<le> o1 \<and> unat o1 + unat s1 \<le> unat maximum
      \<and> (\<forall>(o2, s2) \<in> set (allocated st). o1 = o2 \<or> unat o1 + unat s1 \<le> unat o2 \<or> unat o2 + unat s2 \<le> unat o1))
    \<and> unat (total_allocated st) + unat (total_free st) = unat (next_offset st) - unat initial_size
    \<and> cell_validate st = Inr ()"
proof -
  have i: "cell_inv {#} 0 (unat initial_size) st" "max_size st = maximum" using cell_run_inv [OF assms] by simp_all
  have "o1 = o2 \<or> unat o1 + unat s1 \<le> unat o2 \<or> unat o2 + unat s2 \<le> unat o1"
    if "(o1, s1) \<in> set (allocated st)" "(o2, s2) \<in> set (allocated st)" for o1 s1 o2 s2
    using allocated_apart [OF i(1) that] by blast
  moreover have "initial_size \<le> o1 \<and> unat o1 + unat s1 \<le> unat maximum" if "(o1, s1) \<in> set (allocated st)" for o1 s1
    using allocated_inside [OF i(1) that] by (simp add: i(2) word_le_nat_alt)
  ultimately show ?thesis
    using cell_totals(1) [OF i(1)] cell_validate_ok [OF i(1)] by (simp add: split_beta) (metis prod.collapse)
qed

theorem hive_cells_tile_witness:
  "cell_validate (snd (cell_free 4096 (snd (cell_allocate 128 (snd (cell_allocate 64 (cell_allocator_new 4096 0x100000)))))))
     = Inr ()"
proof -
  let ?s1 = "snd (cell_allocate 64 (cell_allocator_new 4096 0x100000))"
  let ?s2 = "snd (cell_allocate 128 ?s1)"
  have r: "cell_run 4096 0x100000 (snd (cell_free 4096 ?s2))"
    by (rule cell_run.release [OF cell_run.allocate [OF cell_run.allocate [OF cell_run.start]]]) (rule prod.collapse [symmetric])+
  show ?thesis using hive_cells_tile [OF r] by simp
qed

text \<open>
  A successful allocation adds one cell, of the requested size rounded up to the
  alignment, and a release removes exactly the cell at its offset, succeeding when there
  is one; a refused operation changes nothing.
\<close>

theorem cell_operations:
  assumes "cell_run initial_size maximum st" "initial_size \<le> maximum" "unat maximum + 524288 < 2 ^ 32"
  shows "(case cell_allocate sz st of
      (Inr offset, st') \<Rightarrow> allocated st' = allocated st @ [(offset, align_up sz CELL_ALIGNMENT)]
        \<and> offset \<notin> fst ` set (allocated st)
    | (Inl e, st') \<Rightarrow> st' = st)
    \<and> (case cell_free offset st of
      (Inr _, st') \<Rightarrow> map_of (allocated st) offset \<noteq> None \<and> allocated st' = AList.delete offset (allocated st)
    | (Inl e, st') \<Rightarrow> map_of (allocated st) offset = None \<and> st' = st)"
proof -
  have i: "cell_inv {#} 0 (unat initial_size) st" "max_size st = maximum" using cell_run_inv [OF assms] by simp_all
  obtain r st' where a: "cell_allocate sz st = (r, st')" by (cases "cell_allocate sz st")
  obtain q st2 where f: "cell_free offset st = (q, st2)" by (cases "cell_free offset st")
  have "case r of Inl e \<Rightarrow> st' = st | Inr o1 \<Rightarrow> allocated st' = allocated st @ [(o1, align_up sz CELL_ALIGNMENT)]
        \<and> o1 \<notin> fst ` set (allocated st)"
  proof (cases r)
    case (Inr o1)
    with a i assms(3) cell_allocate_inv [OF i(1), of sz o1 st']
    have "cell_inv {#} 0 (unat initial_size) st'" "allocated st' = allocated st @ [(o1, align_up sz CELL_ALIGNMENT)]"
      by simp_all
    then show ?thesis using Inr by (auto simp: cell_inv_def)
  qed (use cell_allocate_Inl [of sz st _ st'] a in simp)
  then show ?thesis using cell_free_inv [OF i(1) f] by (auto simp: a f split: sum.splits)
qed

theorem cell_operations_witness:
  "case cell_allocate 64 (cell_allocator_new 4096 0x100000) of
      (Inr offset, st') \<Rightarrow> allocated st' = [(offset, align_up 64 CELL_ALIGNMENT)] | (Inl e, st') \<Rightarrow> False"
proof -
  have "allocated (cell_allocator_new 4096 0x100000) = []" by (simp add: cell_allocator_new_def)
  moreover have "isl (fst (cell_allocate 64 (cell_allocator_new 4096 0x100000))) = False" by code_simp
  moreover have r: "cell_run 4096 0x100000 (cell_allocator_new 4096 0x100000)" by (rule cell_run.start)
  ultimately show ?thesis
    using cell_operations [OF r, where sz = 64] by (auto split: prod.splits sum.splits)
qed

text \<open>
  The bound on the size of the hive is needed: in a new hive whose start is within one
  cell of \<open>2 ^ 32\<close>, an allocation of such a cell succeeds although the cell ends behind the
  hive, and the frontier wraps around to a place before the start of the hive.
\<close>

theorem frontier_wraps:
  assumes "initial_size \<le> maximum" "MIN_CELL_SIZE \<le> sz" "sz \<le> MAX_CELL_SIZE"
    "2 ^ 32 \<le> unat initial_size + unat (align_up sz CELL_ALIGNMENT)"
  shows "\<exists>st. cell_allocate sz (cell_allocator_new initial_size maximum) = (Inr initial_size, st)
    \<and> unat maximum < unat initial_size + unat (align_up sz CELL_ALIGNMENT) \<and> next_offset st < initial_size"
proof -
  let ?a = "align_up sz CELL_ALIGNMENT"
  have l: "unat initial_size < 2 ^ 32" "unat ?a < 2 ^ 32" "unat maximum < 2 ^ 32"
    using unsigned_less [of initial_size] unsigned_less [of ?a] unsigned_less [of maximum] by simp_all
  have "unat (initial_size + ?a) = (unat initial_size + unat ?a) mod 2 ^ 32" by (simp add: unat_word_ariths)
  also have "\<dots> = (unat initial_size + unat ?a - 2 ^ 32) mod 2 ^ 32" by (rule le_mod_geq [OF assms(4)])
  also have "\<dots> = unat initial_size + unat ?a - 2 ^ 32" using l by (intro mod_less) linarith
  finally have less: "initial_size + ?a < initial_size"
    unfolding word_less_nat_alt using assms(4) l by linarith
  then have ok: "\<not> maximum < initial_size + ?a" "\<not> sz < MIN_CELL_SIZE" "\<not> MAX_CELL_SIZE < sz"
    using assms(1-3) by auto
  have none: "take_cell P (replicate n []) = None" for P n by (induction n) (simp_all add: find_from_def)
  have "cell_allocate sz (cell_allocator_new initial_size maximum) =
      (Inr initial_size, (cell_allocator_new initial_size maximum)\<lparr>next_offset := initial_size + ?a,
         allocated := [(initial_size, ?a)], total_allocated := ?a\<rparr>)"
    using ok by (simp add: cell_allocate_def cell_allocator_new_def Let_def none)
  moreover have "unat maximum < unat initial_size + unat ?a" using l(3) assms(4) by linarith
  ultimately show ?thesis using less by simp
qed

theorem frontier_wraps_witness:
  "\<exists>st. cell_allocate 64 (cell_allocator_new 0xFFFFFFC0 0xFFFFFFFF) = (Inr 0xFFFFFFC0, st) \<and> next_offset st < 0xFFFFFFC0"
proof -
  have "align_up 64 CELL_ALIGNMENT = 64" by code_simp
  then have "(0xFFFFFFC0 :: u32) \<le> 0xFFFFFFFF" "MIN_CELL_SIZE \<le> 64" "64 \<le> MAX_CELL_SIZE"
    "2 ^ 32 \<le> unat (0xFFFFFFC0 :: u32) + unat (align_up 64 CELL_ALIGNMENT)"
    by (simp_all add: MIN_CELL_SIZE_def MAX_CELL_SIZE_def)
  from frontier_wraps [OF this] show ?thesis by blast
qed

text \<open>
  The size classes are not monotone: cells of 513 bytes and more start again at the
  first bucket, so a request of 400 bytes never sees a free cell of 600 bytes and takes
  new space instead.
\<close>

theorem buckets_not_monotone:
  "let st1 = snd (cell_allocate 600 (cell_allocator_new 4096 0x100000));
       st2 = snd (cell_free 4096 st1)
   in total_free st2 = 600 \<and> fst (cell_allocate 400 st2) = Inr 4696"
  by code_simp

end
