(* ===== verification/Rust_Map.thy ===== *)
theory Rust_Map
  imports Nt_Prelude
begin

text \<open>
  The ordered map of the Rust library as the sources use it: a list of pairs in the
  ascending order of the keys, so that iteration has the order of the source.
  Clients that only insert, remove and look up rely on the laws of the locale
  \<open>lookup_map\<close>, which the list implements.
\<close>

fun bt_insert :: "'k :: linorder \<Rightarrow> 'v \<Rightarrow> ('k \<times> 'v) list \<Rightarrow> ('k \<times> 'v) list" where
  "bt_insert k v [] = [(k, v)]"
| "bt_insert k v ((k', v') # m) =
     (if k < k' then (k, v) # (k', v') # m
      else if k = k' then (k, v) # m
      else (k', v') # bt_insert k v m)"

definition bt_remove :: "'k \<Rightarrow> ('k \<times> 'v) list \<Rightarrow> ('k \<times> 'v) list" where
  "bt_remove k m = filter (\<lambda>p. fst p \<noteq> k) m"

definition bt_ok :: "('k :: linorder \<times> 'v) list \<Rightarrow> bool" where
  "bt_ok m = sorted_wrt (<) (map fst m)"

text \<open>What a client of a map relies on.\<close>

locale lookup_map =
  fixes ok :: "'m \<Rightarrow> bool" and get :: "'m \<Rightarrow> 'k \<Rightarrow> 'v option"
    and insert :: "'k \<Rightarrow> 'v \<Rightarrow> 'm \<Rightarrow> 'm" and remove :: "'k \<Rightarrow> 'm \<Rightarrow> 'm"
  assumes ok_insert: "ok m \<Longrightarrow> ok (insert k v m)"
    and ok_remove: "ok m \<Longrightarrow> ok (remove k m)"
    and get_insert: "ok m \<Longrightarrow> get (insert k v m) = (get m)(k \<mapsto> v)"
    and get_remove: "ok m \<Longrightarrow> get (remove k m) = (get m)(k := None)"
begin

lemma insert_remove: "ok m \<Longrightarrow> get m k = None \<Longrightarrow> get (remove k (insert k v m)) = get m"
  by (simp add: ok_insert get_insert get_remove fun_upd_idem)

lemma insert_other: "ok m \<Longrightarrow> k' \<noteq> k \<Longrightarrow> get (insert k v m) k' = get m k'"
  by (simp add: get_insert)

lemma ok_fold_remove: "ok m \<Longrightarrow> ok (fold remove ks m)"
  by (induction ks arbitrary: m) (simp_all add: ok_remove)

lemma get_fold_remove: "ok m \<Longrightarrow> get (fold remove ks m) k = (if k \<in> set ks then None else get m k)"
  by (induction ks arbitrary: m) (simp_all add: ok_remove get_remove)

end

lemma set_bt_insert: "fst ` set (bt_insert k v m) = {k} \<union> fst ` set m"
  by (induction k v m rule: bt_insert.induct) auto

lemma bt_ok_insert: "bt_ok m \<Longrightarrow> bt_ok (bt_insert k v m)"
proof (induction k v m rule: bt_insert.induct)
  case (2 k v k' v' m)
  then show ?case
    using set_bt_insert [of k v m] by (fastforce simp: bt_ok_def image_iff)
qed (simp add: bt_ok_def)

lemma bt_ok_remove: "bt_ok m \<Longrightarrow> bt_ok (bt_remove k m)"
  by (induction m) (auto simp: bt_ok_def bt_remove_def)

lemma bt_get_insert: "bt_ok m \<Longrightarrow> map_of (bt_insert k v m) = (map_of m)(k \<mapsto> v)"
  by (induction k v m rule: bt_insert.induct) (auto simp: bt_ok_def fun_eq_iff)

lemma bt_get_remove: "map_of (bt_remove k m) = (map_of m)(k := None)"
  by (induction m) (auto simp: bt_remove_def fun_eq_iff)

lemma bt_remove_none: "map_of m k = None \<Longrightarrow> bt_remove k m = m"
  by (auto simp: bt_remove_def map_of_eq_None_iff intro!: filter_True)

lemma bt_insert_insert: "bt_ok m \<Longrightarrow> bt_insert k v (bt_insert k v' m) = bt_insert k v m"
  by (induction k v' m rule: bt_insert.induct) (auto simp: bt_ok_def)

lemma bt_remove_insert: "map_of m k = None \<Longrightarrow> bt_remove k (bt_insert k v m) = m"
  by (induction k v m rule: bt_insert.induct)
    (auto simp: bt_remove_def map_of_eq_None_iff image_iff split: if_splits intro!: filter_True)

lemma length_bt_insert: "map_of m k = None \<Longrightarrow> length (bt_insert k v m) = Suc (length m)"
  by (induction k v m rule: bt_insert.induct) (auto split: if_splits)

lemma in_set_bt_insert: "bt_ok m \<Longrightarrow> x \<in> set (bt_insert k v m) \<longleftrightarrow> x = (k, v) \<or> x \<in> set m \<and> fst x \<noteq> k"
  by (induction k v m rule: bt_insert.induct) (auto simp: bt_ok_def)

interpretation bt: lookup_map bt_ok map_of bt_insert bt_remove
  by unfold_locales (simp_all add: bt_ok_insert bt_ok_remove bt_get_insert bt_get_remove)

lemma bt_distinct: "bt_ok m \<Longrightarrow> distinct (map fst m)"
  by (simp add: bt_ok_def strict_sorted_iff)

lemma bt_in_set: "bt_ok m \<Longrightarrow> (k, v) \<in> set m \<longleftrightarrow> map_of m k = Some v"
  by (metis bt_distinct map_of_eq_Some_iff)

end
