(* ===== verification/File_Lock.thy ===== *)
theory File_Lock
  imports Rust_Map
begin

text \<open>
  File locking, \<^verbatim>\<open>fs/locking.rs\<close>: byte-range locks and opportunistic locks, with the
  counter their keys come from.  The invariant is that no two granted byte-range locks
  conflict; it gives mutual exclusion for every byte of a file.
\<close>

section \<open>Locks\<close>

datatype lock_type = Shared | Exclusive

datatype oplock_level =
    OpNone | Level1 | Level2 | Batch | OpFilter | OpRead | ReadHandle | ReadWrite | ReadWriteHandle

record byte_range_lock =
  lk_file_id :: u64
  lk_process_id :: u32
  lk_offset :: u64
  lk_length :: u64
  lk_type :: lock_type
  lk_mandatory :: bool
  lk_key :: u64

definition overlaps :: "byte_range_lock \<Rightarrow> byte_range_lock \<Rightarrow> bool" where
  "overlaps a b =
     (let self_end = sat_add (lk_offset a) (lk_length a); other_end = sat_add (lk_offset b) (lk_length b)
      in \<not> (other_end \<le> lk_offset a \<or> self_end \<le> lk_offset b))"

definition conflicts_with :: "byte_range_lock \<Rightarrow> byte_range_lock \<Rightarrow> bool" where
  "conflicts_with a b =
     (if lk_process_id a = lk_process_id b then False
      else if \<not> overlaps a b then False
      else if lk_type a = Shared \<and> lk_type b = Shared then False
      else True)"

definition covers :: "byte_range_lock \<Rightarrow> u64 \<Rightarrow> u64 \<Rightarrow> bool" where
  "covers l offset len =
     (let range_end = sat_add offset len; lock_end = sat_add (lk_offset l) (lk_length l)
      in lk_offset l \<le> offset \<and> range_end \<le> lock_end)"

record opportunistic_lock =
  op_file_id :: u64
  op_process_id :: u32
  op_level :: oplock_level
  op_breaking :: bool
  op_key :: u64

definition blocks_access :: "opportunistic_lock \<Rightarrow> bool \<Rightarrow> bool" where
  "blocks_access l for_write =
     (if op_breaking l then True
      else case op_level l of
        Level1 \<Rightarrow> True | Batch \<Rightarrow> True | ReadWrite \<Rightarrow> True | ReadWriteHandle \<Rightarrow> True
      | Level2 \<Rightarrow> for_write | OpRead \<Rightarrow> for_write | ReadHandle \<Rightarrow> for_write
      | OpFilter \<Rightarrow> False | OpNone \<Rightarrow> False)"

definition needs_break :: "opportunistic_lock \<Rightarrow> bool \<Rightarrow> bool" where
  "needs_break l for_write = (case op_level l of
      Level1 \<Rightarrow> True | Batch \<Rightarrow> True | ReadWrite \<Rightarrow> True | ReadWriteHandle \<Rightarrow> True
    | Level2 \<Rightarrow> for_write | OpRead \<Rightarrow> for_write | ReadHandle \<Rightarrow> for_write
    | _ \<Rightarrow> False)"

section \<open>The lock manager\<close>

text \<open>The key counter is a static of the source; it survives a new initialisation.\<close>

record lock_manager =
  lm_locks :: "byte_range_lock list"
  lm_oplocks :: "(u64 \<times> opportunistic_lock) list"
  lm_locks_granted :: u64
  lm_locks_denied :: u64
  lm_oplocks_granted :: u64
  lm_oplocks_broken :: u64
  lm_next_key :: u64

definition lock_manager_new :: "u64 \<Rightarrow> lock_manager" where
  "lock_manager_new next_key = \<lparr>lm_locks = [], lm_oplocks = [], lm_locks_granted = 0, lm_locks_denied = 0,
     lm_oplocks_granted = 0, lm_oplocks_broken = 0, lm_next_key = next_key\<rparr>"

definition generate_lock_key :: "lock_manager \<Rightarrow> u64 \<times> lock_manager" where
  "generate_lock_key m = (lm_next_key m, m\<lparr>lm_next_key := lm_next_key m + 1\<rparr>)"

definition acquire_lock ::
  "u64 \<Rightarrow> u32 \<Rightarrow> u64 \<Rightarrow> u64 \<Rightarrow> lock_type \<Rightarrow> bool \<Rightarrow> lock_manager \<Rightarrow> (ntstatus + u64) \<times> lock_manager" where
  "acquire_lock file_id process_id offset len ty mandatory m =
     (case generate_lock_key m of (key, m1) \<Rightarrow>
        let new_lock = \<lparr>lk_file_id = file_id, lk_process_id = process_id, lk_offset = offset,
              lk_length = len, lk_type = ty, lk_mandatory = mandatory, lk_key = key\<rparr>
        in if \<exists>l \<in> set (lm_locks m1). lk_file_id l = file_id \<and> conflicts_with l new_lock
           then (Inl STATUS_UNSUCCESSFUL, m1\<lparr>lm_locks_denied := lm_locks_denied m1 + 1\<rparr>)
           else (Inr key, m1\<lparr>lm_locks := lm_locks m1 @ [new_lock],
                   lm_locks_granted := lm_locks_granted m1 + 1\<rparr>))"

definition release_lock :: "u64 \<Rightarrow> lock_manager \<Rightarrow> (ntstatus + unit) \<times> lock_manager" where
  "release_lock key m = (case find_from (\<lambda>l. lk_key l = key) (lm_locks m) (length (lm_locks m)) of
     Some pos \<Rightarrow> (Inr (), m\<lparr>lm_locks := remove_at pos (lm_locks m)\<rparr>)
   | None \<Rightarrow> (Inl STATUS_UNSUCCESSFUL, m))"

fun locked_by :: "u64 \<Rightarrow> u32 \<Rightarrow> u64 \<Rightarrow> u64 \<Rightarrow> bool \<Rightarrow> byte_range_lock list \<Rightarrow> bool" where
  "locked_by file_id process_id offset len for_write [] = False"
| "locked_by file_id process_id offset len for_write (l # ls) =
     (if lk_file_id l \<noteq> file_id then locked_by file_id process_id offset len for_write ls
      else if lk_process_id l = process_id then locked_by file_id process_id offset len for_write ls
      else if \<not> covers l offset len then locked_by file_id process_id offset len for_write ls
      else if lk_type l = Exclusive then True
      else if for_write \<and> lk_type l = Shared then True
      else locked_by file_id process_id offset len for_write ls)"

definition is_locked :: "u64 \<Rightarrow> u32 \<Rightarrow> u64 \<Rightarrow> u64 \<Rightarrow> bool \<Rightarrow> lock_manager \<Rightarrow> bool" where
  "is_locked file_id process_id offset len for_write m =
     locked_by file_id process_id offset len for_write (lm_locks m)"

definition manager_request_oplock ::
  "u64 \<Rightarrow> u32 \<Rightarrow> oplock_level \<Rightarrow> lock_manager \<Rightarrow> (ntstatus + u64) \<times> lock_manager" where
  "manager_request_oplock file_id process_id level m =
     (if (case map_of (lm_oplocks m) file_id of
            Some existing \<Rightarrow> \<not> (level = Level2 \<and> op_breaking existing) | None \<Rightarrow> False)
      then (Inl STATUS_UNSUCCESSFUL, m)
      else case generate_lock_key m of (key, m1) \<Rightarrow>
        (Inr key, m1\<lparr>lm_oplocks := bt_insert file_id \<lparr>op_file_id = file_id, op_process_id = process_id,
              op_level = level, op_breaking = False, op_key = key\<rparr> (lm_oplocks m1),
           lm_oplocks_granted := lm_oplocks_granted m1 + 1\<rparr>))"

definition broken_level :: "oplock_level \<Rightarrow> bool \<Rightarrow> oplock_level" where
  "broken_level level for_write = (case level of
      Level1 \<Rightarrow> (if for_write then OpNone else Level2)
    | Batch \<Rightarrow> (if for_write then OpNone else Level2)
    | ReadWrite \<Rightarrow> (if for_write then OpNone else OpRead)
    | ReadWriteHandle \<Rightarrow> (if for_write then OpNone else OpRead)
    | _ \<Rightarrow> OpNone)"

definition manager_break_oplock :: "u64 \<Rightarrow> bool \<Rightarrow> lock_manager \<Rightarrow> bool \<times> lock_manager" where
  "manager_break_oplock file_id for_write m = (case map_of (lm_oplocks m) file_id of
     None \<Rightarrow> (False, m)
   | Some l \<Rightarrow>
       if needs_break l for_write then
         let m1 = m\<lparr>lm_oplocks := bt_insert file_id (l\<lparr>op_breaking := True\<rparr>) (lm_oplocks m),
                    lm_oplocks_broken := lm_oplocks_broken m + 1\<rparr>;
             new_level = broken_level (op_level l) for_write
         in (True, if new_level = OpNone then m1\<lparr>lm_oplocks := bt_remove file_id (lm_oplocks m1)\<rparr>
              else m1\<lparr>lm_oplocks := bt_insert file_id (l\<lparr>op_level := new_level, op_breaking := False\<rparr>) (lm_oplocks m1)\<rparr>)
       else (False, m))"

definition acknowledge_oplock :: "u64 \<Rightarrow> lock_manager \<Rightarrow> lock_manager" where
  "acknowledge_oplock file_id m = (case map_of (lm_oplocks m) file_id of
     None \<Rightarrow> m
   | Some l \<Rightarrow> m\<lparr>lm_oplocks := bt_insert file_id (l\<lparr>op_breaking := False\<rparr>) (lm_oplocks m)\<rparr>)"

definition manager_release_oplock :: "u64 \<Rightarrow> lock_manager \<Rightarrow> (ntstatus + unit) \<times> lock_manager" where
  "manager_release_oplock key m = (case find (\<lambda>(_, l). op_key l = key) (lm_oplocks m) of
     Some (fid, _) \<Rightarrow> (Inr (), m\<lparr>lm_oplocks := bt_remove fid (lm_oplocks m)\<rparr>)
   | None \<Rightarrow> (Inl STATUS_UNSUCCESSFUL, m))"

definition manager_release_process_locks :: "u32 \<Rightarrow> lock_manager \<Rightarrow> lock_manager" where
  "manager_release_process_locks process_id m =
     (let m1 = m\<lparr>lm_locks := filter (\<lambda>l. lk_process_id l \<noteq> process_id) (lm_locks m)\<rparr>;
          to_remove = map fst (filter (\<lambda>(_, l). op_process_id l = process_id) (lm_oplocks m1))
      in m1\<lparr>lm_oplocks := fold bt_remove to_remove (lm_oplocks m1)\<rparr>)"

definition release_file_locks :: "u64 \<Rightarrow> lock_manager \<Rightarrow> lock_manager" where
  "release_file_locks file_id m =
     m\<lparr>lm_locks := filter (\<lambda>l. lk_file_id l \<noteq> file_id) (lm_locks m),
       lm_oplocks := bt_remove file_id (lm_oplocks m)\<rparr>"

record lock_statistics =
  ls_locks_granted :: u64
  ls_locks_denied :: u64
  ls_oplocks_granted :: u64
  ls_oplocks_broken :: u64
  ls_active_locks :: nat
  ls_active_oplocks :: nat

definition manager_statistics :: "lock_manager \<Rightarrow> lock_statistics" where
  "manager_statistics m = \<lparr>ls_locks_granted = lm_locks_granted m, ls_locks_denied = lm_locks_denied m,
     ls_oplocks_granted = lm_oplocks_granted m, ls_oplocks_broken = lm_oplocks_broken m,
     ls_active_locks = length (lm_locks m), ls_active_oplocks = length (lm_oplocks m)\<rparr>"

section \<open>The module interface\<close>

text \<open>
  The global manager does not exist before \<open>init\<close>; the operations then fail or do
  nothing.
\<close>

definition lock_range ::
  "u64 \<Rightarrow> u32 \<Rightarrow> u64 \<Rightarrow> u64 \<Rightarrow> bool \<Rightarrow> bool \<Rightarrow> lock_manager option \<Rightarrow> (ntstatus + u64) \<times> lock_manager option" where
  "lock_range file_id process_id offset len exclusive mandatory g = (case g of
     None \<Rightarrow> (Inl STATUS_UNSUCCESSFUL, None)
   | Some m \<Rightarrow> (case acquire_lock file_id process_id offset len (if exclusive then Exclusive else Shared) mandatory m of
       (r, m') \<Rightarrow> (r, Some m')))"

definition unlock_range :: "u64 \<Rightarrow> lock_manager option \<Rightarrow> (ntstatus + unit) \<times> lock_manager option" where
  "unlock_range key g = (case g of None \<Rightarrow> (Inl STATUS_UNSUCCESSFUL, None)
   | Some m \<Rightarrow> (case release_lock key m of (r, m') \<Rightarrow> (r, Some m')))"

definition check_lock :: "u64 \<Rightarrow> u32 \<Rightarrow> u64 \<Rightarrow> u64 \<Rightarrow> bool \<Rightarrow> lock_manager option \<Rightarrow> bool" where
  "check_lock file_id process_id offset len for_write g = (case g of None \<Rightarrow> False
   | Some m \<Rightarrow> is_locked file_id process_id offset len for_write m)"

definition request_oplock ::
  "u64 \<Rightarrow> u32 \<Rightarrow> oplock_level \<Rightarrow> lock_manager option \<Rightarrow> (ntstatus + u64) \<times> lock_manager option" where
  "request_oplock file_id process_id level g = (case g of None \<Rightarrow> (Inl STATUS_UNSUCCESSFUL, None)
   | Some m \<Rightarrow> (case manager_request_oplock file_id process_id level m of (r, m') \<Rightarrow> (r, Some m')))"

definition break_oplock :: "u64 \<Rightarrow> bool \<Rightarrow> lock_manager option \<Rightarrow> bool \<times> lock_manager option" where
  "break_oplock file_id for_write g = (case g of None \<Rightarrow> (False, None)
   | Some m \<Rightarrow> (case manager_break_oplock file_id for_write m of (r, m') \<Rightarrow> (r, Some m')))"

definition release_oplock :: "u64 \<Rightarrow> lock_manager option \<Rightarrow> (ntstatus + unit) \<times> lock_manager option" where
  "release_oplock key g = (case g of None \<Rightarrow> (Inl STATUS_UNSUCCESSFUL, None)
   | Some m \<Rightarrow> (case manager_release_oplock key m of (r, m') \<Rightarrow> (r, Some m')))"

definition release_process_locks :: "u32 \<Rightarrow> lock_manager option \<Rightarrow> lock_manager option" where
  "release_process_locks process_id g = map_option (manager_release_process_locks process_id) g"

definition lock_statistics_of :: "lock_manager option \<Rightarrow> lock_statistics option" where
  "lock_statistics_of g = map_option manager_statistics g"

section \<open>Exclusion\<close>

text \<open>The bytes a lock stands for, and the absence of conflicts.\<close>

definition locks_byte :: "byte_range_lock \<Rightarrow> u64 \<Rightarrow> bool" where
  "locks_byte l b \<longleftrightarrow> lk_offset l \<le> b \<and> b < sat_add (lk_offset l) (lk_length l)"

definition no_conflict :: "byte_range_lock list \<Rightarrow> bool" where
  "no_conflict ls \<longleftrightarrow> (\<forall>a \<in> set ls. \<forall>b \<in> set ls. lk_file_id a = lk_file_id b \<longrightarrow> \<not> conflicts_with a b)"

lemma conflicts_sym: "conflicts_with a b = conflicts_with b a"
  by (auto simp: conflicts_with_def overlaps_def Let_def)

lemma conflicts_irrefl [simp]: "\<not> conflicts_with a a"
  by (simp add: conflicts_with_def)

lemma common_byte_overlaps: "locks_byte a x \<Longrightarrow> locks_byte b x \<Longrightarrow> overlaps a b"
  by (auto simp: locks_byte_def overlaps_def Let_def)

lemma no_conflict_subset: "no_conflict ls \<Longrightarrow> set ls' \<subseteq> set ls \<Longrightarrow> no_conflict ls'"
  by (auto simp: no_conflict_def)

lemma no_conflict_add:
  "no_conflict ls \<Longrightarrow> \<forall>a \<in> set ls. lk_file_id a = lk_file_id l \<longrightarrow> \<not> conflicts_with a l \<Longrightarrow> no_conflict (ls @ [l])"
  by (auto simp: no_conflict_def conflicts_sym [of l])

text \<open>
  The invariant: no conflicts, oplocks in order and none in the middle of a break, and,
  as long as the counter did not wrap, distinct keys below it.
\<close>

definition lock_inv :: "nat \<Rightarrow> lock_manager \<Rightarrow> bool" where
  "lock_inv n m \<longleftrightarrow> no_conflict (lm_locks m) \<and> bt_ok (lm_oplocks m)
     \<and> (\<forall>fid l. map_of (lm_oplocks m) fid = Some l \<longrightarrow> \<not> op_breaking l)
     \<and> lm_next_key m = of_nat (n + 1)
     \<and> (n + 1 < 2 ^ 64 \<longrightarrow> distinct (map lk_key (lm_locks m)) \<and> (\<forall>l \<in> set (lm_locks m). unat (lk_key l) \<le> n))"

lemma lock_inv_new: "lock_inv 0 (lock_manager_new 1)"
  by (simp add: lock_inv_def lock_manager_new_def no_conflict_def bt_ok_def)

lemma lock_inv_acquire:
  assumes "lock_inv n m" "acquire_lock f p off len ty man m = (r, m')"
  shows "lock_inv (n + 1) m'"
proof -
  define l where "l = \<lparr>lk_file_id = f, lk_process_id = p, lk_offset = off, lk_length = len, lk_type = ty,
     lk_mandatory = man, lk_key = lm_next_key m\<rparr>"
  have m': "m' = (if \<exists>x \<in> set (lm_locks m). lk_file_id x = f \<and> conflicts_with x l
     then m\<lparr>lm_next_key := lm_next_key m + 1, lm_locks_denied := lm_locks_denied m + 1\<rparr>
     else m\<lparr>lm_next_key := lm_next_key m + 1, lm_locks := lm_locks m @ [l], lm_locks_granted := lm_locks_granted m + 1\<rparr>)"
    using assms(2) by (auto simp: acquire_lock_def generate_lock_key_def l_def Let_def split: if_splits)
  have k: "n + 2 < 2 ^ 64 \<Longrightarrow> unat (lm_next_key m) = n + 1"
    using assms(1) by (simp add: lock_inv_def unsigned_of_nat take_bit_nat_eq_self del: of_nat_Suc of_nat_add)
  show ?thesis
  proof (cases "\<exists>x \<in> set (lm_locks m). lk_file_id x = f \<and> conflicts_with x l")
    case True
    then show ?thesis using assms(1) by (auto simp: m' lock_inv_def)
  next
    case False
    then have "no_conflict (lm_locks m @ [l])"
      using assms(1) by (intro no_conflict_add) (auto simp: lock_inv_def l_def)
    moreover have "n + 2 < 2 ^ 64 \<Longrightarrow> lm_next_key m \<notin> lk_key ` set (lm_locks m)"
      using assms(1) k by (fastforce simp: lock_inv_def)
    ultimately show ?thesis using False assms(1) k by (auto simp: m' lock_inv_def l_def)
  qed
qed

lemma lock_inv_fewer:
  assumes "lock_inv n m" "set ls \<subseteq> set (lm_locks m)" "distinct (map lk_key (lm_locks m)) \<longrightarrow> distinct (map lk_key ls)"
    "bt_ok os" "\<forall>fid l. map_of os fid = Some l \<longrightarrow> \<not> op_breaking l"
    "lm_locks m' = ls" "lm_oplocks m' = os" "lm_next_key m' = lm_next_key m"
  shows "lock_inv n m'"
  using assms no_conflict_subset [of "lm_locks m" ls] by (auto simp: lock_inv_def)

lemma lock_inv_release:
  assumes "lock_inv n m" "release_lock key m = (r, m')"
  shows "lock_inv n m'"
  using assms(1)
proof (rule lock_inv_fewer)
  show "set (lm_locks m') \<subseteq> set (lm_locks m)"
    using assms(2) set_remove_at by (fastforce simp: release_lock_def split: option.splits)
  show "distinct (map lk_key (lm_locks m)) \<longrightarrow> distinct (map lk_key (lm_locks m'))"
    using assms(2) by (auto simp: release_lock_def map_remove_at distinct_remove_at split: option.splits)
qed (use assms in \<open>auto simp: lock_inv_def release_lock_def split: option.splits\<close>)

lemma lock_inv_request:
  assumes "lock_inv n m" "manager_request_oplock f p level m = (r, m')"
  shows "lock_inv (n + (if isl r then 0 else 1)) m'"
  using assms
  by (auto simp: manager_request_oplock_def generate_lock_key_def lock_inv_def bt.ok_insert bt.get_insert
      intro: le_SucI split: if_splits option.splits)

lemma lock_inv_break:
  assumes "lock_inv n m" "manager_break_oplock f w m = (r, m')"
  shows "lock_inv n m'"
proof -
  have "bt_ok (lm_oplocks m') \<and> (\<forall>fid l. map_of (lm_oplocks m') fid = Some l \<longrightarrow> \<not> op_breaking l)"
    "lm_locks m' = lm_locks m" "lm_next_key m' = lm_next_key m"
    using assms
    by (auto simp: manager_break_oplock_def lock_inv_def Let_def bt.ok_insert bt.ok_remove bt.get_insert bt.get_remove
        split: if_splits option.splits)
  with assms(1) show ?thesis by (auto simp: lock_inv_def)
qed

lemma lock_inv_acknowledge: "lock_inv n m \<Longrightarrow> lock_inv n (acknowledge_oplock f m)"
  by (auto simp: acknowledge_oplock_def lock_inv_def bt.ok_insert bt.get_insert split: option.splits)

lemma lock_inv_release_oplock:
  "lock_inv n m \<Longrightarrow> manager_release_oplock key m = (r, m') \<Longrightarrow> lock_inv n m'"
  by (auto simp: manager_release_oplock_def lock_inv_def bt.ok_remove bt.get_remove split: option.splits if_splits)

lemma lock_inv_release_process: "lock_inv n m \<Longrightarrow> lock_inv n (manager_release_process_locks p m)"
  by (rule lock_inv_fewer [of n m]) (auto simp: manager_release_process_locks_def Let_def lock_inv_def bt.ok_fold_remove
      bt.get_fold_remove distinct_map_filter split: if_splits)

lemma lock_inv_release_file: "lock_inv n m \<Longrightarrow> lock_inv n (release_file_locks f m)"
  by (rule lock_inv_fewer [of n m])
    (auto simp: release_file_locks_def lock_inv_def bt.ok_remove bt.get_remove distinct_map_filter split: if_splits)

lemmas lock_inv_steps = lock_inv_acquire lock_inv_release lock_inv_request lock_inv_break lock_inv_acknowledge
  lock_inv_release_oplock lock_inv_release_process lock_inv_release_file

text \<open>Every sequence of operations, with the number of keys it used.\<close>

inductive lock_run :: "nat \<Rightarrow> lock_manager \<Rightarrow> bool" where
  start: "lock_run 0 (lock_manager_new 1)"
| acquire: "lock_run n m \<Longrightarrow> acquire_lock f p off len ty man m = (r, m') \<Longrightarrow> lock_run (n + 1) m'"
| release: "lock_run n m \<Longrightarrow> release_lock key m = (r, m') \<Longrightarrow> lock_run n m'"
| request: "lock_run n m \<Longrightarrow> manager_request_oplock f p level m = (r, m') \<Longrightarrow> lock_run (n + (if isl r then 0 else 1)) m'"
| break: "lock_run n m \<Longrightarrow> manager_break_oplock f w m = (b, m') \<Longrightarrow> lock_run n m'"
| acknowledge: "lock_run n m \<Longrightarrow> lock_run n (acknowledge_oplock f m)"
| release_op: "lock_run n m \<Longrightarrow> manager_release_oplock key m = (r, m') \<Longrightarrow> lock_run n m'"
| release_process: "lock_run n m \<Longrightarrow> lock_run n (manager_release_process_locks p m)"
| release_file: "lock_run n m \<Longrightarrow> lock_run n (release_file_locks f m)"

lemma lock_run_inv: "lock_run n m \<Longrightarrow> lock_inv n m"
  by (induction rule: lock_run.induct)
    (rule lock_inv_new | erule (1) lock_inv_steps | erule lock_inv_steps)+

lemma locks_exclude:
  assumes "lock_inv n m" "a \<in> set (lm_locks m)" "b \<in> set (lm_locks m)" "lk_file_id a = lk_file_id b"
    "lk_process_id a \<noteq> lk_process_id b" "locks_byte a x" "locks_byte b x"
  shows "lk_type a = Shared \<and> lk_type b = Shared"
proof -
  have "\<not> conflicts_with a b" using assms(1-4) by (auto simp: lock_inv_def no_conflict_def)
  then show ?thesis
    using assms(5) common_byte_overlaps [OF assms(6,7)] by (auto simp: conflicts_with_def split: if_splits)
qed

lemma acquire_then_release:
  assumes "lock_inv n m" "n + 2 < 2 ^ 64" "acquire_lock f p off len ty man m = (Inr key, m1)"
  shows "\<exists>m2. release_lock key m1 = (Inr (), m2) \<and> lm_locks m2 = lm_locks m"
proof -
  have l: "lm_locks m1 = lm_locks m @ [\<lparr>lk_file_id = f, lk_process_id = p, lk_offset = off, lk_length = len,
      lk_type = ty, lk_mandatory = man, lk_key = key\<rparr>]"
    using assms(3) by (auto simp: acquire_lock_def generate_lock_key_def Let_def split: if_splits)
  have "lock_inv (n + 1) m1" by (rule lock_inv_acquire [OF assms(1,3)])
  with assms(2) have "distinct (map lk_key (lm_locks m1))" by (simp add: lock_inv_def)
  then have "find_from (\<lambda>l. lk_key l = key) (lm_locks m1) (length (lm_locks m1)) = Some (length (lm_locks m))"
    by (intro find_from_unique) (auto simp: l nth_append distinct_conv_nth less_Suc_eq image_iff split: if_splits)
  then show ?thesis by (simp add: release_lock_def l remove_at_append)
qed

lemma is_locked_iff:
  "is_locked f p off len w m \<longleftrightarrow> (\<exists>l \<in> set (lm_locks m). lk_file_id l = f \<and> lk_process_id l \<noteq> p \<and> covers l off len
     \<and> (lk_type l = Exclusive \<or> w))"
proof -
  have "locked_by f p off len w ls \<longleftrightarrow> (\<exists>l \<in> set ls. lk_file_id l = f \<and> lk_process_id l \<noteq> p \<and> covers l off len
     \<and> (lk_type l = Exclusive \<or> w))" for ls
    by (induction ls) (auto, (metis lock_type.exhaust)+)
  then show ?thesis by (simp add: is_locked_def)
qed
lemma covers_iff:
  assumes "off < sat_add off len"
  shows "covers l off len \<longleftrightarrow> (\<forall>y. off \<le> y \<and> y < sat_add off len \<longrightarrow> locks_byte l y)"
proof
  let ?e = "sat_add off len"
  assume a: "\<forall>y. off \<le> y \<and> y < ?e \<longrightarrow> locks_byte l y"
  have "?e \<noteq> 0" using assms by auto
  then have e: "unat (?e - 1) = unat ?e - 1" by (rule unat_minus_one)
  have o: "unat off < unat ?e" using assms by (simp add: word_less_nat_alt)
  have "?e - 1 < ?e" "off \<le> ?e - 1" using e o by (simp_all add: word_less_nat_alt word_le_nat_alt)
  then have "locks_byte l off" "locks_byte l (?e - 1)" using a assms by auto
  then show "covers l off len"
    using e o by (auto simp: covers_def locks_byte_def Let_def word_less_nat_alt word_le_nat_alt)
qed (auto simp: covers_def locks_byte_def Let_def)

section \<open>Properties\<close>

text \<open>
  C7: Mutual exclusion: after every sequence of operations, when two processes hold locks
  that contain the same byte of a file, both locks are shared.
\<close>

theorem file_locks_exclude:
  assumes "lock_run n m" "a \<in> set (lm_locks m)" "b \<in> set (lm_locks m)" "lk_file_id a = lk_file_id b"
    "lk_process_id a \<noteq> lk_process_id b" "locks_byte a x" "locks_byte b x"
  shows "lk_type a = Shared \<and> lk_type b = Shared"
  using locks_exclude [OF lock_run_inv [OF assms(1)] assms(2-)] .

theorem file_locks_exclude_witness:
  "let l1 = \<lparr>lk_file_id = 5, lk_process_id = 1, lk_offset = 0, lk_length = 10, lk_type = Shared, lk_mandatory = True, lk_key = 1\<rparr>;
       l2 = \<lparr>lk_file_id = 5, lk_process_id = 2, lk_offset = 4, lk_length = 10, lk_type = Shared, lk_mandatory = True, lk_key = 2\<rparr>
   in lm_locks (snd (acquire_lock 5 2 4 10 Shared True (snd (acquire_lock 5 1 0 10 Shared True (lock_manager_new 1))))) = [l1, l2]
      \<and> locks_byte l1 7 \<and> locks_byte l2 7 \<and> lk_type l1 = Shared"
proof -
  let ?m = "snd (acquire_lock 5 2 4 10 Shared True (snd (acquire_lock 5 1 0 10 Shared True (lock_manager_new 1))))"
  let ?a = "\<lparr>lk_file_id = 5, lk_process_id = 1, lk_offset = 0, lk_length = 10, lk_type = Shared, lk_mandatory = True, lk_key = 1\<rparr>"
  let ?b = "\<lparr>lk_file_id = 5, lk_process_id = 2, lk_offset = 4, lk_length = 10, lk_type = Shared, lk_mandatory = True, lk_key = 2\<rparr>"
  have r: "lock_run (0 + 1 + 1) ?m"
    by (rule lock_run.acquire [OF lock_run.acquire [OF lock_run.start]]) (rule prod.collapse [symmetric])+
  have l: "lm_locks ?m = [?a, ?b]" by code_simp
  have b: "locks_byte ?a 7" "locks_byte ?b 7" by code_simp+
  have "lk_type ?a = Shared \<and> lk_type ?b = Shared"
    by (rule file_locks_exclude [OF r _ _ _ _ b]) (simp_all add: l)
  with l b show ?thesis unfolding Let_def by blast
qed

text \<open>
  C23: A lock is granted exactly when no lock of another process on the file overlaps it,
  shared locks among themselves excepted, and releasing it by its key then restores the
  list of locks, as long as fewer than \<open>2 ^ 64\<close> keys have been given out.
\<close>

theorem acquire_lock_decision:
  assumes "lock_run n m" "n + 2 < 2 ^ 64" "acquire_lock f p off len ty man m = (r, m1)"
  shows "if \<exists>l \<in> set (lm_locks m). lk_file_id l = f \<and> lk_process_id l \<noteq> p \<and> (lk_type l = Exclusive \<or> ty = Exclusive)
        \<and> lk_offset l < sat_add off len \<and> off < sat_add (lk_offset l) (lk_length l)
    then r = Inl STATUS_UNSUCCESSFUL \<and> lm_locks m1 = lm_locks m
    else \<exists>key m2. r = Inr key \<and> release_lock key m1 = (Inr (), m2) \<and> lm_locks m2 = lm_locks m"
proof -
  let ?new = "\<lparr>lk_file_id = f, lk_process_id = p, lk_offset = off, lk_length = len, lk_type = ty, lk_mandatory = man,
     lk_key = lm_next_key m\<rparr>"
  have c: "conflicts_with l ?new \<longleftrightarrow> lk_process_id l \<noteq> p \<and> (lk_type l = Exclusive \<or> ty = Exclusive)
      \<and> lk_offset l < sat_add off len \<and> off < sat_add (lk_offset l) (lk_length l)" for l
    by (cases "lk_type l"; cases ty) (auto simp: conflicts_with_def overlaps_def Let_def)
  show ?thesis
  proof (cases r)
    case (Inl e)
    then show ?thesis
      using assms(3) by (auto simp: acquire_lock_def generate_lock_key_def Let_def c split: if_splits)
  next
    case (Inr key)
    then have "\<not> (\<exists>l \<in> set (lm_locks m). lk_file_id l = f \<and> conflicts_with l ?new)"
      using assms(3) by (auto simp: acquire_lock_def generate_lock_key_def Let_def split: if_splits)
    with Inr acquire_then_release [OF lock_run_inv [OF assms(1)] assms(2), of f p off len ty man key m1] assms(3)
    show ?thesis by (auto simp: c)
  qed
qed

theorem acquire_lock_decision_witness:
  "\<exists>key m1 m2. acquire_lock 5 1 0 10 Exclusive True (lock_manager_new 1) = (Inr key, m1)
     \<and> release_lock key m1 = (Inr (), m2) \<and> lm_locks m2 = []"
proof -
  obtain r m1 where a: "acquire_lock 5 1 0 10 Exclusive True (lock_manager_new 1) = (r, m1)"
    by (cases "acquire_lock 5 1 0 10 Exclusive True (lock_manager_new 1)")
  from acquire_lock_decision [OF lock_run.start _ this] a show ?thesis by (auto simp: lock_manager_new_def)
qed

text \<open>
  What an exclusive lock keeps out.  After every sequence of operations, an access of
  another process that touches a byte of an exclusive lock is stopped exactly when a single
  lock of the holder contains the whole access, the shared locks of the holder counting
  only against writes; an access that reaches over the edge of the locks is let through.
\<close>

theorem exclusive_lock_stops_contained:
  assumes "lock_run n m" "l \<in> set (lm_locks m)" "lk_type l = Exclusive" "lk_process_id l \<noteq> q"
    "locks_byte l x" "off \<le> x" "x < sat_add off len"
  shows "is_locked (lk_file_id l) q off len w m \<longleftrightarrow>
    (\<exists>k \<in> set (lm_locks m). lk_file_id k = lk_file_id l \<and> lk_process_id k = lk_process_id l
       \<and> (lk_type k = Exclusive \<or> w) \<and> (\<forall>y. off \<le> y \<and> y < sat_add off len \<longrightarrow> locks_byte k y))"
proof -
  have c: "covers k off len \<longleftrightarrow> (\<forall>y. off \<le> y \<and> y < sat_add off len \<longrightarrow> locks_byte k y)" for k
    by (rule covers_iff) (use assms(6,7) in order)
  have "lk_process_id k = lk_process_id l"
    if "k \<in> set (lm_locks m)" "lk_file_id k = lk_file_id l" "covers k off len" for k
    using locks_exclude [OF lock_run_inv [OF assms(1)] assms(2) that(1) that(2) [symmetric] _ assms(5), of] that(3) assms(3,6,7)
    unfolding c by fastforce
  then show ?thesis unfolding is_locked_iff using c assms(4) by metis
qed

theorem exclusive_lock_stops_contained_witness:
  "let m = snd (acquire_lock 5 1 0 100 Exclusive True (lock_manager_new 1))
   in is_locked 5 2 0 100 True m \<and> \<not> is_locked 5 2 0 101 True m"
proof -
  let ?l = "\<lparr>lk_file_id = 5, lk_process_id = 1, lk_offset = 0, lk_length = 100, lk_type = Exclusive, lk_mandatory = True, lk_key = 1\<rparr>"
  let ?m = "snd (acquire_lock 5 1 0 100 Exclusive True (lock_manager_new 1))"
  have r: "lock_run (0 + 1) ?m" by (rule lock_run.acquire [OF lock_run.start]) (rule prod.collapse [symmetric])
  have m: "lm_locks ?m = [?l]" by code_simp
  have b: "locks_byte ?l 7" "\<not> locks_byte ?l 100" "sat_add 0 100 = (100 :: u64)" "sat_add 0 101 = (101 :: u64)" by code_simp+
  have in_l: "locks_byte ?l y" if "y < 100" for y using that by (simp add: locks_byte_def b(3))
  have "is_locked 5 2 0 100 True ?m"
    using exclusive_lock_stops_contained [OF r, of ?l 2 7 0 100 True] in_l by (simp add: m b)
  moreover have "\<not> is_locked 5 2 0 101 True ?m"
    using exclusive_lock_stops_contained [OF r, of ?l 2 7 0 101 True] b(2) by (auto simp: m b intro: exI [of _ 100])
  ultimately show ?thesis by (simp add: Let_def)
qed

text \<open>
  An oplock is never left in the middle of a break: a break that is needed lowers the
  level at once, so acknowledging one changes nothing and an oplock is only granted on a
  file that has none.
\<close>

theorem oplock_break_is_immediate:
  assumes "lock_run n m"
  shows "map_of (lm_oplocks (acknowledge_oplock f m)) = map_of (lm_oplocks m)
    \<and> (map_of (lm_oplocks m) f \<noteq> None \<longleftrightarrow> isl (fst (manager_request_oplock f p level m)))
    \<and> (fst (manager_break_oplock f w m) \<longrightarrow>
        (case map_of (lm_oplocks (snd (manager_break_oplock f w m))) f of None \<Rightarrow> True | Some l \<Rightarrow> \<not> blocks_access l w))"
proof -
  have i: "bt_ok (lm_oplocks m)" "\<And>fid l. map_of (lm_oplocks m) fid = Some l \<Longrightarrow> \<not> op_breaking l"
    using lock_run_inv [OF assms] by (auto simp: lock_inv_def)
  have "map_of (lm_oplocks (acknowledge_oplock f m)) = map_of (lm_oplocks m)"
    using i by (auto simp: acknowledge_oplock_def bt.get_insert fun_eq_iff split: option.splits)
  moreover have "map_of (lm_oplocks m) f \<noteq> None \<longleftrightarrow> isl (fst (manager_request_oplock f p level m))"
    using i(2) by (auto simp: manager_request_oplock_def generate_lock_key_def split: option.splits)
  moreover have "fst (manager_break_oplock f w m) \<longrightarrow>
      (case map_of (lm_oplocks (snd (manager_break_oplock f w m))) f of None \<Rightarrow> True | Some l \<Rightarrow> \<not> blocks_access l w)"
    using i by (auto simp: manager_break_oplock_def Let_def bt.ok_insert bt.ok_remove bt.get_insert bt.get_remove
        broken_level_def needs_break_def blocks_access_def split: option.splits if_splits oplock_level.splits)
  ultimately show ?thesis by blast
qed

theorem oplock_break_is_immediate_witness:
  "map_of (lm_oplocks (acknowledge_oplock 5 (lock_manager_new 1))) = Map.empty"
  using oplock_break_is_immediate [OF lock_run.start, of 5] by (simp add: lock_manager_new_def)

end
