(* ===== verification/Fifo.thy ===== *)
theory Fifo
  imports Nt_Prelude
begin

text \<open>
  First-in first-out channels.  A channel accepts items, delivers items and does other
  things in between; the history of a run is what it accepted and what it delivered.
  A component whose operations meet the laws of the locale \<open>fifo\<close> loses, duplicates and
  reorders nothing.
\<close>

inductive fifo_run ::
  "('s \<Rightarrow> 'a list \<Rightarrow> 's \<Rightarrow> bool) \<Rightarrow> ('s \<Rightarrow> 'a list \<Rightarrow> 's \<Rightarrow> bool) \<Rightarrow> ('s \<Rightarrow> 's \<Rightarrow> bool) \<Rightarrow>
     's \<Rightarrow> 'a list \<Rightarrow> 'a list \<Rightarrow> 's \<Rightarrow> bool"
  for accepts delivers silent s0 where
  start: "fifo_run accepts delivers silent s0 [] [] s0"
| accept: "fifo_run accepts delivers silent s0 ins outs s \<Longrightarrow> accepts s xs s' \<Longrightarrow>
     fifo_run accepts delivers silent s0 (ins @ xs) outs s'"
| deliver: "fifo_run accepts delivers silent s0 ins outs s \<Longrightarrow> delivers s ys s' \<Longrightarrow>
     fifo_run accepts delivers silent s0 ins (outs @ ys) s'"
| other: "fifo_run accepts delivers silent s0 ins outs s \<Longrightarrow> silent s s' \<Longrightarrow>
     fifo_run accepts delivers silent s0 ins outs s'"

locale fifo =
  fixes ok :: "'s \<Rightarrow> bool" and contents :: "'s \<Rightarrow> 'a list"
    and accepts :: "'s \<Rightarrow> 'a list \<Rightarrow> 's \<Rightarrow> bool" and delivers :: "'s \<Rightarrow> 'a list \<Rightarrow> 's \<Rightarrow> bool"
    and silent :: "'s \<Rightarrow> 's \<Rightarrow> bool"
  assumes accepts: "ok s \<Longrightarrow> accepts s xs s' \<Longrightarrow> ok s' \<and> contents s' = contents s @ xs"
    and delivers: "ok s \<Longrightarrow> delivers s ys s' \<Longrightarrow> ok s' \<and> contents s = ys @ contents s'"
    and silent: "ok s \<Longrightarrow> silent s s' \<Longrightarrow> ok s' \<and> contents s' = contents s"
begin

text \<open>What was delivered, followed by what is still there, is what was put in.\<close>

lemma history:
  "fifo_run accepts delivers silent s0 ins outs s \<Longrightarrow> ok s0 \<Longrightarrow> ok s \<and> contents s0 @ ins = outs @ contents s"
proof (induction rule: fifo_run.induct)
  case (accept ins outs s xs s')
  with accepts [of s xs s'] show ?case by (metis append_assoc)
next
  case (deliver ins outs s ys s')
  with delivers [of s ys s'] show ?case by (metis append_assoc)
next
  case (other ins outs s s')
  with silent [of s s'] show ?case by simp
qed simp

lemma in_order:
  "fifo_run accepts delivers silent s0 ins outs s \<Longrightarrow> ok s0 \<Longrightarrow> contents s0 = [] \<Longrightarrow> outs = take (length outs) ins"
  using history by (metis append_Nil append_eq_conv_conj)

end

end
