(* ===== verification/Pipe.thy ===== *)
theory Pipe
  imports Fifo
begin

text \<open>
  Anonymous pipes, \<^verbatim>\<open>io/pipe.rs\<close>: a table of slots that are reused after both ends were
  closed, a counter for the identifiers of the two ends, and for each pipe a byte queue
  of at most 64 KiB with the two event words that waiting threads look at.
\<close>

section \<open>State and operations\<close>

definition PIPE_BUFFER_SIZE :: nat where "PIPE_BUFFER_SIZE = 64 * 1024"

record pipe_state =
  base_id :: u64
  buffer :: "u8 list"
  write_open :: bool
  read_open :: bool
  read_event_target :: u64
  write_event_target :: u64

definition encode_pipe_event :: "bool \<Rightarrow> bool \<Rightarrow> u64" where
  "encode_pipe_event signaled manual_reset =
     (let lo = (if signaled then 1 else 0);
          hi = push_bit 32 (push_bit 1 1 OR (if manual_reset then push_bit 8 1 else 0))
      in hi OR lo)"

definition pipe_state_new :: "u64 \<Rightarrow> pipe_state" where
  "pipe_state_new ident = \<lparr>base_id = ident, buffer = [], write_open = True, read_open = True,
     read_event_target = encode_pipe_event True False, write_event_target = encode_pipe_event False False\<rparr>"

record pipe_table =
  pipes :: "pipe_state option list"
  next_pipe_id :: u64

definition pipe_table_init :: pipe_table where
  "pipe_table_init = \<lparr>pipes = [], next_pipe_id = 1\<rparr>"

definition alloc_slot :: "pipe_state \<Rightarrow> pipe_table \<Rightarrow> nat \<times> pipe_table" where
  "alloc_slot state t = (case find_from (\<lambda>s. s = None) (pipes t) (length (pipes t)) of
     Some idx \<Rightarrow> (idx, t\<lparr>pipes := (pipes t)[idx := Some state]\<rparr>)
   | None \<Rightarrow> (length (pipes t), t\<lparr>pipes := pipes t @ [Some state]\<rparr>))"

definition pipe_matches_id :: "u64 \<Rightarrow> pipe_state option \<Rightarrow> bool" where
  "pipe_matches_id pipe_id slot = (case slot of None \<Rightarrow> False
     | Some s \<Rightarrow> base_id s \<le> pipe_id \<and> pipe_id < base_id s + 2)"

definition create_anonymous :: "pipe_table \<Rightarrow> (nat \<times> u64 \<times> u64) \<times> pipe_table" where
  "create_anonymous t =
     (let ident = next_pipe_id t; t1 = t\<lparr>next_pipe_id := ident + 2\<rparr>
      in case alloc_slot (pipe_state_new ident) t1 of (idx, t2) \<Rightarrow> ((idx, ident, ident + 1), t2))"

definition slot_for_id :: "u64 \<Rightarrow> pipe_table \<Rightarrow> (nat \<times> bool) option" where
  "slot_for_id pipe_id t =
     (if pipe_id = 0 then None
      else case find_from (pipe_matches_id pipe_id) (pipes t) (length (pipes t)) of
        None \<Rightarrow> None
      | Some idx \<Rightarrow> Some (idx, case pipes t ! idx of None \<Rightarrow> False | Some s \<Rightarrow> pipe_id \<noteq> base_id s))"

definition slot_at :: "nat \<Rightarrow> pipe_table \<Rightarrow> pipe_state option" where
  "slot_at idx t = (if idx < length (pipes t) then pipes t ! idx else None)"

definition with_slot :: "nat \<Rightarrow> pipe_state option \<Rightarrow> pipe_table \<Rightarrow> pipe_table" where
  "with_slot idx s t = t\<lparr>pipes := (pipes t)[idx := s]\<rparr>"

text \<open>Reading fills the front of the caller's buffer and returns the count.\<close>

definition pipe_read :: "nat \<Rightarrow> u8 list \<Rightarrow> pipe_table \<Rightarrow> nat \<times> u8 list \<times> pipe_table" where
  "pipe_read idx buf t = (case slot_at idx t of
     None \<Rightarrow> (0, buf, t)
   | Some s \<Rightarrow>
       if \<not> read_open s then (0, buf, t)
       else let n = min (length buf) (length (buffer s));
                s1 = s\<lparr>buffer := drop n (buffer s)\<rparr>;
                s2 = (if length (buffer s1) < PIPE_BUFFER_SIZE
                      then s1\<lparr>write_event_target := encode_pipe_event True False\<rparr> else s1)
            in (n, overwrite buf 0 (take n (buffer s)), with_slot idx (Some s2) t))"

definition pipe_write :: "nat \<Rightarrow> u8 list \<Rightarrow> pipe_table \<Rightarrow> nat \<times> pipe_table" where
  "pipe_write idx data t = (case slot_at idx t of
     None \<Rightarrow> (0, t)
   | Some s \<Rightarrow>
       if \<not> write_open s then (0, t)
       else let n = min (length data) (PIPE_BUFFER_SIZE - length (buffer s));
                s1 = s\<lparr>buffer := buffer s @ take n data\<rparr>;
                s2 = (if buffer s1 \<noteq> [] then s1\<lparr>read_event_target := encode_pipe_event True False\<rparr> else s1)
            in (n, with_slot idx (Some s2) t))"

definition close_end :: "nat \<Rightarrow> bool \<Rightarrow> pipe_table \<Rightarrow> pipe_table" where
  "close_end idx is_read t = (case slot_at idx t of
     None \<Rightarrow> t
   | Some s \<Rightarrow>
       let s1 = (if is_read then s\<lparr>read_open := False\<rparr>
                 else s\<lparr>write_open := False, read_event_target := encode_pipe_event True False\<rparr>)
       in if \<not> read_open s1 \<and> \<not> write_open s1 then with_slot idx None t else with_slot idx (Some s1) t)"

definition event_target :: "nat \<Rightarrow> bool \<Rightarrow> pipe_table \<Rightarrow> u64" where
  "event_target idx is_read t = (case slot_at idx t of None \<Rightarrow> 0
     | Some s \<Rightarrow> if is_read then read_event_target s else write_event_target s)"

definition debug_pipe_count :: "pipe_table \<Rightarrow> nat" where
  "debug_pipe_count t = length (filter (\<lambda>s. s \<noteq> None) (pipes t))"

definition register_external_pipe :: "u64 \<Rightarrow> pipe_table \<Rightarrow> nat option \<times> pipe_table" where
  "register_external_pipe host_id t =
     (let ident = next_pipe_id t; t1 = t\<lparr>next_pipe_id := ident + 2\<rparr>
      in if ident = host_id then (None, t1)
         else case alloc_slot (pipe_state_new ident) t1 of (idx, t2) \<Rightarrow> (Some idx, t2))"

section \<open>A pipe is a queue\<close>

lemma slot_at_with_slot: "idx < length (pipes t) \<Longrightarrow> slot_at j (with_slot idx s t) = (if j = idx then s else slot_at j t)"
  by (auto simp: slot_at_def with_slot_def)

lemma next_pipe_id_with_slot [simp]: "next_pipe_id (with_slot idx s t) = next_pipe_id t"
  by (simp add: with_slot_def)

lemma slot_at_next_pipe_id [simp]: "slot_at j (t\<lparr>next_pipe_id := m\<rparr>) = slot_at j t"
  by (simp add: slot_at_def)

lemma slot_at_Some: "slot_at idx t = Some s \<Longrightarrow> idx < length (pipes t)"
  by (simp add: slot_at_def split: if_splits)

lemma alloc_slot_at:
  assumes "alloc_slot st t = (idx, t')"
  shows "slot_at idx t = None" "slot_at idx t' = Some st" "j \<noteq> idx \<Longrightarrow> slot_at j t' = slot_at j t"
    "next_pipe_id t' = next_pipe_id t"
proof -
  consider (reuse) "idx < length (pipes t)" "pipes t ! idx = None" "t' = t\<lparr>pipes := (pipes t)[idx := Some st]\<rparr>"
    | (grow) "idx = length (pipes t)" "t' = t\<lparr>pipes := pipes t @ [Some st]\<rparr>"
    using assms find_from_Some [of "\<lambda>s. s = None" "pipes t" "length (pipes t)"]
    by (auto simp: alloc_slot_def split: option.splits)
  then show "slot_at idx t = None" "slot_at idx t' = Some st" "j \<noteq> idx \<Longrightarrow> slot_at j t' = slot_at j t"
    "next_pipe_id t' = next_pipe_id t"
    by (cases; auto simp: slot_at_def nth_append)+
qed

definition pipe_accepts :: "nat \<Rightarrow> pipe_table \<Rightarrow> u8 list \<Rightarrow> pipe_table \<Rightarrow> bool" where
  "pipe_accepts idx t xs t' \<longleftrightarrow> (\<exists>data n. pipe_write idx data t = (n, t') \<and> xs = take n data)"

definition pipe_delivers :: "nat \<Rightarrow> pipe_table \<Rightarrow> u8 list \<Rightarrow> pipe_table \<Rightarrow> bool" where
  "pipe_delivers idx t ys t' \<longleftrightarrow> (\<exists>buf n buf'. pipe_read idx buf t = (n, buf', t') \<and> ys = take n buf')"

text \<open>
  Everything else that may happen: other pipes are created, used and closed, and one end
  of this pipe may be closed.
\<close>

definition pipe_other :: "nat \<Rightarrow> pipe_table \<Rightarrow> pipe_table \<Rightarrow> bool" where
  "pipe_other idx t t' \<longleftrightarrow> t' = snd (create_anonymous t) \<or> (\<exists>h. t' = snd (register_external_pipe h t))
     \<or> (\<exists>j data. j \<noteq> idx \<and> t' = snd (pipe_write j data t)) \<or> (\<exists>j buf. j \<noteq> idx \<and> t' = snd (snd (pipe_read j buf t)))
     \<or> (\<exists>j r. t' = close_end j r t \<and> (j \<noteq> idx \<or> slot_at idx t' \<noteq> None))"

definition pipe_ok :: "nat \<Rightarrow> pipe_table \<Rightarrow> bool" where
  "pipe_ok idx t = (case slot_at idx t of None \<Rightarrow> False | Some s \<Rightarrow> length (buffer s) \<le> PIPE_BUFFER_SIZE)"

definition pipe_contents :: "nat \<Rightarrow> pipe_table \<Rightarrow> u8 list" where
  "pipe_contents idx t = (case slot_at idx t of None \<Rightarrow> [] | Some s \<Rightarrow> buffer s)"

lemma pipe_write_slot:
  assumes "pipe_write idx data t = (n, t')"
  shows "j \<noteq> idx \<Longrightarrow> slot_at j t' = slot_at j t"
    "slot_at idx t = Some s \<Longrightarrow> write_open s \<Longrightarrow> n = min (length data) (PIPE_BUFFER_SIZE - length (buffer s))"
    "slot_at idx t = Some s \<Longrightarrow> \<exists>s'. slot_at idx t' = Some s' \<and> buffer s' = buffer s @ take n data
       \<and> (length (buffer s) \<le> PIPE_BUFFER_SIZE \<longrightarrow> length (buffer s') \<le> PIPE_BUFFER_SIZE)"
  using assms by (auto simp: pipe_write_def Let_def slot_at_with_slot dest!: slot_at_Some split: option.splits if_splits)

lemma pipe_read_slot:
  assumes "pipe_read idx buf t = (n, buf', t')"
  shows "j \<noteq> idx \<Longrightarrow> slot_at j t' = slot_at j t"
    "slot_at idx t = Some s \<Longrightarrow> read_open s \<Longrightarrow> n = min (length buf) (length (buffer s))"
    "slot_at idx t = Some s \<Longrightarrow> \<exists>s'. slot_at idx t' = Some s' \<and> buffer s = take n buf' @ buffer s'"
proof -
  show "j \<noteq> idx \<Longrightarrow> slot_at j t' = slot_at j t"
    "slot_at idx t = Some s \<Longrightarrow> read_open s \<Longrightarrow> n = min (length buf) (length (buffer s))"
    using assms
    by (auto simp: pipe_read_def Let_def slot_at_with_slot dest!: slot_at_Some split: option.splits if_splits)
  have "take (min (length buf) (length b)) (overwrite buf 0 (take (min (length buf) (length b)) b))
      @ drop (min (length buf) (length b)) b = b" for b :: "u8 list"
    by (simp add: overwrite_def min_def)
  then show "slot_at idx t = Some s \<Longrightarrow> \<exists>s'. slot_at idx t' = Some s' \<and> buffer s = take n buf' @ buffer s'"
    using assms
    by (auto simp: pipe_read_def Let_def slot_at_with_slot dest: slot_at_Some split: if_splits)
qed

lemma close_end_slot:
  "j \<noteq> idx \<Longrightarrow> slot_at j (close_end idx r t) = slot_at j t"
  "slot_at idx t = Some s \<Longrightarrow> slot_at idx (close_end idx r t) = Some s' \<Longrightarrow> buffer s' = buffer s"
  by (auto simp: close_end_def Let_def slot_at_with_slot slot_at_Some split: option.splits if_splits)

lemma create_slot:
  assumes "slot_at idx t = Some s"
  shows "slot_at idx (snd (create_anonymous t)) = Some s"
    "slot_at idx (snd (register_external_pipe h t)) = Some s"
proof -
  have alloc: "slot_at idx (snd (alloc_slot st (t\<lparr>next_pipe_id := m\<rparr>))) = Some s" for st m
  proof -
    obtain i t2 where al: "alloc_slot st (t\<lparr>next_pipe_id := m\<rparr>) = (i, t2)" by fastforce
    have "i \<noteq> idx" using alloc_slot_at(1) [OF al] assms by auto
    then show ?thesis using alloc_slot_at(3) [OF al, of idx] assms by (simp add: al)
  qed
  show "slot_at idx (snd (create_anonymous t)) = Some s"
    using alloc by (simp add: create_anonymous_def Let_def case_prod_unfold)
  show "slot_at idx (snd (register_external_pipe h t)) = Some s"
    using alloc assms by (simp add: register_external_pipe_def Let_def case_prod_unfold)
qed

lemma pipe_other_slot:
  assumes "pipe_other idx t t'" "slot_at idx t = Some s"
  shows "\<exists>s'. slot_at idx t' = Some s' \<and> buffer s' = buffer s"
proof -
  have "slot_at idx (snd (pipe_write j data t)) = Some s" if "j \<noteq> idx" for j data
    using that assms(2) pipe_write_slot(1) [of j data t "fst (pipe_write j data t)" "snd (pipe_write j data t)" idx] by simp
  moreover have "slot_at idx (snd (snd (pipe_read j buf t))) = Some s" if "j \<noteq> idx" for j buf
    using that assms(2) pipe_read_slot(1) [of j buf t "fst (pipe_read j buf t)" "fst (snd (pipe_read j buf t))"
        "snd (snd (pipe_read j buf t))" idx] by simp
  moreover have "\<exists>s'. slot_at idx (close_end j r t) = Some s' \<and> buffer s' = buffer s"
    if "j \<noteq> idx \<or> slot_at idx (close_end j r t) \<noteq> None" for j r
  proof (cases "j = idx")
    case True
    with that obtain s' where "slot_at idx (close_end idx r t) = Some s'" by auto
    with True close_end_slot(2) [OF assms(2)] show ?thesis by simp
  next
    case False
    with assms(2) close_end_slot(1) [of idx j r t] show ?thesis by simp
  qed
  ultimately show ?thesis
    using assms(1) create_slot [OF assms(2)] unfolding pipe_other_def by blast
qed

interpretation pipe_fifo: fifo "pipe_ok idx" "pipe_contents idx" "pipe_accepts idx" "pipe_delivers idx" "pipe_other idx" for idx
proof
  fix t xs t' assume "pipe_ok idx t" "pipe_accepts idx t xs t'"
  then show "pipe_ok idx t' \<and> pipe_contents idx t' = pipe_contents idx t @ xs"
    using pipe_write_slot(3) [of idx _ t _ t']
    by (fastforce simp: pipe_ok_def pipe_contents_def pipe_accepts_def split: option.splits)
next
  fix t ys t' assume "pipe_ok idx t" "pipe_delivers idx t ys t'"
  then show "pipe_ok idx t' \<and> pipe_contents idx t = ys @ pipe_contents idx t'"
    using pipe_read_slot(3) [of idx _ t _ _ t']
    by (fastforce simp: pipe_ok_def pipe_contents_def pipe_delivers_def split: option.splits)
next
  fix t t' assume "pipe_ok idx t" "pipe_other idx t t'"
  then show "pipe_ok idx t' \<and> pipe_contents idx t' = pipe_contents idx t"
    using pipe_other_slot [of idx t t']
    by (fastforce simp: pipe_ok_def pipe_contents_def split: option.splits)
qed

section \<open>Identifiers\<close>

text \<open>
  The slots hold pairwise different odd identifiers below the counter.  Identifiers are
  given out once, so the invariant needs the 64-bit counter not to wrap.
\<close>

definition pipe_ids :: "pipe_table \<Rightarrow> bool" where
  "pipe_ids t \<longleftrightarrow> odd (unat (next_pipe_id t))
     \<and> (\<forall>i s. slot_at i t = Some s \<longrightarrow> odd (unat (base_id s)) \<and> unat (base_id s) < unat (next_pipe_id t))
     \<and> (\<forall>i j s s'. slot_at i t = Some s \<longrightarrow> slot_at j t = Some s' \<longrightarrow> base_id s = base_id s' \<longrightarrow> i = j)"

lemma pipe_ids_same:
  assumes "pipe_ids t" "next_pipe_id t' = next_pipe_id t"
    and "\<And>i s'. slot_at i t' = Some s' \<Longrightarrow> \<exists>s. slot_at i t = Some s \<and> base_id s = base_id s'"
  shows "pipe_ids t'"
  unfolding pipe_ids_def
  using assms unfolding pipe_ids_def by metis

lemma pipe_ops_ids:
  assumes "pipe_ids t"
  shows "pipe_ids (snd (snd (pipe_read idx buf t)))" "pipe_ids (snd (pipe_write idx data t))" "pipe_ids (close_end idx r t)"
  by (rule pipe_ids_same [OF assms];
      auto simp: pipe_read_def pipe_write_def close_end_def Let_def slot_at_with_slot slot_at_Some
        split: option.splits if_splits)+

lemma alloc_slot_ids:
  assumes inv: "pipe_ids t" and n: "unat (next_pipe_id t) + 2 < 2 ^ 64"
    and al: "alloc_slot (pipe_state_new (next_pipe_id t)) (t\<lparr>next_pipe_id := next_pipe_id t + 2\<rparr>) = (idx, t')"
  shows "pipe_ids t'" "unat (next_pipe_id t') = unat (next_pipe_id t) + 2"
proof -
  note [simp] = alloc_slot_at(4) [OF al]
  have u: "unat (next_pipe_id t + 2) = unat (next_pipe_id t) + 2"
    using n by (simp add: unat_word_ariths)
  have sl: "slot_at j t' = (if j = idx then Some (pipe_state_new (next_pipe_id t)) else slot_at j t)" for j
    using alloc_slot_at [OF al] by simp
  have less: "odd (unat (base_id s)) \<and> unat (base_id s) < unat (next_pipe_id t)" if "slot_at i t = Some s" for i s
    using inv that by (auto simp: pipe_ids_def)
  have new: "base_id (pipe_state_new ident) = ident" for ident by (simp add: pipe_state_new_def)
  have bound: "odd (unat (base_id s)) \<and> unat (base_id s) < unat (next_pipe_id t')" if "slot_at i t' = Some s" for i s
  proof (cases "i = idx")
    case True
    with that inv show ?thesis by (auto simp: sl new u pipe_ids_def)
  next
    case False
    with that less [of i s] show ?thesis by (simp add: sl u)
  qed
  have inj: "i = j" if "slot_at i t' = Some s" "slot_at j t' = Some s'" "base_id s = base_id s'" for i j s s'
  proof -
    have "i = j" if "i \<noteq> idx" "j \<noteq> idx"
      using that \<open>slot_at i t' = Some s\<close> \<open>slot_at j t' = Some s'\<close> \<open>base_id s = base_id s'\<close> inv
      by (simp add: sl pipe_ids_def)
    then show ?thesis
      using that less [of i s] less [of j s'] by (cases "i = idx"; cases "j = idx"; auto simp: sl new)
  qed
  show "pipe_ids t'"
    unfolding pipe_ids_def using inv u bound inj by (auto simp: pipe_ids_def)
  show "unat (next_pipe_id t') = unat (next_pipe_id t) + 2" using u by simp
qed

lemma odd_less_matches:
  fixes a b n :: u64
  assumes "odd (unat a)" "odd (unat b)" "odd (unat n)" "unat a < unat n" "unat b < unat n"
  shows "a \<le> b \<and> b < a + 2 \<longleftrightarrow> b = a" "a \<le> b + 1 \<and> b + 1 < a + 2 \<longleftrightarrow> b = a"
proof -
  have gap: "unat x + 2 \<le> unat n" if "odd (unat x)" "unat x < unat n" for x :: u64
    using that assms(3) by presburger
  have n: "unat n < 2 ^ 64" using unsigned_less [of n] by simp
  have u: "unat (a + 2) = unat a + 2" "unat (b + 1) = unat b + 1"
    using n gap [of a] gap [of b] assms by (simp_all add: unat_word_ariths)
  have "unat b \<noteq> unat a + 1" "unat a \<noteq> unat b + 1" using assms by auto
  then show "a \<le> b \<and> b < a + 2 \<longleftrightarrow> b = a" "a \<le> b + 1 \<and> b + 1 < a + 2 \<longleftrightarrow> b = a"
    unfolding word_le_nat_alt word_less_nat_alt u word_unat_eq_iff by arith+
qed

lemma slot_for_id_ends:
  assumes inv: "pipe_ids t" and s: "slot_at idx t = Some s"
  shows "slot_for_id (base_id s) t = Some (idx, False)" "slot_for_id (base_id s + 1) t = Some (idx, True)"
proof -
  have ids: "odd (unat (base_id s'))" "unat (base_id s') < unat (next_pipe_id t)" "j = idx \<longleftrightarrow> base_id s' = base_id s"
    if "slot_at j t = Some s'" for j s'
    using inv s that unfolding pipe_ids_def by (blast, blast, metis option.inject)
  have n: "odd (unat (next_pipe_id t))" using inv by (simp add: pipe_ids_def)
  have at: "slot_at j t = pipes t ! j" if "j < length (pipes t)" for j
    using that by (simp add: slot_at_def)
  have idx: "idx < length (pipes t)" "pipes t ! idx = Some s"
    using slot_at_Some [OF s] at s by simp_all
  have m: "pipe_matches_id (base_id s) (pipes t ! j) \<longleftrightarrow> j = idx"
    "pipe_matches_id (base_id s + 1) (pipes t ! j) \<longleftrightarrow> j = idx" if j: "j < length (pipes t)" for j
  proof -
    have "pipe_matches_id (base_id s + b) (pipes t ! j) \<longleftrightarrow> j = idx" if b: "b = 0 \<or> b = 1" for b
    proof (cases "pipes t ! j")
      case None
      with idx show ?thesis by (auto simp: pipe_matches_id_def)
    next
      case (Some s')
      with at [OF j] have s': "slot_at j t = Some s'" by simp
      have e: "pipe_matches_id x (pipes t ! j) \<longleftrightarrow> base_id s' \<le> x \<and> x < base_id s' + 2" for x
        by (simp add: pipe_matches_id_def Some)
      note odd = odd_less_matches [OF ids(1) [OF s'] ids(1) [OF s] n ids(2) [OF s'] ids(2) [OF s]]
      show ?thesis
        using b by (elim disjE) (simp_all only: e odd ids(3) [OF s'] add_0_right eq_commute [of "base_id s"])
    qed
    from this [of 0] this [of 1] show "pipe_matches_id (base_id s) (pipes t ! j) \<longleftrightarrow> j = idx"
      "pipe_matches_id (base_id s + 1) (pipes t ! j) \<longleftrightarrow> j = idx" by simp_all
  qed
  have nz: "base_id s \<noteq> 0" "base_id s + 1 \<noteq> 0"
  proof -
    have "Suc (unat (base_id s)) < 2 ^ 64"
      using ids(2) [OF s] unsigned_less [of "next_pipe_id t", where ?'a = nat] by simp
    then have "unat (base_id s + 1) = Suc (unat (base_id s))" by (simp add: unat_word_ariths)
    then show "base_id s + 1 \<noteq> 0" by (metis nat.distinct(1) unat_0)
    show "base_id s \<noteq> 0" using ids(1) [OF s] by (metis even_zero unat_0)
  qed
  have "find_from (pipe_matches_id (base_id s)) (pipes t) (length (pipes t)) = Some idx"
    using idx(1) m(1) by (intro find_from_unique) auto
  with nz(1) idx(2) show "slot_for_id (base_id s) t = Some (idx, False)"
    by (simp add: slot_for_id_def)
  have "find_from (pipe_matches_id (base_id s + 1)) (pipes t) (length (pipes t)) = Some idx"
    using idx(1) m(2) by (intro find_from_unique) auto
  with nz(2) idx(2) show "slot_for_id (base_id s + 1) t = Some (idx, True)"
    by (simp add: slot_for_id_def)
qed

lemma pipe_ids_init: "pipe_ids pipe_table_init"
  by (simp add: pipe_ids_def pipe_table_init_def slot_at_def)

lemma create_anonymous_ids:
  assumes inv: "pipe_ids t" and n: "unat (next_pipe_id t) + 2 < 2 ^ 64"
    and cr: "create_anonymous t = ((idx, r, w), t')"
  shows "pipe_ids t'" "slot_at idx t = None" "slot_at idx t' = Some (pipe_state_new r)" "w = r + 1" "r = next_pipe_id t"
proof -
  have al: "alloc_slot (pipe_state_new (next_pipe_id t)) (t\<lparr>next_pipe_id := next_pipe_id t + 2\<rparr>) = (idx, t')"
    and r: "r = next_pipe_id t" "w = r + 1"
    using cr by (auto simp: create_anonymous_def Let_def split: prod.splits)
  show "pipe_ids t'" by (rule alloc_slot_ids(1) [OF inv n al])
  show "slot_at idx t = None" using alloc_slot_at(1) [OF al] by simp
  show "slot_at idx t' = Some (pipe_state_new r)" using alloc_slot_at(2) [OF al] r by simp
  show "w = r + 1" "r = next_pipe_id t" by (fact r)+
qed

definition one_pipe :: pipe_table where
  "one_pipe = snd (create_anonymous pipe_table_init)"

lemma one_pipe_eq: "one_pipe = \<lparr>pipes = [Some (pipe_state_new 1)], next_pipe_id = 3\<rparr>"
  by code_simp

lemmas pipe_evals = one_pipe_eq slot_at_def with_slot_def pipe_state_new_def PIPE_BUFFER_SIZE_def Let_def overwrite_def
  pipe_read_def pipe_write_def close_end_def event_target_def

section \<open>Properties\<close>

text \<open>
  C8: An anonymous pipe is a lossless queue of bytes: along every run in which slot
  \<open>idx\<close> is written and read, other pipes are created, used and closed, and one of its own
  ends may be closed, what the reads returned followed by what the buffer still holds is
  what the buffer held followed by what the writes accepted, and the buffer never exceeds
  64 KiB.
\<close>

theorem pipe_is_fifo:
  assumes "fifo_run (pipe_accepts idx) (pipe_delivers idx) (pipe_other idx) t0 ins outs t" "pipe_ok idx t0"
  shows "pipe_ok idx t \<and> pipe_contents idx t0 @ ins = outs @ pipe_contents idx t"
  using assms by (rule pipe_fifo.history)

theorem pipe_is_fifo_witness:
  "pipe_contents 0 (snd (snd (pipe_read 0 [0, 0] (snd (pipe_write 0 [7, 8, 9] one_pipe))))) = [9]"
proof -
  let ?t1 = "snd (pipe_write 0 [7, 8, 9] one_pipe)"
  let ?t2 = "snd (snd (pipe_read 0 [0, 0] ?t1))"
  have w: "pipe_write 0 [7, 8, 9] one_pipe = (3, ?t1)" by (simp add: pipe_evals)
  have r: "pipe_read 0 [0, 0] ?t1 = (2, [7, 8], ?t2)" by (simp add: pipe_evals)
  have "fifo_run (pipe_accepts 0) (pipe_delivers 0) (pipe_other 0) one_pipe [] [] one_pipe" by (rule fifo_run.start)
  moreover have "pipe_accepts 0 one_pipe (take 3 [7, 8, 9]) ?t1"
    unfolding pipe_accepts_def using w by blast
  ultimately have "fifo_run (pipe_accepts 0) (pipe_delivers 0) (pipe_other 0) one_pipe ([] @ take 3 [7, 8, 9]) [] ?t1"
    by (rule fifo_run.accept)
  moreover have "pipe_delivers 0 ?t1 (take 2 [7, 8]) ?t2"
    unfolding pipe_delivers_def using r by blast
  ultimately have "fifo_run (pipe_accepts 0) (pipe_delivers 0) (pipe_other 0) one_pipe ([] @ take 3 [7, 8, 9])
      ([] @ take 2 [7, 8]) ?t2"
    by (rule fifo_run.deliver)
  moreover have "pipe_ok 0 one_pipe" by (simp add: pipe_ok_def pipe_evals)
  ultimately have "pipe_contents 0 one_pipe @ ([] @ take 3 [7, 8, 9]) = ([] @ take 2 [7, 8]) @ pipe_contents 0 ?t2"
    using pipe_is_fifo by blast
  moreover have "pipe_contents 0 one_pipe = []" by (simp add: pipe_contents_def pipe_evals)
  ultimately show ?thesis by simp
qed

text \<open>
  C24: Creating a pipe takes an unused slot, gives its two ends identifiers that look up
  exactly that slot with the right direction, and leaves every identifier of every other
  open pipe resolving to the same end; the identifiers stay unique as long as the 64-bit
  counter has not run out.
\<close>

theorem pipe_ends_resolve:
  assumes "pipe_ids t" "unat (next_pipe_id t) + 2 < 2 ^ 64" "create_anonymous t = ((idx, r, w), t')"
  shows "pipe_ids t' \<and> slot_at idx t = None \<and> slot_for_id r t' = Some (idx, False) \<and> slot_for_id w t' = Some (idx, True)
    \<and> (\<forall>j s. slot_at j t = Some s \<longrightarrow>
         slot_for_id (base_id s) t' = Some (j, False) \<and> slot_for_id (base_id s + 1) t' = Some (j, True))"
proof -
  note cr = create_anonymous_ids [OF assms]
  have "snd (create_anonymous t) = t'" using assms(3) by simp
  with create_slot(1) have keep: "slot_at j t' = Some s" if "slot_at j t = Some s" for j s
    using that by force
  have "slot_for_id r t' = Some (idx, False) \<and> slot_for_id w t' = Some (idx, True)"
    using slot_for_id_ends [OF cr(1,3)] cr(4) by (simp add: pipe_state_new_def)
  then show ?thesis
    using cr(1,2) slot_for_id_ends [OF cr(1) keep] by blast
qed

theorem pipe_ends_resolve_witness:
  "slot_for_id 3 (snd (create_anonymous one_pipe)) = Some (1, False)
   \<and> slot_for_id 2 (snd (create_anonymous one_pipe)) = Some (0, True)"
proof -
  have "unat (next_pipe_id pipe_table_init) + 2 < 2 ^ 64" by (simp add: pipe_table_init_def)
  moreover have "create_anonymous pipe_table_init = ((0, 1, 2), one_pipe)" by code_simp
  ultimately have "pipe_ids one_pipe" by (rule create_anonymous_ids(1) [OF pipe_ids_init])
  moreover have "unat (next_pipe_id one_pipe) + 2 < 2 ^ 64" by (simp add: one_pipe_eq)
  moreover have "create_anonymous one_pipe = ((1, 3, 4), snd (create_anonymous one_pipe))" by code_simp
  moreover have "slot_at 0 one_pipe = Some (pipe_state_new 1)" by (simp add: pipe_evals)
  ultimately show ?thesis
    using pipe_ends_resolve [of one_pipe 1 3 4 "snd (create_anonymous one_pipe)"] by (fastforce simp: pipe_state_new_def)
qed

text \<open>
  The two event words of a new pipe are the wrong way round: the read event is
  signalled although a read returns nothing, and the write event is not although the
  buffer is empty; and after the read end was closed a write is still accepted and the
  write event stays unsignalled.
\<close>

theorem fresh_pipe_events:
  "event_target 0 True one_pipe = encode_pipe_event True False \<and> fst (pipe_read 0 [0] one_pipe) = 0
   \<and> event_target 0 False one_pipe = encode_pipe_event False False \<and> fst (pipe_write 0 [7] one_pipe) = 1
   \<and> fst (pipe_write 0 [7] (close_end 0 True one_pipe)) = 1
   \<and> event_target 0 False (close_end 0 True one_pipe) = encode_pipe_event False False"
  by (simp add: pipe_evals)

end
