(* ===== verification/Ethernet.thy ===== *)
theory Ethernet
  imports Nt_Prelude
begin

text \<open>
  Network byte order and Ethernet II frames, \<^verbatim>\<open>netstack/eth.rs\<close>.
\<close>

section \<open>Big-endian encodings\<close>

definition be_u16 :: "u8 \<Rightarrow> u8 \<Rightarrow> u16" where
  "be_u16 b0 b1 = le_u16 b1 b0"

definition be_u32 :: "u8 \<Rightarrow> u8 \<Rightarrow> u8 \<Rightarrow> u8 \<Rightarrow> u32" where
  "be_u32 b0 b1 b2 b3 = le_u32 b3 b2 b1 b0"

definition u16_to_be_bytes :: "u16 \<Rightarrow> u8 list" where
  "u16_to_be_bytes v = rev (u16_to_le_bytes v)"

definition u32_to_be_bytes :: "u32 \<Rightarrow> u8 list" where
  "u32_to_be_bytes v = rev (u32_to_le_bytes v)"

lemma u16_to_be_bytes: "u16_to_be_bytes v = [ucast (drop_bit 8 v), ucast v]"
  by (simp add: u16_to_be_bytes_def u16_to_le_bytes_def)

lemma u32_to_be_bytes: "u32_to_be_bytes v = [ucast (drop_bit 24 v), ucast (drop_bit 16 v), ucast (drop_bit 8 v), ucast v]"
  by (simp add: u32_to_be_bytes_def u32_to_le_bytes_def)

lemma length_be_bytes [simp]: "length (u16_to_be_bytes v) = 2" "length (u32_to_be_bytes w) = 4"
  by (simp_all add: u16_to_be_bytes_def u32_to_be_bytes_def)

lemma be_of_bytes [simp]:
  "be_u16 (ucast (drop_bit 8 v)) (ucast v) = v"
  "be_u32 (ucast (drop_bit 24 w)) (ucast (drop_bit 16 w)) (ucast (drop_bit 8 w)) (ucast w) = w"
  by (simp_all add: be_u16_def be_u32_def)

lemma unat_be_u16: "unat (be_u16 b0 b1) = 256 * unat b0 + unat b1"
  by (simp add: be_u16_def unat_le_u16)

section \<open>Frames\<close>

definition ETHER_TYPE_IPV4 :: u16 where "ETHER_TYPE_IPV4 = 0x0800"
definition ETHER_TYPE_ARP :: u16 where "ETHER_TYPE_ARP = 0x0806"
definition ETHER_TYPE_RARP :: u16 where "ETHER_TYPE_RARP = 0x8035"
definition ETHER_TYPE_VLAN :: u16 where "ETHER_TYPE_VLAN = 0x8100"
definition ETHER_TYPE_IPV6 :: u16 where "ETHER_TYPE_IPV6 = 0x86DD"
definition ETHER_HDR_SIZE :: nat where "ETHER_HDR_SIZE = 14"

type_synonym mac = "u8 list"

record ethernet_header =
  eth_dst_mac :: mac
  eth_src_mac :: mac
  ether_type :: u16

definition ethernet_header_from_bytes :: "u8 list \<Rightarrow> ethernet_header option" where
  "ethernet_header_from_bytes data =
     (if length data < ETHER_HDR_SIZE then None
      else Some \<lparr>eth_dst_mac = slice_of data 0 6, eth_src_mac = slice_of data 6 12,
        ether_type = be_u16 (data ! 12) (data ! 13)\<rparr>)"

definition ethernet_header_to_bytes :: "ethernet_header \<Rightarrow> u8 list \<Rightarrow> u8 list" where
  "ethernet_header_to_bytes h data =
     (if length data < ETHER_HDR_SIZE then data
      else overwrite (overwrite (overwrite data 0 (eth_dst_mac h)) 6 (eth_src_mac h)) 12 (u16_to_be_bytes (ether_type h)))"

definition eth_payload_offset :: "ethernet_header \<Rightarrow> nat" where
  "eth_payload_offset h = ETHER_HDR_SIZE"

definition eth_payload_length :: "ethernet_header \<Rightarrow> nat \<Rightarrow> nat" where
  "eth_payload_length h total_len = total_len - ETHER_HDR_SIZE"

definition ETHER_BROADCAST_MAC :: mac where
  "ETHER_BROADCAST_MAC = [0xFF, 0xFF, 0xFF, 0xFF, 0xFF, 0xFF]"

definition is_broadcast :: "mac \<Rightarrow> bool" where
  "is_broadcast mac = (mac = ETHER_BROADCAST_MAC)"

definition is_multicast :: "mac \<Rightarrow> bool" where
  "is_multicast mac \<longleftrightarrow> mac ! 0 AND 1 \<noteq> 0 \<and> \<not> is_broadcast mac"

definition is_unicast :: "mac \<Rightarrow> bool" where
  "is_unicast mac \<longleftrightarrow> mac ! 0 AND 1 = 0"

definition parse_ethernet_frame :: "u8 list \<Rightarrow> (ethernet_header \<times> u8 list) option" where
  "parse_ethernet_frame data = (case ethernet_header_from_bytes data of
     None \<Rightarrow> None | Some header \<Rightarrow> Some (header, drop ETHER_HDR_SIZE data))"

definition build_ethernet_frame :: "mac \<Rightarrow> mac \<Rightarrow> u16 \<Rightarrow> u8 list \<Rightarrow> u8 list" where
  "build_ethernet_frame dst src ty payload = dst @ src @ u16_to_be_bytes ty @ payload"

definition build_ethernet_frame_with_header :: "mac \<Rightarrow> mac \<Rightarrow> u16 \<Rightarrow> nat \<Rightarrow> u8 list" where
  "build_ethernet_frame_with_header dst src ty payload_len =
     (let frame = dst @ src @ u16_to_be_bytes ty
      in take (ETHER_HDR_SIZE + payload_len) (frame @ replicate (ETHER_HDR_SIZE + payload_len - length frame) 0))"

section \<open>The header as a codec\<close>

definition eth_wf :: "ethernet_header \<Rightarrow> bool" where
  "eth_wf h \<longleftrightarrow> length (eth_dst_mac h) = 6 \<and> length (eth_src_mac h) = 6"

definition eth_bytes :: "ethernet_header \<Rightarrow> u8 list" where
  "eth_bytes h = build_ethernet_frame (eth_dst_mac h) (eth_src_mac h) (ether_type h) []"

lemma nth_third: "length a = 6 \<Longrightarrow> length b = 6 \<Longrightarrow> (a @ b @ x # y # r) ! 12 = x \<and> (a @ b @ x # y # r) ! 13 = y"
  by (simp add: nth_append)

interpretation eth: byte_codec eth_bytes ethernet_header_from_bytes "\<lambda>h. ETHER_HDR_SIZE" eth_wf "\<lambda>h. h"
proof
  fix h :: ethernet_header and rest
  assume wf: "eth_wf h"
  then show len: "length (eth_bytes h) = ETHER_HDR_SIZE"
    by (simp add: eth_wf_def eth_bytes_def build_ethernet_frame_def ETHER_HDR_SIZE_def)
  let ?d = "eth_bytes h @ rest"
  have "slice_of ?d 0 6 = eth_dst_mac h" "slice_of ?d 6 12 = eth_src_mac h"
    using wf by (simp_all add: slice_of_def eth_bytes_def build_ethernet_frame_def eth_wf_def)
  moreover have "?d ! 12 = ucast (drop_bit 8 (ether_type h))" "?d ! 13 = ucast (ether_type h)"
    using wf nth_third [of "eth_dst_mac h" "eth_src_mac h"]
    by (simp_all add: eth_bytes_def build_ethernet_frame_def u16_to_be_bytes eth_wf_def)
  ultimately show "ethernet_header_from_bytes ?d = Some h"
    using len by (simp add: ethernet_header_from_bytes_def)
qed

lemma parse_build_frame:
  assumes "length dst = 6" "length src = 6"
  shows "parse_ethernet_frame (build_ethernet_frame dst src ty payload)
    = Some (\<lparr>eth_dst_mac = dst, eth_src_mac = src, ether_type = ty\<rparr>, payload)"
proof -
  let ?h = "\<lparr>eth_dst_mac = dst, eth_src_mac = src, ether_type = ty\<rparr>"
  have "build_ethernet_frame dst src ty payload = eth_bytes ?h @ payload"
    by (simp add: eth_bytes_def build_ethernet_frame_def)
  moreover have "eth_wf ?h" using assms by (simp add: eth_wf_def)
  ultimately show ?thesis
    using eth.length_enc [of ?h] by (simp add: parse_ethernet_frame_def eth.dec_enc)
qed

text \<open>Every address is of exactly one of the three kinds.\<close>

lemma mac_kinds:
  assumes "length mac = 6"
  shows "is_unicast mac \<longleftrightarrow> \<not> (is_multicast mac \<or> is_broadcast mac)" "\<not> (is_multicast mac \<and> is_broadcast mac)"
proof -
  have "(ETHER_BROADCAST_MAC ! 0) AND 1 \<noteq> 0" by code_simp
  then show "is_unicast mac \<longleftrightarrow> \<not> (is_multicast mac \<or> is_broadcast mac)"
    by (auto simp: is_unicast_def is_multicast_def is_broadcast_def)
  show "\<not> (is_multicast mac \<and> is_broadcast mac)" by (simp add: is_multicast_def)
qed

end
