(* ===== verification/Fragmentation.thy ===== *)
theory Fragmentation
  imports Rust_Map "HOL-Library.Product_Lexorder" "HOL-Library.Multiset"
begin

text \<open>
  Fragmentation and reassembly of IPv4 datagrams, \<^verbatim>\<open>netstack/fragmentation.rs\<close>: the loop
  that cuts a payload into fragments, the reassembly buffers with their fragments in
  the order of their offsets, and the table of buffers.  The millisecond clock is an
  argument; a call of \<open>process_fragment\<close> may read it three times.
\<close>

section \<open>Cutting a payload\<close>

record fragment_stats =
  fragments_created :: u64
  fragments_received :: u64
  reassembled :: u64
  reassembly_timeouts :: u64
  reassembly_failures :: u64

definition fragment_stats_new :: fragment_stats where
  "fragment_stats_new = \<lparr>fragments_created = 0, fragments_received = 0, reassembled = 0,
     reassembly_timeouts = 0, reassembly_failures = 0\<rparr>"

text \<open>
  The loop makes no progress when the fragment size is 0; then it does not return,
  which is the value \<^const>\<open>None\<close>.
\<close>

partial_function (option) fragment_loop ::
  "u8 list \<Rightarrow> nat \<Rightarrow> nat \<Rightarrow> fragment_stats \<Rightarrow> (u8 list list \<times> fragment_stats) option" where
  "fragment_loop payload max_fragment_size offset stats =
     (if offset < length payload
      then let remaining = length payload - offset;
               fragment_size = min remaining max_fragment_size
           in Option.bind (fragment_loop payload max_fragment_size (offset + fragment_size)
                (stats\<lparr>fragments_created := fragments_created stats + 1\<rparr>))
              (\<lambda>(fragments, stats'). Some (slice_of payload offset (offset + fragment_size) # fragments, stats'))
      else Some ([], stats))"

declare fragment_loop.simps [code]

definition fragment_packet :: "u8 list \<Rightarrow> u64 \<Rightarrow> fragment_stats \<Rightarrow> (u8 list list \<times> fragment_stats) option" where
  "fragment_packet payload mtu stats =
     (let ip_header_size = 20; max_fragment_size = (mtu - ip_header_size) div 8 * 8
      in if length payload \<le> unat (mtu - ip_header_size) then Some ([payload], stats)
         else fragment_loop payload (unat max_fragment_size) 0 stats)"

section \<open>Reassembly buffers\<close>

definition MAX_FRAGMENTS_PER_PACKET :: nat where "MAX_FRAGMENTS_PER_PACKET = 64"
definition FRAGMENT_TIMEOUT_MS :: u64 where "FRAGMENT_TIMEOUT_MS = 60000"
definition MAX_REASSEMBLY_BUFFERS :: nat where "MAX_REASSEMBLY_BUFFERS = 32"

record fragment =
  fr_offset :: nat
  fr_data :: "u8 list"
  fr_timestamp :: u64

record reassembly_buffer =
  rb_src_ip :: u32
  rb_dst_ip :: u32
  rb_protocol :: u8
  rb_identification :: u16
  rb_fragments :: "(nat \<times> fragment) list"
  rb_total_length :: "nat option"
  rb_first_arrival :: u64

definition reassembly_buffer_new :: "u32 \<Rightarrow> u32 \<Rightarrow> u8 \<Rightarrow> u16 \<Rightarrow> u64 \<Rightarrow> reassembly_buffer" where
  "reassembly_buffer_new src dst proto ident now =
     \<lparr>rb_src_ip = src, rb_dst_ip = dst, rb_protocol = proto, rb_identification = ident,
      rb_fragments = [], rb_total_length = None, rb_first_arrival = now\<rparr>"

definition add_fragment :: "nat \<Rightarrow> u8 list \<Rightarrow> bool \<Rightarrow> u64 \<Rightarrow> reassembly_buffer \<Rightarrow> bool \<times> reassembly_buffer" where
  "add_fragment offset data is_last timestamp b =
     (if MAX_FRAGMENTS_PER_PACKET \<le> length (rb_fragments b) then (False, b)
      else let b1 = (if is_last then b\<lparr>rb_total_length := Some (offset + length data)\<rparr> else b)
           in (True, b1\<lparr>rb_fragments := bt_insert offset
                 \<lparr>fr_offset = offset, fr_data = data, fr_timestamp = timestamp\<rparr> (rb_fragments b1)\<rparr>))"

text \<open>The walk over the fragments: how far they reach without a gap.\<close>

fun covered_to :: "nat \<Rightarrow> (nat \<times> fragment) list \<Rightarrow> nat option" where
  "covered_to covered [] = Some covered"
| "covered_to covered ((offset, frag) # frags) =
     (if covered < offset then None else covered_to (max covered (offset + length (fr_data frag))) frags)"

definition is_complete :: "reassembly_buffer \<Rightarrow> bool" where
  "is_complete b = (case rb_total_length b of
     None \<Rightarrow> False
   | Some total_len \<Rightarrow>
       (case covered_to 0 (rb_fragments b) of None \<Rightarrow> False | Some covered \<Rightarrow> total_len \<le> covered))"

text \<open>Copying the fragments stops the program when one begins behind the end.\<close>

fun copy_fragments :: "nat \<Rightarrow> (nat \<times> fragment) list \<Rightarrow> u8 list \<Rightarrow> u8 list rust" where
  "copy_fragments total_len [] result = Inr result"
| "copy_fragments total_len ((offset, frag) # frags) result =
     (let fin = min (offset + length (fr_data frag)) total_len
      in if fin < offset then Inl IndexOutOfBounds
         else copy_fragments total_len frags (overwrite result offset (take (fin - offset) (fr_data frag))))"

definition reassemble :: "reassembly_buffer \<Rightarrow> u8 list option rust" where
  "reassemble b = (case rb_total_length b of
     None \<Rightarrow> Inr None
   | Some total_len \<Rightarrow>
       (case copy_fragments total_len (rb_fragments b) (replicate total_len 0) of
          Inl e \<Rightarrow> Inl e
        | Inr result \<Rightarrow> Inr (Some result)))"

definition is_expired :: "u64 \<Rightarrow> reassembly_buffer \<Rightarrow> bool" where
  "is_expired now b = (FRAGMENT_TIMEOUT_MS < (if now < rb_first_arrival b then 0 else now - rb_first_arrival b))"

section \<open>The table of buffers\<close>

type_synonym reassembly_key = "u32 \<times> u32 \<times> u8 \<times> u16"

record fragment_state =
  reassembly_buffers :: "(reassembly_key \<times> reassembly_buffer) list"
  fragment_counts :: fragment_stats

definition fragment_init :: fragment_state where
  "fragment_init = \<lparr>reassembly_buffers = [], fragment_counts = fragment_stats_new\<rparr>"

definition cleanup_expired_buffers :: "u64 \<Rightarrow> fragment_state \<Rightarrow> fragment_state" where
  "cleanup_expired_buffers now st =
     (let expired = map fst (filter (\<lambda>(k, b). is_expired now b) (reassembly_buffers st))
      in fold (\<lambda>key st. st\<lparr>reassembly_buffers := bt_remove key (reassembly_buffers st),
                fragment_counts := (fragment_counts st)
                  \<lparr>reassembly_timeouts := reassembly_timeouts (fragment_counts st) + 1\<rparr>\<rparr>)
           expired st)"

definition process_fragment ::
  "u64 \<times> u64 \<times> u64 \<Rightarrow> u32 \<Rightarrow> u32 \<Rightarrow> u8 \<Rightarrow> u16 \<Rightarrow> u16 \<Rightarrow> bool \<Rightarrow> u8 list \<Rightarrow> fragment_state \<Rightarrow>
     (u8 list option \<times> fragment_state) rust" where
  "process_fragment clocks src dst proto ident offset more_fragments data st =
     (let (t_cleanup, t_new, t_add) = clocks;
          key = (src, dst, proto, ident);
          byte_offset = unat offset * 8;
          st1 = st\<lparr>fragment_counts := (fragment_counts st)
                  \<lparr>fragments_received := fragments_received (fragment_counts st) + 1\<rparr>\<rparr>;
          st2 = (if MAX_REASSEMBLY_BUFFERS \<le> length (reassembly_buffers st1)
                 then cleanup_expired_buffers t_cleanup st1 else st1);
          b = (case map_of (reassembly_buffers st2) key of
                 Some b \<Rightarrow> b | None \<Rightarrow> reassembly_buffer_new src dst proto ident t_new);
          (added, b1) = add_fragment byte_offset data (\<not> more_fragments) t_add b;
          drop_key = bt_remove key (reassembly_buffers st2)
      in if \<not> added then
           Inr (None, st2\<lparr>reassembly_buffers := drop_key, fragment_counts := (fragment_counts st2)
             \<lparr>reassembly_failures := reassembly_failures (fragment_counts st2) + 1\<rparr>\<rparr>)
         else if is_complete b1 then
           (case reassemble b1 of
              Inl e \<Rightarrow> Inl e
            | Inr None \<Rightarrow> Inr (None, st2\<lparr>reassembly_buffers := drop_key\<rparr>)
            | Inr (Some result) \<Rightarrow> Inr (Some result, st2\<lparr>reassembly_buffers := drop_key,
                fragment_counts := (fragment_counts st2)
                  \<lparr>reassembled := reassembled (fragment_counts st2) + 1\<rparr>\<rparr>))
         else Inr (None, st2\<lparr>reassembly_buffers := bt_insert key b1 (reassembly_buffers st2)\<rparr>))"

definition fragment_cleanup :: "u64 \<Rightarrow> fragment_state \<Rightarrow> fragment_state" where
  "fragment_cleanup now st = cleanup_expired_buffers now st"

definition active_reassembly_count :: "fragment_state \<Rightarrow> nat" where
  "active_reassembly_count st = length (reassembly_buffers st)"

section \<open>The loop returns unless the fragment size is 0\<close>

lemma fragment_loop_total:
  assumes "0 < m" "off \<le> length p"
  shows "\<exists>fs stats'. fragment_loop p m off stats = Some (fs, stats') \<and> concat fs = drop off p
    \<and> (\<forall>f \<in> set fs. 0 < length f \<and> length f \<le> m) \<and> (\<forall>f \<in> set (butlast fs). length f = m)"
  using assms(2)
proof (induction "length p - off" arbitrary: off stats rule: less_induct)
  case less
  show ?case
  proof (cases "off < length p")
    case False
    then have "fragment_loop p m off stats = Some ([], stats)" by (simp add: fragment_loop.simps [of p m off])
    with False less.prems show ?thesis by auto
  next
    case True
    let ?size = "min (length p - off) m"
    let ?stats = "stats\<lparr>fragments_created := fragments_created stats + 1\<rparr>"
    have "length p - (off + ?size) < length p - off" "off + ?size \<le> length p"
      using True assms(1) by auto
    from less.hyps [OF this, of ?stats] obtain fs stats' where
      fs: "fragment_loop p m (off + ?size) ?stats = Some (fs, stats')" "concat fs = drop (off + ?size) p"
        "\<forall>f \<in> set fs. 0 < length f \<and> length f \<le> m" "\<forall>f \<in> set (butlast fs). length f = m" by blast
    let ?f = "slice_of p off (off + ?size)"
    have f: "length ?f = ?size" "?f @ drop (off + ?size) p = drop off p"
      using True append_take_drop_id [of ?size "drop off p"] by (simp_all add: slice_of_def add.commute)
    have "fragment_loop p m off stats = Some (?f # fs, stats')"
      using True fs(1) by (simp add: fragment_loop.simps [of p m off] Let_def)
    moreover have "length ?f = m" if "fs \<noteq> []"
    proof -
      have "concat fs \<noteq> []" using that fs(3) by (cases fs) auto
      then have "off + ?size < length p" using fs(2) by simp
      then show ?thesis using f(1) by linarith
    qed
    ultimately show ?thesis
      using fs(2-4) f True assms(1) by auto
  qed
qed

lemma fragment_loop_stuck:
  assumes "off < length p"
  shows "fragment_loop p 0 off stats = None"
proof -
  have "m = 0 \<longrightarrow> \<not> off < length p" if "fragment_loop p m off stats = Some r" for m r
  proof (rule fragment_loop.raw_induct [of "\<lambda>p m off stats r. m = 0 \<longrightarrow> \<not> off < length p", OF _ that])
    fix loop :: "u8 list \<Rightarrow> nat \<Rightarrow> nat \<Rightarrow> fragment_stats \<Rightarrow> (u8 list list \<times> fragment_stats) option"
    fix payload k offset st r
    assume IH: "\<And>payload k offset st r. loop payload k offset st = Some r \<Longrightarrow> k = 0 \<longrightarrow> \<not> offset < length payload"
    assume "(if offset < length payload
        then let remaining = length payload - offset; fragment_size = min remaining k
             in Option.bind (loop payload k (offset + fragment_size) (st\<lparr>fragments_created := fragments_created st + 1\<rparr>))
                 (\<lambda>(fragments, stats'). Some (slice_of payload offset (offset + fragment_size) # fragments, stats'))
        else Some ([], st)) = Some r"
    then show "k = 0 \<longrightarrow> \<not> offset < length payload"
      using IH [of payload k offset "st\<lparr>fragments_created := fragments_created st + 1\<rparr>"]
      by (cases "k = 0") (auto simp: Let_def bind_eq_Some_conv split: if_splits)
  qed
  with assms show ?thesis by (metis not_None_eq)
qed

section \<open>What a complete buffer holds\<close>

definition piece_of :: "u8 list \<Rightarrow> nat \<Rightarrow> u8 list \<Rightarrow> bool" where
  "piece_of p off d \<longleftrightarrow> off + length d \<le> length p \<and> d = slice_of p off (off + length d)"

definition pieces_of :: "u8 list \<Rightarrow> reassembly_buffer \<Rightarrow> bool" where
  "pieces_of p b \<longleftrightarrow> bt_ok (rb_fragments b) \<and> (\<forall>(off, f) \<in> set (rb_fragments b). piece_of p off (fr_data f))
     \<and> (rb_total_length b = None \<or> rb_total_length b = Some (length p))"

definition covers_byte :: "nat \<Rightarrow> (nat \<times> fragment) list \<Rightarrow> bool" where
  "covers_byte x fs \<longleftrightarrow> (\<exists>(off, f) \<in> set fs. off \<le> x \<and> x < off + length (fr_data f))"

lemma covers_byte_Cons [simp]:
  "covers_byte x ((off, f) # fs) \<longleftrightarrow> (off \<le> x \<and> x < off + length (fr_data f)) \<or> covers_byte x fs"
  by (simp add: covers_byte_def)

lemma covered_to_Some:
  "covered_to c fs = Some c' \<Longrightarrow> c \<le> c' \<and> (\<forall>x. c \<le> x \<and> x < c' \<longrightarrow> covers_byte x fs)
     \<and> (\<forall>x. covers_byte x fs \<longrightarrow> x < c')"
proof (induction c fs rule: covered_to.induct)
  case (1 c)
  then show ?case by (simp add: covers_byte_def)
next
  case (2 c off f fs)
  then have IH: "max c (off + length (fr_data f)) \<le> c'" "\<And>x. max c (off + length (fr_data f)) \<le> x \<Longrightarrow> x < c' \<Longrightarrow> covers_byte x fs"
    "\<And>x. covers_byte x fs \<Longrightarrow> x < c'" and "off \<le> c" by (auto split: if_splits)
  show ?case
  proof (intro conjI allI impI)
    fix x assume x: "c \<le> x \<and> x < c'"
    show "covers_byte x ((off, f) # fs)"
      using x IH(2) [of x] \<open>off \<le> c\<close> by (cases "x < off + length (fr_data f)") auto
  next
    fix x assume "covers_byte x ((off, f) # fs)"
    then show "x < c'" using IH by auto
  qed (use IH in simp)
qed

lemma covered_to_starts: "covered_to c fs = Some c' \<Longrightarrow> (start, f) \<in> set fs \<Longrightarrow> start \<le> c'"
proof (induction c fs rule: covered_to.induct)
  case (2 c off g fs)
  then have r: "off \<le> c" "covered_to (max c (off + length (fr_data g))) fs = Some c'" by (auto split: if_splits)
  moreover have "c \<le> c'" using covered_to_Some [OF r(2)] by simp
  ultimately show ?case using 2 by auto
qed simp

lemma covered_to_None:
  assumes "covered_to c fs = None" "sorted_wrt (<) (map fst fs)"
  shows "\<exists>x. c \<le> x \<and> \<not> covers_byte x fs \<and> (\<exists>(off, f) \<in> set fs. x < off)"
  using assms
proof (induction c fs rule: covered_to.induct)
  case (2 c off f fs)
  show ?case
  proof (cases "c < off")
    case True
    have "off < off'" if "(off', f') \<in> set fs" for off' f' using 2(3) that by force
    with True have "\<not> covers_byte c ((off, f) # fs)" by (fastforce simp: covers_byte_def)
    with True show ?thesis by auto
  next
    case False
    with 2(2) have n: "covered_to (max c (off + length (fr_data f))) fs = None" by simp
    have "sorted_wrt (<) (map fst fs)" using 2(3) by simp
    from 2(1) [OF False n this] obtain x where
      "max c (off + length (fr_data f)) \<le> x" "\<not> covers_byte x fs" "\<exists>(off, f) \<in> set fs. x < off" by blast
    then show ?thesis by (intro exI [of _ x]) auto
  qed
qed simp

lemma is_complete_iff:
  assumes "pieces_of p b"
  shows "is_complete b \<longleftrightarrow> rb_total_length b = Some (length p) \<and> (\<forall>x < length p. covers_byte x (rb_fragments b))"
proof (cases "covered_to 0 (rb_fragments b)")
  case None
  have "sorted_wrt (<) (map fst (rb_fragments b))" using assms by (simp add: pieces_of_def bt_ok_def)
  from covered_to_None [OF None this] obtain x off f where
    x: "\<not> covers_byte x (rb_fragments b)" "(off, f) \<in> set (rb_fragments b)" "x < off" by auto
  then have "x < length p" using assms by (fastforce simp: pieces_of_def piece_of_def)
  with x None show ?thesis by (auto simp: is_complete_def split: option.splits)
next
  case (Some c)
  from covered_to_Some [OF Some] have "\<forall>x. covers_byte x (rb_fragments b) \<longleftrightarrow> x < c" by auto
  moreover have "length p \<le> c \<longleftrightarrow> (\<forall>x < length p. x < c)" by (metis leI less_irrefl less_le_trans)
  ultimately show ?thesis
    using Some assms by (auto simp: is_complete_def pieces_of_def)
qed

lemma copy_fragments_pieces:
  assumes "\<forall>(off, f) \<in> set fs. piece_of p off (fr_data f)" "length r = length p"
  shows "\<exists>r'. copy_fragments (length p) fs r = Inr r' \<and> length r' = length p
    \<and> (\<forall>x < length p. r' ! x = (if covers_byte x fs then p ! x else r ! x))"
  using assms
proof (induction fs arbitrary: r)
  case (Cons a fs)
  obtain off f where a: "a = (off, f)" by fastforce
  let ?d = "fr_data f"
  have d: "off + length ?d \<le> length p" "?d = slice_of p off (off + length ?d)"
    using Cons.prems(1) by (auto simp: a piece_of_def)
  let ?r = "overwrite r off ?d"
  have len: "length ?r = length p" using d(1) Cons.prems(2) by simp
  have nth: "?r ! x = (if off \<le> x \<and> x < off + length ?d then p ! x else r ! x)" if "x < length p" for x
  proof -
    have "?d ! (x - off) = p ! x" if "off \<le> x" "x < off + length ?d"
      by (subst d(2)) (use that d(1) in \<open>simp add: slice_of_def\<close>)
    then show ?thesis
      using that d(1) Cons.prems(2) by (auto simp: overwrite_def nth_append)
  qed
  have "copy_fragments (length p) (a # fs) r = copy_fragments (length p) fs ?r"
    using d(1) by (simp add: a Let_def min_def)
  moreover obtain r' where "copy_fragments (length p) fs ?r = Inr r'" "length r' = length p"
    "\<forall>x < length p. r' ! x = (if covers_byte x fs then p ! x else ?r ! x)"
    using Cons.IH [OF _ len] Cons.prems(1) by auto
  ultimately show ?case by (auto simp: a nth)
qed (simp add: covers_byte_def)

lemma reassemble_pieces:
  assumes "pieces_of p b" "is_complete b"
  shows "reassemble b = Inr (Some p)"
proof -
  have t: "rb_total_length b = Some (length p)" and c: "\<forall>x < length p. covers_byte x (rb_fragments b)"
    using assms is_complete_iff by blast+
  have "\<forall>(off, f) \<in> set (rb_fragments b). piece_of p off (fr_data f)" using assms(1) by (simp add: pieces_of_def)
  from copy_fragments_pieces [OF this, of "replicate (length p) 0"] obtain r' where
    r: "copy_fragments (length p) (rb_fragments b) (replicate (length p) 0) = Inr r'" "length r' = length p"
      "\<forall>x < length p. r' ! x = p ! x" using c by auto
  then have "r' = p" by (simp add: nth_equalityI)
  with r(1) t show ?thesis by (simp add: reassemble_def)
qed

section \<open>Fragments received in any order\<close>

definition fragment_pos :: "u8 list list \<Rightarrow> nat \<Rightarrow> nat" where
  "fragment_pos fs j = length (concat (take j fs))"

lemma fragment_pos_Suc: "j < length fs \<Longrightarrow> fragment_pos fs (Suc j) = fragment_pos fs j + length (fs ! j)"
  by (simp add: fragment_pos_def take_Suc_conv_app_nth)

lemma fragment_pos_mono: "j \<le> k \<Longrightarrow> k \<le> length fs \<Longrightarrow> fragment_pos fs j \<le> fragment_pos fs k"
  by (induction k rule: dec_induct) (simp_all add: fragment_pos_Suc)

lemma fragment_pos_next: "j < k \<Longrightarrow> k \<le> length fs \<Longrightarrow> fragment_pos fs j + length (fs ! j) \<le> fragment_pos fs k"
  using fragment_pos_mono [of "Suc j" k fs] by (simp add: fragment_pos_Suc)

lemma fragment_pos_end: "fragment_pos fs (length fs) = length (concat fs)"
  by (simp add: fragment_pos_def)

lemma fragment_piece: "j < length fs \<Longrightarrow> piece_of (concat fs) (fragment_pos fs j) (fs ! j)"
proof -
  assume j: "j < length fs"
  have "concat fs = concat (take j fs) @ fs ! j @ concat (drop (Suc j) fs)"
    using arg_cong [OF id_take_nth_drop [OF j], of concat] by simp
  then show ?thesis
    by (simp add: piece_of_def slice_of_def fragment_pos_def)
qed

lemma fragment_pos_covers:
  "x < length (concat fs) \<Longrightarrow> \<exists>j < length fs. fragment_pos fs j \<le> x \<and> x < fragment_pos fs j + length (fs ! j)"
proof -
  have "k \<le> length fs \<Longrightarrow> x < fragment_pos fs k \<Longrightarrow>
      \<exists>j < k. fragment_pos fs j \<le> x \<and> x < fragment_pos fs j + length (fs ! j)" for k
  proof (induction k)
    case (Suc k)
    then show ?case
      by (cases "x < fragment_pos fs k") (auto simp: fragment_pos_Suc less_Suc_eq)
  qed (simp add: fragment_pos_def)
  then show "x < length (concat fs) \<Longrightarrow> ?thesis"
    by (simp add: fragment_pos_end)
qed

text \<open>
  \<open>holding fs J b\<close>: the buffer holds the fragments with the indices \<open>J\<close>, and knows the
  length once the last one is there.
\<close>

definition holding :: "u8 list list \<Rightarrow> nat set \<Rightarrow> reassembly_buffer \<Rightarrow> bool" where
  "holding fs J b \<longleftrightarrow> J \<subseteq> {..<length fs} \<and> bt_ok (rb_fragments b)
     \<and> (\<lambda>(off, f). (off, fr_data f)) ` set (rb_fragments b) = (\<lambda>j. (fragment_pos fs j, fs ! j)) ` J
     \<and> rb_total_length b = (if length fs - 1 \<in> J then Some (length (concat fs)) else None)"

lemma holding_pieces:
  assumes "holding fs J b"
  shows "pieces_of (concat fs) b"
proof -
  have "piece_of (concat fs) off (fr_data f)" if "(off, f) \<in> set (rb_fragments b)" for off f
  proof -
    have "(off, fr_data f) \<in> (\<lambda>(off, f). (off, fr_data f)) ` set (rb_fragments b)" using that by force
    then obtain j where "j \<in> J" "off = fragment_pos fs j" "fr_data f = fs ! j"
      using assms unfolding holding_def by auto
    then show ?thesis using fragment_piece [of j fs] assms by (auto simp: holding_def)
  qed
  then show ?thesis using assms by (auto simp: holding_def pieces_of_def)
qed

lemma holding_covers:
  assumes "holding fs J b"
  shows "covers_byte x (rb_fragments b) \<longleftrightarrow> (\<exists>j \<in> J. fragment_pos fs j \<le> x \<and> x < fragment_pos fs j + length (fs ! j))"
proof -
  have "covers_byte x (rb_fragments b) \<longleftrightarrow>
      (\<exists>(off, d) \<in> (\<lambda>(off, f). (off, fr_data f)) ` set (rb_fragments b). off \<le> x \<and> x < off + length d)"
    unfolding covers_byte_def bex_simps(7) by (simp add: case_prod_unfold)
  also have "(\<lambda>(off, f). (off, fr_data f)) ` set (rb_fragments b) = (\<lambda>j. (fragment_pos fs j, fs ! j)) ` J"
    using assms by (simp add: holding_def)
  finally show ?thesis by simp
qed

lemma fragment_not_empty: "[] \<notin> set fs \<Longrightarrow> j < length fs \<Longrightarrow> 0 < length (fs ! j)"
  by (metis length_greater_0_conv nth_mem)

lemma holding_complete:
  assumes h: "holding fs J b" and ne: "1 < length fs \<longrightarrow> [] \<notin> set fs" and J: "J \<noteq> {}"
  shows "is_complete b \<longleftrightarrow> J = {..<length fs}"
proof
  assume all: "J = {..<length fs}"
  have "rb_total_length b = Some (length (concat fs))"
    using h J all by (auto simp: holding_def)
  moreover have "\<exists>j \<in> J. fragment_pos fs j \<le> x \<and> x < fragment_pos fs j + length (fs ! j)"
    if "x < length (concat fs)" for x
    using fragment_pos_covers [OF that] all by blast
  ultimately show "is_complete b"
    unfolding is_complete_iff [OF holding_pieces [OF h]] holding_covers [OF h] by blast
next
  assume c: "is_complete b"
  have sub: "J \<subseteq> {..<length fs}" using h by (simp add: holding_def)
  have "j \<in> J" if j: "j < length fs" for j
  proof (cases "length fs = 1")
    case True
    with sub J j show ?thesis by force
  next
    case False
    with j ne have "0 < length (fs ! j)" using fragment_not_empty [of fs j] by linarith
    then have "fragment_pos fs j < length (concat fs)"
      using fragment_pos_next [OF j order_refl] unfolding fragment_pos_end by linarith
    with c obtain k where k: "k \<in> J" "fragment_pos fs k \<le> fragment_pos fs j"
      "fragment_pos fs j < fragment_pos fs k + length (fs ! k)"
      unfolding is_complete_iff [OF holding_pieces [OF h]] holding_covers [OF h] by blast
    have "\<not> j < k" using fragment_pos_next [of j k fs] k(1,2) sub \<open>0 < length (fs ! j)\<close> by auto
    moreover have "\<not> k < j" using fragment_pos_next [of k j fs] k(3) j by auto
    ultimately show ?thesis using k(1) by (metis linorder_neqE_nat)
  qed
  with sub show "J = {..<length fs}" by auto
qed

lemma holding_add:
  assumes h: "holding fs J b" and j: "j < length fs" "j \<notin> J" and ne: "1 < length fs \<longrightarrow> [] \<notin> set fs"
    and n: "length fs \<le> MAX_FRAGMENTS_PER_PACKET"
  shows "\<exists>b'. add_fragment (fragment_pos fs j) (fs ! j) (\<not> Suc j < length fs) t b = (True, b') \<and> holding fs (insert j J) b'"
proof -
  have sub: "J \<subseteq> {..<length fs}" and ok: "bt_ok (rb_fragments b)"
    and im: "(\<lambda>(off, f). (off, fr_data f)) ` set (rb_fragments b) = (\<lambda>j. (fragment_pos fs j, fs ! j)) ` J"
    using h by (simp_all add: holding_def)
  have keys: "fst ` set (rb_fragments b) = fragment_pos fs ` J"
    using arg_cong [OF im, of "image fst"] by (simp add: image_image case_prod_unfold)
  have pos: "fragment_pos fs k \<noteq> fragment_pos fs j" if "k \<in> J" for k
  proof -
    have k: "k < length fs" "k \<noteq> j" using that sub j(2) by auto
    with j(1) have "1 < length fs" by linarith
    with ne have "[] \<notin> set fs" by simp
    then have "0 < length (fs ! k)" "0 < length (fs ! j)"
      using fragment_not_empty [of fs k] fragment_not_empty [of fs j] k(1) j(1) by blast+
    then show ?thesis
      using fragment_pos_next [of k j fs] fragment_pos_next [of j k fs] k j(1) by (cases "k < j") auto
  qed
  have "length (rb_fragments b) = card (fst ` set (rb_fragments b))"
    using bt_distinct [OF ok] by (metis distinct_card length_map set_map)
  also have "\<dots> \<le> card J" unfolding keys using sub by (intro card_image_le) (auto intro: finite_subset)
  also have "\<dots> < card {..<length fs}" using sub j by (intro psubset_card_mono) auto
  finally have room: "\<not> MAX_FRAGMENTS_PER_PACKET \<le> length (rb_fragments b)" using n by simp
  let ?b = "(if \<not> Suc j < length fs then b\<lparr>rb_total_length := Some (fragment_pos fs j + length (fs ! j))\<rparr> else b)"
  let ?f = "\<lparr>fr_offset = fragment_pos fs j, fr_data = fs ! j, fr_timestamp = t\<rparr>"
  let ?b' = "?b\<lparr>rb_fragments := bt_insert (fragment_pos fs j) ?f (rb_fragments ?b)\<rparr>"
  have add: "add_fragment (fragment_pos fs j) (fs ! j) (\<not> Suc j < length fs) t b = (True, ?b')"
    using room by (simp add: add_fragment_def Let_def)
  have frs: "rb_fragments ?b' = bt_insert (fragment_pos fs j) ?f (rb_fragments b)" by simp
  have "fragment_pos fs j \<notin> fst ` set (rb_fragments b)" unfolding keys using pos by (metis imageE)
  then have "set (rb_fragments ?b') = insert (fragment_pos fs j, ?f) (set (rb_fragments b))"
    unfolding frs using in_set_bt_insert [OF ok] by force
  then have "(\<lambda>(off, f). (off, fr_data f)) ` set (rb_fragments ?b')
      = insert (fragment_pos fs j, fs ! j) ((\<lambda>j. (fragment_pos fs j, fs ! j)) ` J)"
    using im by simp
  moreover have "rb_total_length ?b' = (if length fs - 1 \<in> insert j J then Some (length (concat fs)) else None)"
  proof (cases "Suc j < length fs")
    case True
    then show ?thesis using h by (auto simp: holding_def)
  next
    case False
    then have "length fs = Suc j" using j(1) by simp
    then show ?thesis using fragment_pos_Suc [OF j(1)] fragment_pos_end [of fs] by simp
  qed
  ultimately have "holding fs (insert j J) ?b'"
    using sub j(1) bt_ok_insert [OF ok] by (simp add: holding_def)
  with add show ?thesis by blast
qed

lemma any_order:
  assumes "mset js = mset [0..<n]"
  shows "distinct js" "set js = {..<n}" "length js = n"
proof -
  show "distinct js" using mset_eq_imp_distinct_iff [OF assms] by simp
  show "set js = {..<n}" using mset_eq_setD [OF assms] by (simp only: set_upt atLeast0LessThan)
  show "length js = n" using mset_eq_length [OF assms] by simp
qed

text \<open>Receiving a list of fragments of one datagram.\<close>

fun process_fragments ::
  "u32 \<Rightarrow> u32 \<Rightarrow> u8 \<Rightarrow> u16 \<Rightarrow> ((u64 \<times> u64 \<times> u64) \<times> u16 \<times> bool \<times> u8 list) list \<Rightarrow> fragment_state \<Rightarrow>
     (u8 list option list \<times> fragment_state) rust" where
  "process_fragments src dst proto ident [] st = Inr ([], st)"
| "process_fragments src dst proto ident ((clocks, offset, mf, data) # ps) st =
     (case process_fragment clocks src dst proto ident offset mf data st of
        Inl e \<Rightarrow> Inl e
      | Inr (r, st') \<Rightarrow>
          (case process_fragments src dst proto ident ps st' of Inl e \<Rightarrow> Inl e | Inr (rs, st'') \<Rightarrow> Inr (r # rs, st'')))"

definition receiving ::
  "reassembly_key \<Rightarrow> (reassembly_key \<times> reassembly_buffer) list \<Rightarrow> u8 list list \<Rightarrow> nat set \<Rightarrow> fragment_state \<Rightarrow> bool" where
  "receiving key B fs J st \<longleftrightarrow> (J = {} \<and> reassembly_buffers st = B)
     \<or> (\<exists>b. holding fs J b \<and> reassembly_buffers st = bt_insert key b B)"

lemma holding_new: "holding fs {} (reassembly_buffer_new src dst proto ident now)"
  by (simp add: holding_def reassembly_buffer_new_def bt_ok_def)

lemma process_fragment_step:
  assumes B: "bt_ok B" "map_of B (src, dst, proto, ident) = None" "Suc (length B) < MAX_REASSEMBLY_BUFFERS"
    and rec: "receiving (src, dst, proto, ident) B fs J st"
    and j: "j < length fs" "j \<notin> J" and ne: "1 < length fs \<longrightarrow> [] \<notin> set fs" and n: "length fs \<le> MAX_FRAGMENTS_PER_PACKET"
    and off: "unat offset * 8 = fragment_pos fs j"
  shows "\<exists>st'. process_fragment clocks src dst proto ident offset (Suc j < length fs) (fs ! j) st =
      Inr (if insert j J = {..<length fs} then Some (concat fs) else None, st')
    \<and> (if insert j J = {..<length fs} then reassembly_buffers st' = B
       else receiving (src, dst, proto, ident) B fs (insert j J) st')"
proof -
  let ?key = "(src, dst, proto, ident)"
  obtain t1 t2 t3 where c: "clocks = (t1, t2, t3)" by (cases clocks)
  let ?b = "case map_of (reassembly_buffers st) ?key of Some b \<Rightarrow> b | None \<Rightarrow> reassembly_buffer_new src dst proto ident t2"
  have few: "length (reassembly_buffers st) < MAX_REASSEMBLY_BUFFERS"
    using rec B(3) length_bt_insert [OF B(2)] by (auto simp: receiving_def)
  have b: "holding fs J ?b"
    using rec B(1,2) holding_new by (auto simp: receiving_def bt_get_insert)
  have rm: "bt_remove ?key (reassembly_buffers st) = B"
    using rec B(2) by (auto simp: receiving_def bt_remove_insert bt_remove_none)
  have ins: "bt_insert ?key b' (reassembly_buffers st) = bt_insert ?key b' B" for b'
    using rec B(1) by (auto simp: receiving_def bt_insert_insert)
  from holding_add [OF b j ne n, of t3] obtain b' where
    add: "add_fragment (fragment_pos fs j) (fs ! j) (\<not> Suc j < length fs) t3 ?b = (True, b')"
    and b': "holding fs (insert j J) b'" by blast
  have compl: "is_complete b' \<longleftrightarrow> insert j J = {..<length fs}"
    by (rule holding_complete [OF b' ne]) simp
  note defs = process_fragment_def c Let_def few [simplified not_le [symmetric]] off add
  show ?thesis
  proof (cases "insert j J = {..<length fs}")
    case True
    with compl reassemble_pieces [OF holding_pieces [OF b']] have "reassemble b' = Inr (Some (concat fs))" by simp
    with True compl show ?thesis by (simp add: defs rm)
  next
    case False
    with compl b' show ?thesis by (auto simp: defs ins receiving_def)
  qed
qed

lemma process_fragments_rest:
  assumes B: "bt_ok B" "map_of B (src, dst, proto, ident) = None" "Suc (length B) < MAX_REASSEMBLY_BUFFERS"
    and ne: "1 < length fs \<longrightarrow> [] \<notin> set fs" and n: "length fs \<le> MAX_FRAGMENTS_PER_PACKET"
    and off: "\<And>j. j < length fs \<Longrightarrow> unat (offs j) * 8 = fragment_pos fs j"
    and js: "js \<noteq> []" "distinct js" "set js \<inter> J = {}" "set js \<union> J = {..<length fs}"
    and rec: "receiving (src, dst, proto, ident) B fs J st"
  shows "\<exists>st'. process_fragments src dst proto ident
      (map (\<lambda>j. (clocks j, offs j, Suc j < length fs, fs ! j)) js) st
    = Inr (replicate (length js - 1) None @ [Some (concat fs)], st') \<and> reassembly_buffers st' = B"
  using js rec
proof (induction js arbitrary: J st)
  case (Cons j js)
  have j: "j < length fs" "j \<notin> J" using Cons.prems(3,4) by auto
  have last: "insert j J = {..<length fs} \<longleftrightarrow> js = []"
  proof (cases js)
    case Nil
    then show ?thesis using Cons.prems(4) by simp
  next
    case (Cons k ks)
    then have "k \<in> {..<length fs}" "k \<notin> insert j J"
      using Cons.prems(2-4) by auto
    with Cons show ?thesis by blast
  qed
  from process_fragment_step [OF B Cons.prems(5) j ne n off [OF j(1)], of "clocks j"] obtain st' where
    st': "process_fragment (clocks j) src dst proto ident (offs j) (Suc j < length fs) (fs ! j) st =
      Inr (if js = [] then Some (concat fs) else None, st')"
      "if js = [] then reassembly_buffers st' = B else receiving (src, dst, proto, ident) B fs (insert j J) st'"
    unfolding last by blast
  show ?case
  proof (cases js)
    case Nil
    with st' show ?thesis by simp
  next
    case ne: (Cons k ks)
    have "set js \<inter> insert j J = {}" "set js \<union> insert j J = {..<length fs}" "distinct js"
      using Cons.prems(2-4) by auto
    with ne st'(2) Cons.IH [of "insert j J" st'] obtain st'' where
      "process_fragments src dst proto ident (map (\<lambda>j. (clocks j, offs j, Suc j < length fs, fs ! j)) js) st'
        = Inr (replicate (length js - 1) None @ [Some (concat fs)], st'')" "reassembly_buffers st'' = B" by auto
    with ne st'(1) show ?thesis by simp
  qed
qed simp

section \<open>The fragments of a payload\<close>

lemma unat_fragment_size: "unat ((mtu - 20) div 8 * 8 :: u64) = unat (mtu - 20) div 8 * 8"
proof -
  have "unat (mtu - 20) div 8 * 8 \<le> unat (mtu - 20)" by simp
  also have "\<dots> < 2 ^ 64" using unsigned_less [of "mtu - 20", where ?'a = nat] by simp
  finally show ?thesis by (simp add: unat_word_ariths unat_div)
qed

lemma fragment_packet_spec:
  assumes "length p \<le> unat (mtu - 20) \<or> 8 \<le> unat (mtu - 20)"
  shows "\<exists>fs stats'. fragment_packet p mtu stats = Some (fs, stats') \<and> concat fs = p \<and> fs \<noteq> []
    \<and> (1 < length fs \<longrightarrow> [] \<notin> set fs) \<and> (\<forall>f \<in> set fs. length f \<le> unat (mtu - 20))
    \<and> (\<forall>f \<in> set (butlast fs). length f = unat (mtu - 20) div 8 * 8)"
proof (cases "length p \<le> unat (mtu - 20)")
  case True
  then show ?thesis by (simp add: fragment_packet_def)
next
  case False
  let ?m = "unat (mtu - 20) div 8 * 8"
  have m: "0 < ?m" "?m \<le> unat (mtu - 20)" using False assms by auto
  from fragment_loop_total [OF m(1), of 0 p stats] obtain fs stats' where
    fs: "fragment_loop p ?m 0 stats = Some (fs, stats')" "concat fs = p"
      "\<forall>f \<in> set fs. 0 < length f \<and> length f \<le> ?m" "\<forall>f \<in> set (butlast fs). length f = ?m" by auto
  have "fragment_packet p mtu stats = Some (fs, stats')"
    using False fs(1) by (simp add: fragment_packet_def Let_def unat_fragment_size)
  moreover have "fs \<noteq> []" using False fs(2) by auto
  moreover have "[] \<notin> set fs" using fs(3) by (metis length_0_conv less_irrefl)
  moreover have "\<forall>f \<in> set fs. length f \<le> unat (mtu - 20)" using fs(3) m(2) order_trans by blast
  ultimately show ?thesis using fs(2,4) by blast
qed

lemma fragment_packet_stuck:
  assumes "unat (mtu - 20) < length p" "unat (mtu - 20) < 8"
  shows "fragment_packet p mtu stats = None"
proof -
  have "unat ((mtu - 20) div 8 * 8 :: u64) = 0" using assms(2) unat_fragment_size [of mtu] by simp
  moreover have "fragment_loop p 0 0 stats = None" by (rule fragment_loop_stuck) (use assms(1) in linarith)
  ultimately show ?thesis using assms by (simp add: fragment_packet_def Let_def)
qed

lemma unat_minus_20: "unat (mtu - 20 :: u64) < 8 \<longleftrightarrow> 20 \<le> mtu \<and> mtu < 28"
proof (cases "20 \<le> mtu")
  case True
  then have "unat (mtu - 20) = unat mtu - 20" by (simp add: unat_sub)
  moreover have "20 \<le> unat mtu" using True by (simp add: word_le_nat_alt)
  ultimately show ?thesis using True by (auto simp: word_less_nat_alt)
next
  case False
  then have "unat mtu < 20" by (simp add: word_le_nat_alt)
  then have "unat (mtu - 20) = unat mtu + (2 ^ 64 - 20)" by (simp add: unat_word_ariths unat_sub_if' word_le_nat_alt)
  with False show ?thesis by simp
qed

lemma fragment_pos_dvd:
  assumes "\<forall>f \<in> set (butlast fs). 8 dvd length f" "j < length fs"
  shows "8 dvd fragment_pos fs j"
  using assms(2)
proof (induction j)
  case (Suc j)
  then have "j < length (butlast fs)" "butlast fs ! j = fs ! j" by (simp_all add: nth_butlast)
  then have "fs ! j \<in> set (butlast fs)" using nth_mem by metis
  with Suc assms(1) show ?case by (simp add: fragment_pos_Suc)
qed (simp add: fragment_pos_def)

text \<open>The offset field of the \<open>j\<close>-th fragment, in units of eight bytes.\<close>

definition fragment_units :: "u8 list list \<Rightarrow> nat \<Rightarrow> u16" where
  "fragment_units fs j = of_nat (fragment_pos fs j div 8)"

lemma fragment_units_pos:
  assumes "\<forall>f \<in> set (butlast fs). 8 dvd length f" "length (concat fs) < 2 ^ 19" "j < length fs"
  shows "unat (fragment_units fs j) * 8 = fragment_pos fs j"
proof -
  have "fragment_pos fs j \<le> length (concat fs)"
    using fragment_pos_mono [of j "length fs" fs] assms(3) by (simp add: fragment_pos_end)
  then have "fragment_pos fs j div 8 < 65536" using assms(2) by simp
  then have "unat (fragment_units fs j) = fragment_pos fs j div 8" unfolding fragment_units_def by simp
  then show ?thesis using fragment_pos_dvd [OF assms(1,3)] by simp
qed

section \<open>When reassembly panics\<close>

text \<open>The states that receiving fragments and cleaning up lead to.\<close>

inductive fragment_run :: "fragment_state \<Rightarrow> bool" where
  start: "fragment_run fragment_init"
| receive: "fragment_run st \<Longrightarrow> process_fragment clocks src dst proto ident offset mf data st = Inr (r, st') \<Longrightarrow>
    fragment_run st'"
| cleanup: "fragment_run st \<Longrightarrow> fragment_run (fragment_cleanup now st)"

lemma cleanup_buffers: "set (reassembly_buffers (cleanup_expired_buffers now st)) \<subseteq> set (reassembly_buffers st)"
proof -
  have "set (reassembly_buffers (fold (\<lambda>key st. st\<lparr>reassembly_buffers := bt_remove key (reassembly_buffers st),
      fragment_counts := (fragment_counts st)\<lparr>reassembly_timeouts := reassembly_timeouts (fragment_counts st) + 1\<rparr>\<rparr>) ks st))
    \<subseteq> set (reassembly_buffers st)" for ks
    by (induction ks arbitrary: st) (fastforce simp: bt_remove_def)+
  then show ?thesis by (simp add: cleanup_expired_buffers_def Let_def)
qed

lemma set_bt_insert_subset: "set (bt_insert k v m) \<subseteq> insert (k, v) (set m)"
  by (induction k v m rule: bt_insert.induct) auto

lemma fragment_run_ok: "fragment_run st \<Longrightarrow> \<forall>(k, b) \<in> set (reassembly_buffers st). bt_ok (rb_fragments b)"
proof (induction rule: fragment_run.induct)
  case (receive st clocks src dst proto ident offset mf data r st')
  obtain t1 t2 t3 where c: "clocks = (t1, t2, t3)" by (cases clocks) auto
  let ?key = "(src, dst, proto, ident)"
  define st2 where "st2 = (let st1 = st\<lparr>fragment_counts := (fragment_counts st)
      \<lparr>fragments_received := fragments_received (fragment_counts st) + 1\<rparr>\<rparr>
    in if MAX_REASSEMBLY_BUFFERS \<le> length (reassembly_buffers st1) then cleanup_expired_buffers t1 st1 else st1)"
  define b where "b = (case map_of (reassembly_buffers st2) ?key of
      Some b \<Rightarrow> b | None \<Rightarrow> reassembly_buffer_new src dst proto ident t2)"
  define b1 where "b1 = snd (add_fragment (unat offset * 8) data (\<not> mf) t3 b)"
  have "set (reassembly_buffers st2) \<subseteq> set (reassembly_buffers st)"
    using cleanup_buffers [of t1 "st\<lparr>fragment_counts := (fragment_counts st)
      \<lparr>fragments_received := fragments_received (fragment_counts st) + 1\<rparr>\<rparr>"]
    by (simp add: st2_def Let_def)
  then have ok2: "\<forall>(k, b) \<in> set (reassembly_buffers st2). bt_ok (rb_fragments b)" using receive.IH by blast
  then have "bt_ok (rb_fragments b)"
    unfolding b_def by (auto simp: reassembly_buffer_new_def bt_ok_def split: option.splits dest: map_of_SomeD)
  then have "bt_ok (rb_fragments b1)" by (simp add: b1_def add_fragment_def Let_def bt_ok_insert)
  moreover have "set (reassembly_buffers st') \<subseteq> insert (?key, b1) (set (reassembly_buffers st2))"
    using receive.hyps(2) set_bt_insert_subset [of ?key b1 "reassembly_buffers st2"]
    unfolding process_fragment_def c st2_def [symmetric] Let_def
    by (auto simp: b_def b1_def st2_def Let_def bt_remove_def split: if_splits prod.splits sum.splits option.splits)
  ultimately show ?case using ok2 by blast
next
  case (cleanup st now)
  then show ?case using cleanup_buffers [of now st] by (auto simp: fragment_cleanup_def)
qed (simp add: fragment_init_def)

lemma fragment_run_list:
  "fragment_run st \<Longrightarrow> process_fragments src dst proto ident ps st = Inr (rs, st') \<Longrightarrow> fragment_run st'"
  by (induction src dst proto ident ps st arbitrary: rs rule: process_fragments.induct)
    (fastforce split: sum.splits prod.splits dest: fragment_run.receive)+

lemma process_fragments_append:
  "process_fragments src dst proto ident (ps @ qs) st =
     (case process_fragments src dst proto ident ps st of
        Inl e \<Rightarrow> Inl e
      | Inr (rs, st') \<Rightarrow> (case process_fragments src dst proto ident qs st' of
          Inl e \<Rightarrow> Inl e | Inr (rs', st'') \<Rightarrow> Inr (rs @ rs', st'')))"
  by (induction src dst proto ident ps st rule: process_fragments.induct)
    (auto split: sum.splits prod.splits)

lemma copy_fragments_panics:
  "copy_fragments fin_len fs r = Inl e \<longleftrightarrow> e = IndexOutOfBounds \<and> (\<exists>(start, f) \<in> set fs. fin_len < start)"
  by (induction fin_len fs r rule: copy_fragments.induct) (auto simp: Let_def min_def)

lemma no_gap_covered:
  assumes "bt_ok fs"
  shows "covered_to 0 fs \<noteq> None \<longleftrightarrow> (\<forall>(start, f) \<in> set fs. \<forall>x < start. covers_byte x fs)"
proof (cases "covered_to 0 fs")
  case None
  then show ?thesis using covered_to_None [OF None] assms by (fastforce simp: bt_ok_def)
next
  case (Some c)
  have "start \<le> c" if "(start, f) \<in> set fs" for start f
    using covered_to_starts [OF Some that] .
  then show ?thesis using covered_to_Some [OF Some] Some by fastforce
qed

lemma complete_panics:
  assumes "bt_ok (rb_fragments b)"
  shows "is_complete b \<and> reassemble b = Inl e \<longleftrightarrow> e = IndexOutOfBounds
    \<and> (\<exists>fin_len. rb_total_length b = Some fin_len \<and> (\<exists>(start, f) \<in> set (rb_fragments b). fin_len < start)
        \<and> (\<forall>(start, f) \<in> set (rb_fragments b). \<forall>x < start. covers_byte x (rb_fragments b)))"
proof (cases "rb_total_length b")
  case (Some fin_len)
  have p: "reassemble b = Inl e \<longleftrightarrow> e = IndexOutOfBounds \<and> (\<exists>(start, f) \<in> set (rb_fragments b). fin_len < start)"
    using copy_fragments_panics [of fin_len "rb_fragments b" "replicate fin_len 0" e]
    by (auto simp: reassemble_def Some split: sum.splits)
  have "is_complete b \<longleftrightarrow> covered_to 0 (rb_fragments b) \<noteq> None"
    if "\<exists>(start, f) \<in> set (rb_fragments b). fin_len < start"
    using that covered_to_starts by (fastforce simp: is_complete_def Some split: option.splits)
  then show ?thesis using p no_gap_covered [OF assms] Some by auto
qed (simp add: is_complete_def reassemble_def)

section \<open>Properties\<close>

text \<open>
  C12: Cutting a payload into fragments returns for every payload and every MTU except an
  MTU from 20 to 27 that the payload does not fit into: there the fragment size is 0 and
  the loop runs forever.
\<close>

theorem fragment_packet_returns:
  "(\<exists>r. fragment_packet p mtu stats = Some r) \<longleftrightarrow> \<not> (20 \<le> mtu \<and> mtu < 28 \<and> unat (mtu - 20) < length p)"
proof (cases "unat (mtu - 20) < length p \<and> unat (mtu - 20) < 8")
  case True
  then have "fragment_packet p mtu stats = None" by (simp add: fragment_packet_stuck)
  with True show ?thesis by (simp flip: unat_minus_20)
next
  case False
  then have "length p \<le> unat (mtu - 20) \<or> 8 \<le> unat (mtu - 20)" by linarith
  from fragment_packet_spec [OF this, of stats] have "\<exists>r. fragment_packet p mtu stats = Some r" by blast
  with False show ?thesis using unat_minus_20 [of mtu] by blast
qed

text \<open>
  C10: The fragments of a payload, received in any order, give the payload back: every
  call but the last returns nothing, the last returns exactly the payload, and the table
  of buffers is as before.  There may be at most 64 fragments, the offsets must fit their
  field, no buffer may be in use under the key of the datagram, and the table must hold
  fewer than 31 other buffers, so that no call cleans up.
\<close>

theorem fragments_reassemble:
  assumes "fragment_packet p mtu stats = Some (fs, stats')" "length fs \<le> MAX_FRAGMENTS_PER_PACKET" "length p < 2 ^ 19"
    and "mset js = mset [0..<length fs]"
    and "bt_ok (reassembly_buffers st)" "map_of (reassembly_buffers st) (src, dst, proto, ident) = None"
      "Suc (length (reassembly_buffers st)) < MAX_REASSEMBLY_BUFFERS"
  shows "\<exists>st'. process_fragments src dst proto ident
      (map (\<lambda>j. (clocks j, fragment_units fs j, Suc j < length fs, fs ! j)) js) st
    = Inr (replicate (length fs - 1) None @ [Some p], st') \<and> reassembly_buffers st' = reassembly_buffers st"
proof -
  have "\<not> (unat (mtu - 20) < length p \<and> unat (mtu - 20) < 8)"
    using assms(1) fragment_packet_stuck [of mtu p stats] by auto
  then have fit: "length p \<le> unat (mtu - 20) \<or> 8 \<le> unat (mtu - 20)" by linarith
  have fs: "concat fs = p" "fs \<noteq> []" "1 < length fs \<longrightarrow> [] \<notin> set fs" "\<forall>f \<in> set (butlast fs). 8 dvd length f"
    using fragment_packet_spec [OF fit, of stats] assms(1) by force+
  note js = any_order [OF assms(4)]
  have "js \<noteq> []" using js(3) fs(2) by auto
  then show ?thesis
    using process_fragments_rest [OF assms(5-7) fs(3) assms(2) fragment_units_pos [OF fs(4)], of js "{}"]
      js fs(1) assms(3) by (auto simp: receiving_def)
qed

theorem fragments_reassemble_witness:
  "\<exists>st'. process_fragments 1 2 17 5
      [((0, 0, 0), 2, False, [9]), ((0, 0, 0), 0, True, replicate 8 7), ((0, 0, 0), 1, True, replicate 8 8)] fragment_init
    = Inr ([None, None, Some (replicate 8 7 @ replicate 8 8 @ [9])], st')"
proof -
  define fs :: "u8 list list" where "fs = [replicate 8 7, replicate 8 8, [9]]"
  have f: "fragment_packet (replicate 8 7 @ replicate 8 8 @ [9]) 28 fragment_stats_new
      = Some (fs, fragment_stats_new\<lparr>fragments_created := 3\<rparr>)"
    unfolding fs_def by code_simp
  have "\<exists>st'. process_fragments 1 2 17 5 (map (\<lambda>j. ((0, 0, 0), fragment_units fs j, Suc j < length fs, fs ! j)) [2, 0, 1])
      fragment_init = Inr (replicate (length fs - 1) None @ [Some (replicate 8 7 @ replicate 8 8 @ [9])], st')
    \<and> reassembly_buffers st' = reassembly_buffers fragment_init"
    by (rule fragments_reassemble [OF f])
      (simp_all add: fs_def MAX_FRAGMENTS_PER_PACKET_def MAX_REASSEMBLY_BUFFERS_def fragment_init_def bt_ok_def upt_rec)
  moreover have "map (\<lambda>j. ((0 :: u64, 0 :: u64, 0 :: u64), fragment_units fs j, Suc j < length fs, fs ! j)) [2, 0, 1]
      = [((0, 0, 0), 2, False, [9]), ((0, 0, 0), 0, True, replicate 8 7), ((0, 0, 0), 1, True, replicate 8 8)]"
    unfolding fs_def by code_simp
  moreover have "replicate (length fs - 1) None @ [Some xs] = [None, None, Some xs]" for xs :: "u8 list"
    by (simp add: fs_def)
  ultimately show ?thesis by (simp only:) blast
qed

text \<open>
  C39: When reassembly stops the kernel.  In every state the fragment routine can reach, with
  a buffer for the key and fewer than 32 buffers, receiving a fragment panics exactly when
  the buffer has room for it, the end of the datagram is known (from this fragment, if it
  is a last one), the fragments then held leave no gap before any of them, and one of them
  starts behind that end; the panic is an index out of range.
\<close>

theorem reassembly_panics_iff:
  assumes "fragment_run st" "map_of (reassembly_buffers st) (src, dst, proto, ident) = Some b"
    "length (reassembly_buffers st) < MAX_REASSEMBLY_BUFFERS"
  shows "process_fragment clocks src dst proto ident offset mf data st = Inl e \<longleftrightarrow>
    (let held = bt_insert (unat offset * 8)
       \<lparr>fr_offset = unat offset * 8, fr_data = data, fr_timestamp = snd (snd clocks)\<rparr> (rb_fragments b) in
    e = IndexOutOfBounds \<and> length (rb_fragments b) < MAX_FRAGMENTS_PER_PACKET
    \<and> (\<exists>fin_len. (if mf then rb_total_length b else Some (unat offset * 8 + length data)) = Some fin_len
        \<and> (\<exists>(start, f) \<in> set held. fin_len < start)
        \<and> (\<forall>(start, f) \<in> set held. \<forall>x < start. covers_byte x held)))"
proof -
  define held where "held = bt_insert (unat offset * 8)
      \<lparr>fr_offset = unat offset * 8, fr_data = data, fr_timestamp = snd (snd clocks)\<rparr> (rb_fragments b)"
  obtain t1 t2 t3 where c: "clocks = (t1, t2, t3)" by (cases clocks) auto
  define b1 where "b1 = (if mf then b else b\<lparr>rb_total_length := Some (unat offset * 8 + length data)\<rparr>)\<lparr>rb_fragments := held\<rparr>"
  have ok: "bt_ok (rb_fragments b)"
    using fragment_run_ok [OF assms(1)] map_of_SomeD [OF assms(2)] by auto
  then have h: "bt_ok held" unfolding held_def by (rule bt_ok_insert)
  have b1: "rb_fragments b1 = held" "rb_total_length b1 = (if mf then rb_total_length b else Some (unat offset * 8 + length data))"
    by (simp_all add: b1_def)
  have "add_fragment (unat offset * 8) data (\<not> mf) t3 b =
      (if MAX_FRAGMENTS_PER_PACKET \<le> length (rb_fragments b) then (False, b) else (True, b1))"
    by (simp add: add_fragment_def Let_def b1_def held_def c)
  then have "process_fragment clocks src dst proto ident offset mf data st = Inl e \<longleftrightarrow>
      length (rb_fragments b) < MAX_FRAGMENTS_PER_PACKET \<and> is_complete b1 \<and> reassemble b1 = Inl e"
    using assms(2,3) by (auto simp: process_fragment_def Let_def c split: sum.splits option.splits if_splits)
  then show ?thesis using complete_panics [of b1 e] h unfolding b1 Let_def held_def [symmetric] by blast
qed

theorem reassembly_panics_iff_witness:
  "process_fragments 1 2 17 5
     [((0, 0, 0), 0, True, replicate 16 7), ((0, 0, 0), 2, True, replicate 8 7), ((0, 0, 0), 1, False, [])] fragment_init
   = Inl IndexOutOfBounds"
proof -
  define ps :: "((u64 \<times> u64 \<times> u64) \<times> u16 \<times> bool \<times> u8 list) list"
    where "ps = [((0, 0, 0), 0, True, replicate 16 7), ((0, 0, 0), 2, True, replicate 8 7)]"
  define b where "b = \<lparr>rb_src_ip = 1, rb_dst_ip = 2, rb_protocol = 17, rb_identification = 5,
      rb_fragments = [(0, \<lparr>fr_offset = 0, fr_data = replicate 16 7, fr_timestamp = 0\<rparr>),
        (16, \<lparr>fr_offset = 16, fr_data = replicate 8 7, fr_timestamp = 0\<rparr>)],
      rb_total_length = None, rb_first_arrival = 0\<rparr>"
  define st where "st = \<lparr>reassembly_buffers = [((1, 2, 17, 5), b)],
      fragment_counts = fragment_stats_new\<lparr>fragments_received := 2\<rparr>\<rparr>"
  have p: "process_fragments 1 2 17 5 ps fragment_init = Inr ([None, None], st)"
    unfolding ps_def st_def b_def by code_simp
  have r: "fragment_run st" by (rule fragment_run_list [OF fragment_run.start p])
  have "process_fragment (0, 0, 0) 1 2 17 5 1 False [] st = Inl IndexOutOfBounds"
    by (subst reassembly_panics_iff [OF r, where b = b])
      (auto simp: st_def b_def covers_byte_def MAX_FRAGMENTS_PER_PACKET_def MAX_REASSEMBLY_BUFFERS_def)
  then have "process_fragments 1 2 17 5 (ps @ [((0, 0, 0), 1, False, [])]) fragment_init = Inl IndexOutOfBounds"
    by (simp add: process_fragments_append p)
  then show ?thesis by (simp add: ps_def del: process_fragments.simps)
qed

text \<open>
  The limit on the number of reassembly buffers is not enforced: as long as no buffer
  has expired, a first fragment under a new key adds a buffer however many there are.
\<close>

theorem reassembly_limit_not_enforced:
  assumes "\<forall>(k, b) \<in> set (reassembly_buffers st). \<not> is_expired t1 b" "map_of (reassembly_buffers st) (src, dst, proto, ident) = None"
  shows "\<exists>st'. process_fragment (t1, t2, t3) src dst proto ident 0 True data st = Inr (None, st')
    \<and> active_reassembly_count st' = active_reassembly_count st + 1"
proof -
  have "filter (\<lambda>(k, b). is_expired t1 b) (reassembly_buffers st) = []"
    using assms(1) by (auto simp: filter_empty_conv)
  then have "cleanup_expired_buffers t1 (st\<lparr>fragment_counts := c\<rparr>) = st\<lparr>fragment_counts := c\<rparr>" for c
    by (simp add: cleanup_expired_buffers_def)
  then show ?thesis
    using assms(2) by (simp add: process_fragment_def Let_def add_fragment_def reassembly_buffer_new_def is_complete_def
        MAX_FRAGMENTS_PER_PACKET_def active_reassembly_count_def length_bt_insert)
qed

theorem reassembly_limit_not_enforced_witness:
  "\<exists>st'. process_fragment (0, 0, 0) 1 2 17 5 0 True [7] fragment_init = Inr (None, st')
    \<and> active_reassembly_count st' = active_reassembly_count fragment_init + 1"
  by (rule reassembly_limit_not_enforced) (simp_all add: fragment_init_def)

end
