(* ===== verification/Routing.thy ===== *)
theory Routing
  imports Rust_Map "HOL-Library.Product_Lexorder"
begin

text \<open>
  The IPv4 routing table, \<^verbatim>\<open>netstack/routing.rs\<close>: a list of entries, at most one for each
  pair of destination and netmask, kept in the order in which a lookup wants them.
\<close>

section \<open>State and operations\<close>

datatype route_type = RtDirect | RtStatic | RtDynamic | RtRedirect | RtDefault

record route_entry =
  destination :: u32
  netmask :: u32
  gateway :: u32
  rt_interface :: u32
  rt_metric :: u32
  rt_type :: route_type

type_synonym routing_table = "route_entry list"

definition route_entry_new :: "u32 \<Rightarrow> u32 \<Rightarrow> u32 \<Rightarrow> u32 \<Rightarrow> u32 \<Rightarrow> route_type \<Rightarrow> route_entry" where
  "route_entry_new d n g i m ty =
     \<lparr>destination = d, netmask = n, gateway = g, rt_interface = i, rt_metric = m, rt_type = ty\<rparr>"

definition route_matches :: "route_entry \<Rightarrow> u32 \<Rightarrow> bool" where
  "route_matches r dst_ip = (dst_ip AND netmask r = destination r AND netmask r)"

definition count_ones :: "'a :: len word \<Rightarrow> nat" where
  "count_ones w = length (filter (bit w) [0..<LENGTH('a)])"

definition prefix_len :: "route_entry \<Rightarrow> nat" where
  "prefix_len r = count_ones (netmask r)"

text \<open>
  The comparison of the sort: longer prefixes first, and the smaller metric first among
  equal lengths.  The sort of the library is stable, as is \<^const>\<open>sort_key\<close>.
\<close>

definition route_order :: "route_entry \<Rightarrow> int \<times> u32" where
  "route_order r = (- int (prefix_len r), rt_metric r)"

definition retain_other :: "u32 \<Rightarrow> u32 \<Rightarrow> routing_table \<Rightarrow> routing_table" where
  "retain_other d n t = filter (\<lambda>r. \<not> (destination r = d \<and> netmask r = n)) t"

definition add_route :: "u32 \<Rightarrow> u32 \<Rightarrow> u32 \<Rightarrow> u32 \<Rightarrow> u32 \<Rightarrow> route_type \<Rightarrow> routing_table \<Rightarrow> routing_table" where
  "add_route d n g i m ty t = sort_key route_order (retain_other d n t @ [route_entry_new d n g i m ty])"

definition remove_route :: "u32 \<Rightarrow> u32 \<Rightarrow> routing_table \<Rightarrow> bool \<times> routing_table" where
  "remove_route d n t = (let t' = retain_other d n t in (length t' \<noteq> length t, t'))"

definition find_route :: "u32 \<Rightarrow> routing_table \<Rightarrow> route_entry option" where
  "find_route dst_ip t = find (\<lambda>r. route_matches r dst_ip) t"

definition get_all_routes :: "routing_table \<Rightarrow> routing_table" where
  "get_all_routes t = t"

definition set_default_gateway :: "u32 \<Rightarrow> u32 \<Rightarrow> u32 \<Rightarrow> routing_table \<Rightarrow> routing_table" where
  "set_default_gateway g i m t = add_route 0 0 g i m RtDefault t"

definition get_default_gateway :: "routing_table \<Rightarrow> u32 option" where
  "get_default_gateway t = map_option gateway (find (\<lambda>r. destination r = 0 \<and> netmask r = 0) t)"

definition add_direct_route :: "u32 \<Rightarrow> u32 \<Rightarrow> u32 \<Rightarrow> routing_table \<Rightarrow> routing_table" where
  "add_direct_route network n i t = add_route network n 0 i 0 RtDirect t"

definition flush_dynamic_routes :: "routing_table \<Rightarrow> routing_table" where
  "flush_dynamic_routes t = filter (\<lambda>r. rt_type r \<noteq> RtDynamic) t"

definition get_route_count :: "routing_table \<Rightarrow> nat" where
  "get_route_count t = length t"

definition clear_routing_table :: "routing_table \<Rightarrow> routing_table" where
  "clear_routing_table t = []"

definition format_ip :: "u32 \<Rightarrow> string" where
  "format_ip ip = decimal_string (unat (drop_bit 24 ip AND 0xFF)) @ ''.'' @ decimal_string (unat (drop_bit 16 ip AND 0xFF))
     @ ''.'' @ decimal_string (unat (drop_bit 8 ip AND 0xFF)) @ ''.'' @ decimal_string (unat (ip AND 0xFF))"

section \<open>The table as a map in lookup order\<close>

definition route_key :: "route_entry \<Rightarrow> u32 \<times> u32" where
  "route_key r = (destination r, netmask r)"

definition routes_ok :: "routing_table \<Rightarrow> bool" where
  "routes_ok t \<longleftrightarrow> sorted (map route_order t) \<and> distinct (map route_key t)"

definition route_value :: "route_entry \<Rightarrow> u32 \<times> u32 \<times> u32 \<times> route_type" where
  "route_value r = (gateway r, rt_interface r, rt_metric r, rt_type r)"

definition route_at :: "routing_table \<Rightarrow> u32 \<times> u32 \<Rightarrow> (u32 \<times> u32 \<times> u32 \<times> route_type) option" where
  "route_at t k = map_of (map (\<lambda>r. (route_key r, route_value r)) t) k"

lemma retain_other_key: "retain_other d n t = filter (\<lambda>r. route_key r \<noteq> (d, n)) t"
  by (simp add: retain_other_def route_key_def)

lemma routes_ok_distinct: "routes_ok t \<Longrightarrow> distinct (map route_key t)"
  by (simp add: routes_ok_def)

lemma routes_ok_filter: "routes_ok t \<Longrightarrow> routes_ok (filter P t)"
  by (simp add: routes_ok_def sorted_filter distinct_map_filter)

lemma routes_ok_retain: "routes_ok t \<Longrightarrow> routes_ok (retain_other d n t)"
  by (simp add: retain_other_key routes_ok_filter)

lemma routes_ok_add: "routes_ok t \<Longrightarrow> routes_ok (add_route d n g i m ty t)"
  unfolding routes_ok_def add_route_def retain_other_key
  by (auto simp: distinct_map route_key_def route_entry_new_def intro: inj_on_subset inj_onI dest: inj_onD)

lemma route_at_Some: "distinct (map route_key t) \<Longrightarrow>
    route_at t k = Some v \<longleftrightarrow> (\<exists>r \<in> set t. route_key r = k \<and> route_value r = v)"
  by (auto simp: route_at_def map_of_eq_Some_iff comp_def)

lemma route_at_filter:
  "distinct (map route_key t) \<Longrightarrow> route_at (retain_other d n t) = (route_at t)((d, n) := None)"
  unfolding retain_other_key route_at_def
  by (induction t) auto

lemma route_at_add:
  assumes "routes_ok t"
  shows "route_at (add_route d n g i m ty t) = (route_at t)((d, n) \<mapsto> (g, i, m, ty))"
proof
  fix k
  let ?t = "add_route d n g i m ty t"
  have dt: "distinct (map route_key t)" and d': "distinct (map route_key ?t)"
    using assms routes_ok_add [OF assms] by (simp_all add: routes_ok_def)
  have set: "set ?t = {r \<in> set t. route_key r \<noteq> (d, n)} \<union> {route_entry_new d n g i m ty}"
    by (simp add: add_route_def retain_other_key)
  have "route_at ?t k = Some v \<longleftrightarrow> ((route_at t)((d, n) \<mapsto> (g, i, m, ty))) k = Some v" for v
    unfolding route_at_Some [OF d'] set
    by (auto simp: route_at_Some [OF dt] route_key_def route_value_def route_entry_new_def)
  then show "route_at ?t k = ((route_at t)((d, n) \<mapsto> (g, i, m, ty))) k"
    by (metis option.exhaust)
qed

interpretation rt: lookup_map routes_ok route_at
  "\<lambda>(d, n) (g, i, m, ty) t. add_route d n g i m ty t" "\<lambda>(d, n) t. snd (remove_route d n t)"
  by unfold_locales
    (auto simp: routes_ok_add route_at_add remove_route_def Let_def routes_ok_retain route_at_filter [OF routes_ok_distinct])

text \<open>Every table the operations build is in lookup order.\<close>

inductive route_run :: "routing_table \<Rightarrow> bool" where
  start: "route_run []"
| add: "route_run t \<Longrightarrow> route_run (add_route d n g i m ty t)"
| remove: "route_run t \<Longrightarrow> route_run (snd (remove_route d n t))"
| flush: "route_run t \<Longrightarrow> route_run (flush_dynamic_routes t)"
| clear: "route_run t \<Longrightarrow> route_run (clear_routing_table t)"

lemma route_run_ok: "route_run t \<Longrightarrow> routes_ok t"
proof (induction rule: route_run.induct)
  case start
  then show ?case by (simp add: routes_ok_def)
next
  case (clear t)
  then show ?case by (simp add: clear_routing_table_def routes_ok_def)
qed (simp_all add: routes_ok_add remove_route_def Let_def routes_ok_retain flush_dynamic_routes_def routes_ok_filter)

lemma sorted_find_least:
  assumes "sorted (map f xs)" "find P xs = Some x" "y \<in> set xs" "P y"
  shows "f x \<le> f y"
  using assms by (induction xs) (auto split: if_splits)

lemma find_route_best:
  assumes "routes_ok t" "find_route dst t = Some r"
  shows "r \<in> set t" "route_matches r dst"
    "\<And>r'. r' \<in> set t \<Longrightarrow> route_matches r' dst \<Longrightarrow>
       prefix_len r' < prefix_len r \<or> prefix_len r' = prefix_len r \<and> rt_metric r \<le> rt_metric r'"
proof -
  show "r \<in> set t" "route_matches r dst"
    using assms(2) by (auto simp: find_route_def find_Some_iff)
  fix r' assume "r' \<in> set t" "route_matches r' dst"
  then have "route_order r \<le> route_order r'"
    using assms sorted_find_least [of route_order t "\<lambda>r. route_matches r dst" r r']
    by (simp add: routes_ok_def find_route_def)
  then show "prefix_len r' < prefix_len r \<or> prefix_len r' = prefix_len r \<and> rt_metric r \<le> rt_metric r'"
    by (auto simp: route_order_def less_eq_prod_def)
qed

text \<open>A netmask of \<open>k\<close> leading ones has prefix length \<open>k\<close> and matches on the leading \<open>k\<close> bits.\<close>

definition leading_ones :: "nat \<Rightarrow> u32" where
  "leading_ones k = NOT (mask (32 - k))"

lemma bit_leading_ones: "bit (leading_ones k) i \<longleftrightarrow> i < 32 \<and> 32 - k \<le> i"
  by (auto simp: leading_ones_def bit_simps)

lemma prefix_len_leading_ones:
  assumes "k \<le> 32" "netmask r = leading_ones k"
  shows "prefix_len r = k"
proof -
  have "filter (bit (leading_ones k)) [0..<32] = [32 - k..<32]"
  proof -
    have "[0..<32::nat] = [0..<32 - k] @ [32 - k..<32]"
      using assms(1) upt_add_eq_append [of 0 "32 - k" k] by simp
    then show ?thesis by (auto simp: bit_leading_ones filter_empty_conv intro!: filter_True)
  qed
  then show ?thesis using assms by (simp add: prefix_len_def count_ones_def)
qed

lemma leading_ones_matches:
  assumes "netmask r = leading_ones k"
  shows "route_matches r dst \<longleftrightarrow> drop_bit (32 - k) dst = drop_bit (32 - k) (destination r)"
proof -
  have "route_matches r dst \<longleftrightarrow> (\<forall>i. i < 32 \<and> 32 - k \<le> i \<longrightarrow> bit dst i = bit (destination r) i)"
    by (auto simp: route_matches_def word_eq_bits bit_and_iff assms bit_leading_ones)
  also have "\<dots> \<longleftrightarrow> drop_bit (32 - k) dst = drop_bit (32 - k) (destination r)"
  proof
    assume *: "\<forall>i. i < 32 \<and> 32 - k \<le> i \<longrightarrow> bit dst i = bit (destination r) i"
    have "bit dst (32 - k + n) = bit (destination r) (32 - k + n)" for n
      using * bit_imp_le_length [of dst "32 - k + n"] bit_imp_le_length [of "destination r" "32 - k + n"]
      by (cases "32 - k + n < 32") auto
    then show "drop_bit (32 - k) dst = drop_bit (32 - k) (destination r)"
      by (simp add: word_eq_bits bit_drop_bit_eq)
  next
    assume "drop_bit (32 - k) dst = drop_bit (32 - k) (destination r)"
    then have "bit dst (32 - k + n) = bit (destination r) (32 - k + n)" for n
      by (simp add: word_eq_bits bit_drop_bit_eq)
    then show "\<forall>i. i < 32 \<and> 32 - k \<le> i \<longrightarrow> bit dst i = bit (destination r) i"
      by (metis le_add_diff_inverse)
  qed
  finally show ?thesis .
qed

lemma remove_route_reports: "fst (remove_route d n t) \<longleftrightarrow> route_at t (d, n) \<noteq> None"
proof -
  have "length (filter P t) = length t \<longleftrightarrow> (\<forall>r \<in> set t. P r)" for P
    by (metis length_filter_less filter_True less_irrefl)
  then show ?thesis
    by (auto simp: remove_route_def Let_def retain_other_key route_at_def map_of_eq_None_iff image_iff
        eq_commute [of "(d, n)"])
qed

lemma default_gateway_at: "get_default_gateway t = map_option fst (route_at t (0, 0))"
  by (induction t) (auto simp: get_default_gateway_def route_at_def route_key_def route_value_def)

text \<open>A small table: the private class A network with a more specific subnet and a default route.\<close>

definition sample_routes :: routing_table where
  "sample_routes = set_default_gateway 0x0A000001 1 10
     (add_route 0x0A010000 (leading_ones 16) 7 2 5 RtStatic (add_direct_route 0x0A000000 (leading_ones 8) 1 []))"

lemma sample_routes_run: "route_run sample_routes"
  unfolding sample_routes_def set_default_gateway_def add_direct_route_def
  by (intro route_run.intros)

section \<open>Properties\<close>

text \<open>
  C11: The lookup is a longest prefix match: in every table that the operations can build,
  it finds no route exactly when none matches the address, and otherwise a matching route
  of the greatest prefix length and, among those, of the least metric; for a netmask of
  \<open>k\<close> leading ones the prefix length is \<open>k\<close> and matching means agreeing on the leading
  \<open>k\<close> bits.
\<close>

theorem find_route_longest_prefix:
  assumes "route_run t"
  shows "(case find_route dst t of
      None \<Rightarrow> \<forall>r \<in> set t. \<not> route_matches r dst
    | Some r \<Rightarrow> r \<in> set t \<and> route_matches r dst \<and> (\<forall>r' \<in> set t. route_matches r' dst \<longrightarrow>
        prefix_len r' < prefix_len r \<or> prefix_len r' = prefix_len r \<and> rt_metric r \<le> rt_metric r'))
    \<and> (\<forall>r k. k \<le> 32 \<and> netmask r = leading_ones k \<longrightarrow>
        prefix_len r = k \<and> (route_matches r dst \<longleftrightarrow> drop_bit (32 - k) dst = drop_bit (32 - k) (destination r)))"
proof (rule conjI)
  show "case find_route dst t of
      None \<Rightarrow> \<forall>r \<in> set t. \<not> route_matches r dst
    | Some r \<Rightarrow> r \<in> set t \<and> route_matches r dst \<and> (\<forall>r' \<in> set t. route_matches r' dst \<longrightarrow>
        prefix_len r' < prefix_len r \<or> prefix_len r' = prefix_len r \<and> rt_metric r \<le> rt_metric r')"
  proof (cases "find_route dst t")
    case None
    then have "\<forall>r \<in> set t. \<not> route_matches r dst" by (simp add: find_route_def find_None_iff)
    with None show ?thesis by simp
  next
    case (Some r)
    with find_route_best [OF route_run_ok [OF assms] Some] show ?thesis by simp
  qed
qed (simp add: prefix_len_leading_ones leading_ones_matches)

theorem find_route_longest_prefix_witness:
  "find_route 0x0A010203 sample_routes = Some (route_entry_new 0x0A010000 (leading_ones 16) 7 2 5 RtStatic)
   \<and> find_route 0x0A020304 sample_routes \<noteq> None \<and> find_route 0x08080808 sample_routes \<noteq> None
   \<and> (\<exists>r. find_route 0x0A020304 sample_routes = Some r \<and> prefix_len r = 8)"
proof -
  have "find_route 0x0A010203 sample_routes = Some (route_entry_new 0x0A010000 (leading_ones 16) 7 2 5 RtStatic)"
    "find_route 0x08080808 sample_routes \<noteq> None"
    "find_route 0x0A020304 sample_routes = Some (route_entry_new 0x0A000000 (leading_ones 8) 0 1 0 RtDirect)"
    by code_simp+
  moreover have "prefix_len (route_entry_new 0x0A000000 (leading_ones 8) 0 1 0 RtDirect) = 8"
    using find_route_longest_prefix [OF sample_routes_run, of "0x0A020304"] by (simp add: route_entry_new_def)
  ultimately show ?thesis by simp
qed

text \<open>
  The table is a map from pairs of destination and netmask to routes: adding a route
  sets its pair and no other, removing one clears its pair and reports whether there was
  an entry, and the default gateway read back is the one set last.
\<close>

theorem routes_are_a_map:
  assumes "route_run t"
  shows "route_at (add_route d n g i m ty t) = (route_at t)((d, n) \<mapsto> (g, i, m, ty))
    \<and> route_at (snd (remove_route d n t)) = (route_at t)((d, n) := None)
    \<and> (fst (remove_route d n t) \<longleftrightarrow> route_at t (d, n) \<noteq> None)
    \<and> get_default_gateway (set_default_gateway g i m t) = Some g"
  using rt.get_insert [OF route_run_ok [OF assms], of "(d, n)" "(g, i, m, ty)"]
    rt.get_remove [OF route_run_ok [OF assms], of "(d, n)"] remove_route_reports [of d n t]
    rt.get_insert [OF route_run_ok [OF assms], of "(0, 0)" "(g, i, m, RtDefault)"]
  by (simp add: default_gateway_at set_default_gateway_def)

theorem routes_are_a_map_witness:
  "fst (remove_route 0x0A010000 (leading_ones 16) sample_routes)
   \<and> route_at (snd (remove_route 0x0A010000 (leading_ones 16) sample_routes)) (0, 0) = Some (0x0A000001, 1, 10, RtDefault)"
proof -
  have "route_at sample_routes (0x0A010000, leading_ones 16) \<noteq> None"
    "route_at sample_routes (0, 0) = Some (0x0A000001, 1, 10, RtDefault)" "leading_ones 16 \<noteq> 0"
    by code_simp+
  then show ?thesis
    using routes_are_a_map [OF sample_routes_run, of "0x0A010000" "leading_ones 16"] by simp
qed

end
