(* ===== verification/Ipv4.thy ===== *)
theory Ipv4
  imports Ethernet Fragmentation Routing
begin

text \<open>
  IPv4 headers, the header checksum and the fragments of a datagram on the wire,
  \<^verbatim>\<open>netstack/ipv4.rs\<close>.  The parts of the send and receive paths that only move bytes are
  here; the policy, filter, translation and interface calls between them are not.
\<close>

section \<open>Headers\<close>

definition IPV4_HDR_SIZE :: nat where "IPV4_HDR_SIZE = 20"
definition IPV4_MIN_SIZE :: nat where "IPV4_MIN_SIZE = 20"
definition IPV4_MAX_HDR_SIZE :: nat where "IPV4_MAX_HDR_SIZE = 60"

datatype protocol = Icmp | Tcp | Udp | Raw

definition protocol_from_u8 :: "u8 \<Rightarrow> protocol option" where
  "protocol_from_u8 v = (if v = 1 then Some Icmp else if v = 6 then Some Tcp else if v = 17 then Some Udp else None)"

record ipv4_header =
  version_ihl :: u8
  ip_tos :: u8
  ip_total_length :: u16
  ip_identification :: u16
  flags_offset :: u16
  ip_ttl :: u8
  ip_protocol :: u8
  ip_checksum :: u16
  ip_src :: u32
  ip_dst :: u32

definition header_length :: "ipv4_header \<Rightarrow> nat" where
  "header_length h = unat (version_ihl h AND 0x0F) * 4"

definition total_length :: "ipv4_header \<Rightarrow> nat" where
  "total_length h = unat (ip_total_length h)"

definition ip_payload_length :: "ipv4_header \<Rightarrow> nat" where
  "ip_payload_length h = total_length h - header_length h"

definition ip_version :: "ipv4_header \<Rightarrow> u8" where
  "ip_version h = drop_bit 4 (version_ihl h)"

definition ip_validate :: "ipv4_header \<Rightarrow> u8 list \<Rightarrow> bool" where
  "ip_validate h data =
     (let ihl = header_length h; total = total_length h
      in if \<not> (IPV4_MIN_SIZE \<le> ihl \<and> ihl \<le> IPV4_MAX_HDR_SIZE) then False
         else if length data < ihl then False
         else if ip_version h \<noteq> 4 then False
         else if total < ihl \<or> length data < total then False
         else True)"

definition dont_fragment :: "ipv4_header \<Rightarrow> bool" where
  "dont_fragment h \<longleftrightarrow> flags_offset h AND 0x4000 \<noteq> 0"

definition more_fragments :: "ipv4_header \<Rightarrow> bool" where
  "more_fragments h \<longleftrightarrow> flags_offset h AND 0x2000 \<noteq> 0"

definition fragment_offset :: "ipv4_header \<Rightarrow> u16" where
  "fragment_offset h = flags_offset h AND 0x1FFF"

definition ipv4_from_bytes :: "u8 list \<Rightarrow> ipv4_header option" where
  "ipv4_from_bytes data =
     (if length data < IPV4_MIN_SIZE then None
      else let header = \<lparr>version_ihl = data ! 0, ip_tos = data ! 1, ip_total_length = be_u16 (data ! 2) (data ! 3),
             ip_identification = be_u16 (data ! 4) (data ! 5), flags_offset = be_u16 (data ! 6) (data ! 7),
             ip_ttl = data ! 8, ip_protocol = data ! 9, ip_checksum = be_u16 (data ! 10) (data ! 11),
             ip_src = be_u32 (data ! 12) (data ! 13) (data ! 14) (data ! 15),
             ip_dst = be_u32 (data ! 16) (data ! 17) (data ! 18) (data ! 19)\<rparr>
           in if ip_version header \<noteq> 4 then None
              else if header_length header < IPV4_MIN_SIZE then None
              else Some header)"

definition ipv4_to_bytes :: "ipv4_header \<Rightarrow> u8 list \<Rightarrow> u8 list" where
  "ipv4_to_bytes h data =
     (if length data < IPV4_HDR_SIZE then data
      else overwrite data 0 ([version_ihl h, ip_tos h] @ u16_to_be_bytes (ip_total_length h)
        @ u16_to_be_bytes (ip_identification h) @ u16_to_be_bytes (flags_offset h) @ [ip_ttl h, ip_protocol h]
        @ u16_to_be_bytes (ip_checksum h) @ u32_to_be_bytes (ip_src h) @ u32_to_be_bytes (ip_dst h)))"

section \<open>Checksum\<close>

fun sum_chunks :: "u8 list \<Rightarrow> u32 \<Rightarrow> u32" where
  "sum_chunks (a # b # data) acc = sum_chunks data (acc + ucast (be_u16 a b))"
| "sum_chunks [a] acc = acc + ucast a"
| "sum_chunks [] acc = acc"

function add_carries :: "u32 \<Rightarrow> u32" where
  "add_carries acc = (if 0xFFFF < acc then add_carries ((acc AND 0xFFFF) + drop_bit 16 acc) else acc)"
  by pat_completeness auto

lemma unat_carry_step: "unat ((acc AND 0xFFFF) + drop_bit 16 acc) = unat acc mod 65536 + unat acc div 65536" for acc :: u32
proof -
  have m: "acc AND 0xFFFF = take_bit 16 acc" by (simp add: take_bit_eq_mask mask_eq_exp_minus_1)
  have "unat acc < 2 ^ 32" using unsigned_less [of acc, where ?'a = nat] by simp
  then have "unat acc div 65536 < 65536" by (simp add: less_mult_imp_div_less)
  moreover have "unat acc mod 65536 < 65536" by simp
  ultimately have "unat acc mod 65536 + unat acc div 65536 < 4294967296" by linarith
  then show ?thesis
    unfolding m by (simp add: unat_word_ariths unsigned_take_bit_eq unsigned_drop_bit_eq take_bit_eq_mod drop_bit_eq_div)
qed

termination add_carries
proof (relation "measure unat")
  fix acc :: u32
  assume "0xFFFF < acc"
  then have "65536 \<le> unat acc" by (simp add: word_less_nat_alt)
  then have "unat acc div 65536 < unat acc div 65536 * 65536" by (simp add: div_greater_zero_iff)
  then have "unat acc mod 65536 + unat acc div 65536 < unat acc"
    using div_mult_mod_eq [of "unat acc" 65536] by linarith
  then show "((acc AND 0xFFFF) + drop_bit 16 acc, acc) \<in> measure unat"
    by (simp add: unat_carry_step)
qed simp

declare add_carries.simps [simp del]

definition calculate_checksum :: "u8 list \<Rightarrow> u16" where
  "calculate_checksum data = ucast (NOT (add_carries (sum_chunks data 0)))"

definition verify_checksum :: "ipv4_header \<Rightarrow> u8 list \<Rightarrow> bool" where
  "verify_checksum h data \<longleftrightarrow> calculate_checksum data = 0"

section \<open>Parsing and building\<close>

definition parse_ipv4_header :: "u8 list \<Rightarrow> (ipv4_header \<times> u8 list) option" where
  "parse_ipv4_header data = (case ipv4_from_bytes data of
     None \<Rightarrow> None
   | Some header \<Rightarrow>
       if \<not> ip_validate header data then None
       else if \<not> verify_checksum header (take (header_length header) data) then None
       else Some (header, slice_of data (header_length header) (total_length header)))"

text \<open>The common shape of the two builders: fixed header, checksum patched in, payload.\<close>

definition with_checksum :: "u8 list \<Rightarrow> u8 list" where
  "with_checksum packet =
     (let checksum = calculate_checksum packet
      in packet[10 := ucast (drop_bit 8 checksum), 11 := ucast checksum])"

definition build_ipv4_packet :: "u32 \<Rightarrow> u32 \<Rightarrow> u8 \<Rightarrow> u8 \<Rightarrow> u8 list \<Rightarrow> u8 list" where
  "build_ipv4_packet src dst proto ttl payload =
     (let total_len = of_nat (IPV4_HDR_SIZE + length payload);
          packet = [0x45, 0] @ u16_to_be_bytes total_len @ u16_to_be_bytes 0 @ u16_to_be_bytes 0x4000 @ [ttl, proto]
            @ u16_to_be_bytes 0 @ u32_to_be_bytes src @ u32_to_be_bytes dst
      in with_checksum packet @ payload)"

definition build_ipv4_fragment :: "u32 \<Rightarrow> u32 \<Rightarrow> u8 \<Rightarrow> u8 \<Rightarrow> u16 \<Rightarrow> bool \<Rightarrow> u16 \<Rightarrow> u8 list \<Rightarrow> u8 list" where
  "build_ipv4_fragment src dst proto ttl ident mf offset payload =
     (let total_len = of_nat (IPV4_HDR_SIZE + length payload);
          flags_frag = (if mf then 0x2000 else 0) OR offset;
          packet = [0x45, 0] @ u16_to_be_bytes total_len @ u16_to_be_bytes ident @ u16_to_be_bytes flags_frag @ [ttl, proto]
            @ u16_to_be_bytes 0 @ u32_to_be_bytes src @ u32_to_be_bytes dst
      in with_checksum packet @ payload)"

definition quote_original :: "ipv4_header \<Rightarrow> u8 list \<Rightarrow> u8 list" where
  "quote_original h payload =
     take (min (header_length h) IPV4_HDR_SIZE) (ipv4_to_bytes h (replicate IPV4_HDR_SIZE 0))
       @ take (min (length payload) 8) payload"

definition is_icmp_error :: "u8 list \<Rightarrow> bool" where
  "is_icmp_error payload \<longleftrightarrow> 2 \<le> length payload \<and> (payload ! 0 = 3 \<or> payload ! 0 = 11)"

definition is_broadcast_ip :: "u32 \<Rightarrow> bool" where
  "is_broadcast_ip ip \<longleftrightarrow> ip = 0xFFFFFFFF"

definition transport_ports :: "u8 \<Rightarrow> u8 list \<Rightarrow> u16 \<times> u16" where
  "transport_ports proto payload =
     (if (proto = 6 \<or> proto = 17) \<and> 4 \<le> length payload
      then (be_u16 (payload ! 0) (payload ! 1), be_u16 (payload ! 2) (payload ! 3)) else (0, 0))"

definition rewrite_icmp_identifier :: "u8 list \<Rightarrow> u16 \<Rightarrow> bool \<times> u8 list" where
  "rewrite_icmp_identifier payload ident =
     (if length payload < 8 then (False, payload) else (True, overwrite payload 4 (u16_to_be_bytes ident)))"

definition rewrite_transport_source_port :: "u8 list \<Rightarrow> u16 \<Rightarrow> bool \<times> u8 list" where
  "rewrite_transport_source_port payload port =
     (if length payload < 2 then (False, payload) else (True, overwrite payload 0 (u16_to_be_bytes port)))"

definition rewrite_transport_destination_port :: "u8 list \<Rightarrow> u16 \<Rightarrow> bool \<times> u8 list" where
  "rewrite_transport_destination_port payload port =
     (if length payload < 4 then (False, payload) else (True, overwrite payload 2 (u16_to_be_bytes port)))"

section \<open>The paths\<close>

text \<open>
  Forwarding: the outcome of the route lookup and of the time-to-live test, with what is
  quoted in an error report when one is sent, or the rebuilt datagram with its next hop.
\<close>

datatype forward_result = NetworkUnreachable "u8 list option" | TimeExceeded "u8 list option" | ForwardTo u32 "u8 list"

definition icmp_report :: "ipv4_header \<Rightarrow> u8 list \<Rightarrow> u8 list option" where
  "icmp_report h payload =
     (if ip_protocol h \<noteq> 1 \<and> \<not> is_icmp_error payload then Some (quote_original h payload) else None)"

definition forward_ipv4 :: "routing_table \<Rightarrow> ipv4_header \<Rightarrow> u8 list \<Rightarrow> forward_result" where
  "forward_ipv4 table h payload = (case find_route (ip_dst h) table of
     None \<Rightarrow> NetworkUnreachable (icmp_report h payload)
   | Some route \<Rightarrow>
       if ip_ttl h = 0 \<or> ip_ttl h - 1 = 0 then TimeExceeded (icmp_report h payload)
       else let packet = (ipv4_to_bytes h (replicate IPV4_HDR_SIZE 0))[8 := ip_ttl h - 1, 10 := 0, 11 := 0]
            in ForwardTo (if gateway route \<noteq> 0 then gateway route else ip_dst h) (with_checksum packet @ payload))"

text \<open>
  Sending: the loop that turns the fragments of a payload into packets, with the
  identification 0 and the time to live 64 that \<^verbatim>\<open>send_ipv4\<close> uses, and the MTU it computes.
\<close>

fun send_fragments :: "u32 \<Rightarrow> u32 \<Rightarrow> u8 \<Rightarrow> bool \<Rightarrow> u16 \<Rightarrow> u8 list list \<Rightarrow> u8 list list" where
  "send_fragments src dst proto fragmented offset_units [] = []"
| "send_fragments src dst proto fragmented offset_units (f # fs) =
     (if fragmented then build_ipv4_fragment src dst proto 64 0 (fs \<noteq> []) offset_units f
      else build_ipv4_packet src dst proto 64 f)
     # send_fragments src dst proto fragmented (offset_units + of_nat ((length f mod 65536 + 7) div 8)) fs"

definition send_packets :: "u32 \<Rightarrow> u32 \<Rightarrow> u8 \<Rightarrow> u8 list \<Rightarrow> fragment_stats \<Rightarrow> (u8 list list \<times> fragment_stats) option" where
  "send_packets src dst proto payload stats = (case fragment_packet payload (1500 - 14) stats of
     None \<Rightarrow> None
   | Some (fragments, stats') \<Rightarrow> Some (send_fragments src dst proto (1 < length fragments) 0 fragments, stats'))"

text \<open>
  Receiving: a fragment goes to reassembly, everything else is complete.  The code
  applies \<open>u16::from_be\<close> to the identification, which swaps its bytes.
\<close>

definition swap_u16 :: "u16 \<Rightarrow> u16" where
  "swap_u16 v = be_u16 (ucast v) (ucast (drop_bit 8 v))"

definition receive_datagram :: "u64 \<times> u64 \<times> u64 \<Rightarrow> ipv4_header \<Rightarrow> u8 list \<Rightarrow> fragment_state \<Rightarrow>
     (u8 list option \<times> fragment_state) rust" where
  "receive_datagram clocks h payload st =
     (if fragment_offset h \<noteq> 0 \<or> more_fragments h
      then process_fragment clocks (ip_src h) (ip_dst h) (ip_protocol h) (swap_u16 (ip_identification h))
             (fragment_offset h) (more_fragments h) payload st
      else Inr (Some payload, st))"

text \<open>
  The whole input routine: what becomes of a parsed packet, given the addresses of this
  host.  A first step only tells fragments from complete datagrams.
\<close>

datatype input_action =
    InNothing
  | InDispatch "u8 list"
  | InForward forward_result
  | InTimeExceeded "u8 list option"

definition ipv4_input :: "u32 list \<Rightarrow> routing_table \<Rightarrow> u64 \<times> u64 \<times> u64 \<Rightarrow> ipv4_header \<Rightarrow> u8 list \<Rightarrow> fragment_state \<Rightarrow>
     (input_action \<times> fragment_state) rust" where
  "ipv4_input our_ips table clocks h payload st =
     (if fragment_offset h \<noteq> 0 \<or> more_fragments h then
        (case process_fragment clocks (ip_src h) (ip_dst h) (ip_protocol h) (swap_u16 (ip_identification h))
                (fragment_offset h) (more_fragments h) payload st of
           Inl e \<Rightarrow> Inl e
         | Inr (Some datagram, st') \<Rightarrow> Inr (InDispatch datagram, st')
         | Inr (None, st') \<Rightarrow> Inr (InNothing, st'))
      else let is_for_us = (ip_dst h \<in> set our_ips);
               is_bcast = (ip_dst h = 0xFFFFFFFF \<or> is_broadcast_ip (ip_dst h))
           in if \<not> is_for_us \<and> \<not> is_bcast then Inr (InForward (forward_ipv4 table h payload), st)
              else if ip_ttl h \<le> 1 then Inr (InTimeExceeded (icmp_report h payload), st)
              else Inr (InDispatch payload, st))"

section \<open>The ones' complement sum\<close>

lemma carry_step_mod: "(n mod 65536 + n div 65536) mod 65535 = n mod 65535" for n :: nat
proof -
  have "n = 65535 * (n div 65536) + (n mod 65536 + n div 65536)"
    using div_mult_mod_eq [of n 65536] by linarith
  then show ?thesis by (metis mod_mult_self4)
qed

lemma add_carries_spec:
  "unat (add_carries s) \<le> 65535" "unat (add_carries s) mod 65535 = unat s mod 65535" "add_carries s = 0 \<longleftrightarrow> s = 0"
proof (induction s rule: add_carries.induct)
  case (1 s)
  let ?n = "(s AND 0xFFFF) + drop_bit 16 s"
  {
    case 1
    show ?case
      using "1.IH"(1) by (cases "0xFFFF < s") (simp_all add: add_carries.simps [of s] word_less_nat_alt)
  next
    case 2
    show ?case
      using "1.IH"(2) carry_step_mod [of "unat s"]
      by (cases "0xFFFF < s") (simp_all add: add_carries.simps [of s] unat_carry_step)
  next
    case 3
    show ?case
    proof (cases "0xFFFF < s")
      case True
      then have "65536 \<le> unat s" by (simp add: word_less_nat_alt)
      then have "0 < unat s div 65536" by (simp add: div_greater_zero_iff)
      then have "unat ?n \<noteq> 0" unfolding unat_carry_step by simp
      then have "?n \<noteq> 0" by (metis unat_0)
      with True "1.IH"(3) show ?thesis by (auto simp: add_carries.simps [of s])
    next
      case False
      then show ?thesis by (simp add: add_carries.simps [of s])
    qed
  }
qed

fun words_sum :: "u8 list \<Rightarrow> nat" where
  "words_sum (a # b # data) = unat (be_u16 a b) + words_sum data"
| "words_sum [a] = unat a"
| "words_sum [] = 0"

lemma unat_ucast_u32 [simp]: "unat (ucast (v :: u16) :: u32) = unat v" "unat (ucast (b :: u8) :: u32) = unat b"
  using unsigned_less [of v, where ?'a = nat] unsigned_less [of b, where ?'a = nat]
  by (simp_all add: unsigned_ucast_eq take_bit_nat_eq_self)

lemma unat_sum_chunks: "unat s + words_sum data < 2 ^ 32 \<Longrightarrow> unat (sum_chunks data s) = unat s + words_sum data"
proof (induction data s rule: sum_chunks.induct)
  case (1 a b data s)
  then have "unat (s + ucast (be_u16 a b)) = unat s + unat (be_u16 a b)"
    by (simp add: unat_word_ariths)
  with 1 show ?case by simp
qed (simp_all add: unat_word_ariths)

lemma words_sum_bound: "words_sum data \<le> 65535 * length data"
proof (induction data rule: words_sum.induct)
  case (1 a b data)
  have "unat (be_u16 a b) \<le> 65535" using unsigned_less [of "be_u16 a b", where ?'a = nat] by simp
  with 1 show ?case by simp
next
  case (2 a)
  then show ?case using unsigned_less [of a, where ?'a = nat] by simp
qed simp

lemma words_sum_append: "even (length xs) \<Longrightarrow> words_sum (xs @ ys) = words_sum xs + words_sum ys"
  by (induction xs rule: words_sum.induct) simp_all

lemma unat_not_u16: "unat x \<le> 65535 \<Longrightarrow> unat (ucast (NOT x) :: u16) = 65535 - unat x" for x :: u32
proof -
  assume x: "unat x \<le> 65535"
  have "(ucast (NOT x) :: u16) = NOT (ucast x)" by (rule bit_word_eqI) (simp add: bit_simps)
  moreover have "unat (ucast x :: u16) = unat x" using x by (simp add: unsigned_ucast_eq take_bit_nat_eq_self)
  moreover have "unat (NOT y) = 65535 - unat y" for y :: u16
  proof -
    have "NOT y = - 1 - y" by (simp add: not_eq_complement)
    then show ?thesis using unat_sub [of y "- 1"] by (simp add: unsigned_minus_1_eq_mask mask_eq_exp_minus_1)
  qed
  ultimately show ?thesis by metis
qed

lemma unat_checksum: "unat (calculate_checksum data) = 65535 - unat (add_carries (sum_chunks data 0))"
  unfolding calculate_checksum_def by (rule unat_not_u16) (rule add_carries_spec)

text \<open>
  A block of at most 64 KiB has checksum 0 exactly when its sixteen-bit words add up to a
  positive multiple of 65535.
\<close>

lemma checksum_zero_iff:
  assumes "length data \<le> 65536"
  shows "calculate_checksum data = 0 \<longleftrightarrow> 0 < words_sum data \<and> words_sum data mod 65535 = 0"
proof -
  let ?f = "add_carries (sum_chunks data 0)"
  have "words_sum data \<le> 65535 * 65536" using words_sum_bound [of data] assms by linarith
  then have s: "unat (sum_chunks data 0) = words_sum data" by (simp add: unat_sum_chunks)
  have "calculate_checksum data = 0 \<longleftrightarrow> unat (calculate_checksum data) = 0" by (metis unat_0 unsigned_word_eqI)
  also have "\<dots> \<longleftrightarrow> unat ?f = 65535"
    using add_carries_spec(1) [of "sum_chunks data 0"] unfolding unat_checksum by linarith
  also have "\<dots> \<longleftrightarrow> unat ?f mod 65535 = 0 \<and> unat ?f \<noteq> 0"
    using add_carries_spec(1) [of "sum_chunks data 0"] by (cases "unat ?f = 65535") auto
  also have "\<dots> \<longleftrightarrow> words_sum data mod 65535 = 0 \<and> words_sum data \<noteq> 0"
    unfolding add_carries_spec(2) s using add_carries_spec(3) [of "sum_chunks data 0"] s by (simp add: unat_eq_zero flip: s)
  finally show ?thesis by simp blast
qed

lemma with_checksum_split:
  assumes "length pre = 10"
  shows "with_checksum (pre @ [0, 0] @ post) = pre @ u16_to_be_bytes (calculate_checksum (pre @ [0, 0] @ post)) @ post"
  using assms by (simp add: with_checksum_def Let_def list_update_append u16_to_be_bytes)

lemma with_checksum_verifies:
  assumes "length pre = 10" "length post \<le> 65000"
  shows "calculate_checksum (with_checksum (pre @ [0, 0] @ post)) = 0"
proof -
  let ?d = "pre @ [0, 0] @ post"
  let ?c = "calculate_checksum ?d"
  let ?f = "unat (add_carries (sum_chunks ?d 0))"
  have "words_sum ?d \<le> 65535 * 65536"
    using words_sum_bound [of ?d] assms by simp
  then have s: "unat (sum_chunks ?d 0) = words_sum ?d" by (simp add: unat_sum_chunks)
  have f: "?f \<le> 65535" "?f mod 65535 = words_sum ?d mod 65535" "?f = 0 \<longleftrightarrow> words_sum ?d = 0"
    using add_carries_spec [of "sum_chunks ?d 0"] by (simp_all only: s [symmetric] unat_eq_zero)
  have "words_sum (with_checksum ?d) = words_sum ?d + unat ?c"
    using assms unfolding with_checksum_split [OF assms(1)]
    by (simp add: words_sum_append u16_to_be_bytes be_u16_def [of 0 0] le_u16_def)
  also have "\<dots> = words_sum ?d + (65535 - ?f)" by (simp add: unat_checksum)
  finally have w: "words_sum (with_checksum ?d) = words_sum ?d + (65535 - ?f)" .
  have "(words_sum ?d + (65535 - ?f)) mod 65535 = (?f + (65535 - ?f)) mod 65535"
    by (rule mod_add_cong [OF f(2) [symmetric] refl])
  moreover have "?f + (65535 - ?f) = 65535" using f(1) by linarith
  ultimately have "words_sum (with_checksum ?d) mod 65535 = 0" unfolding w by (simp only: mod_self)
  moreover have "0 < words_sum (with_checksum ?d)" unfolding w using f(3) by linarith
  moreover have "length (with_checksum ?d) \<le> 65536"
    using assms unfolding with_checksum_split [OF assms(1)] by simp
  ultimately show ?thesis using checksum_zero_iff [THEN iffD2, OF _ conjI] by metis
qed

lemma nat_mod_add_cancel: "(c + a) mod n = (c + b) mod n \<Longrightarrow> a mod n = b mod n" for a b c n :: nat
proof -
  assume eq: "(c + a) mod n = (c + b) mod n"
  have "int x mod int n = (int ((c + x) mod n) - int c) mod int n" for x
    by (simp add: of_nat_mod mod_diff_left_eq)
  then show ?thesis by (metis eq of_nat_eq_iff of_nat_mod)
qed

section \<open>The header as a codec\<close>

definition header_bytes :: "ipv4_header \<Rightarrow> u8 list" where
  "header_bytes h = ipv4_to_bytes h (replicate IPV4_HDR_SIZE 0)"

lemma header_bytes_eq: "header_bytes h = ([version_ihl h, ip_tos h] @ u16_to_be_bytes (ip_total_length h)
    @ u16_to_be_bytes (ip_identification h) @ u16_to_be_bytes (flags_offset h) @ [ip_ttl h, ip_protocol h])
    @ u16_to_be_bytes (ip_checksum h) @ (u32_to_be_bytes (ip_src h) @ u32_to_be_bytes (ip_dst h))"
  by (simp add: header_bytes_def ipv4_to_bytes_def IPV4_HDR_SIZE_def overwrite_def)

definition ip_ok :: "ipv4_header \<Rightarrow> bool" where
  "ip_ok h \<longleftrightarrow> ip_version h = 4 \<and> IPV4_MIN_SIZE \<le> header_length h"

interpretation ip: byte_codec header_bytes ipv4_from_bytes "\<lambda>h. IPV4_HDR_SIZE" ip_ok "\<lambda>h. h"
proof
  fix h :: ipv4_header and rest
  show len: "length (header_bytes h) = IPV4_HDR_SIZE"
    by (simp add: header_bytes_eq IPV4_HDR_SIZE_def)
  assume "ip_ok h"
  then show "ipv4_from_bytes (header_bytes h @ rest) = Some h"
    by (simp add: ipv4_from_bytes_def header_bytes_eq u16_to_be_bytes u32_to_be_bytes IPV4_MIN_SIZE_def Let_def ip_ok_def
        ip_version_def header_length_def)
qed

lemma length_header_bytes [simp]: "length (header_bytes h) = 20"
  using ip.length_enc [of h] by (simp add: header_bytes_eq)

lemma with_checksum_header:
  assumes "ip_checksum h = 0"
  shows "with_checksum (header_bytes h) = header_bytes (h\<lparr>ip_checksum := calculate_checksum (header_bytes h)\<rparr>)"
proof -
  let ?pre = "[version_ihl h, ip_tos h] @ u16_to_be_bytes (ip_total_length h)
    @ u16_to_be_bytes (ip_identification h) @ u16_to_be_bytes (flags_offset h) @ [ip_ttl h, ip_protocol h]"
  let ?post = "u32_to_be_bytes (ip_src h) @ u32_to_be_bytes (ip_dst h)"
  have "header_bytes h = ?pre @ [0, 0] @ ?post" using assms by (simp add: header_bytes_eq u16_to_be_bytes)
  then show ?thesis using with_checksum_split [of ?pre ?post] by (simp add: header_bytes_eq)
qed

lemma header_checksum_verifies:
  assumes "ip_checksum h = 0"
  shows "calculate_checksum (with_checksum (header_bytes h)) = 0"
proof -
  let ?pre = "[version_ihl h, ip_tos h] @ u16_to_be_bytes (ip_total_length h)
    @ u16_to_be_bytes (ip_identification h) @ u16_to_be_bytes (flags_offset h) @ [ip_ttl h, ip_protocol h]"
  let ?post = "u32_to_be_bytes (ip_src h) @ u32_to_be_bytes (ip_dst h)"
  have "header_bytes h = ?pre @ [0, 0] @ ?post" using assms by (simp add: header_bytes_eq u16_to_be_bytes)
  then show ?thesis using with_checksum_verifies [of ?pre ?post] by simp
qed

section \<open>Parsing inverts building\<close>

text \<open>A datagram with a fixed header, whatever its flags.\<close>

definition plain_header :: "u32 \<Rightarrow> u32 \<Rightarrow> u8 \<Rightarrow> u8 \<Rightarrow> u16 \<Rightarrow> u16 \<Rightarrow> u8 list \<Rightarrow> ipv4_header" where
  "plain_header src dst proto ttl ident flags payload =
     \<lparr>version_ihl = 0x45, ip_tos = 0, ip_total_length = of_nat (IPV4_HDR_SIZE + length payload), ip_identification = ident,
      flags_offset = flags, ip_ttl = ttl, ip_protocol = proto, ip_checksum = 0, ip_src = src, ip_dst = dst\<rparr>"

lemma build_packet_header:
  "build_ipv4_packet src dst proto ttl payload = with_checksum (header_bytes (plain_header src dst proto ttl 0 0x4000 payload)) @ payload"
  by (simp add: build_ipv4_packet_def plain_header_def header_bytes_eq Let_def)

lemma build_fragment_header:
  "build_ipv4_fragment src dst proto ttl ident mf offset payload =
     with_checksum (header_bytes (plain_header src dst proto ttl ident ((if mf then 0x2000 else 0) OR offset) payload)) @ payload"
  by (simp add: build_ipv4_fragment_def plain_header_def header_bytes_eq Let_def)

lemma parse_with_checksum:
  assumes "ip_checksum h = 0" "ip_version h = 4" "header_length h = 20" "total_length h = 20 + length payload"
  shows "parse_ipv4_header (with_checksum (header_bytes h) @ payload)
    = Some (h\<lparr>ip_checksum := calculate_checksum (header_bytes h)\<rparr>, payload)"
proof -
  let ?h = "h\<lparr>ip_checksum := calculate_checksum (header_bytes h)\<rparr>"
  have same: "ip_version ?h = 4" "header_length ?h = 20" "total_length ?h = 20 + length payload"
    using assms by (simp_all add: ip_version_def header_length_def total_length_def)
  have "ip_ok ?h" using same by (simp add: ip_ok_def IPV4_MIN_SIZE_def)
  then have dec: "ipv4_from_bytes (header_bytes ?h @ payload) = Some ?h" by (rule ip.dec_enc)
  have "ip_validate ?h (header_bytes ?h @ payload)"
    using same by (simp add: ip_validate_def Let_def IPV4_MIN_SIZE_def IPV4_MAX_HDR_SIZE_def)
  moreover have "verify_checksum ?h (header_bytes ?h)"
    using header_checksum_verifies [OF assms(1)] by (simp add: verify_checksum_def with_checksum_header [OF assms(1)])
  ultimately show ?thesis
    using same dec by (simp add: parse_ipv4_header_def with_checksum_header [OF assms(1)] slice_of_def)
qed

lemma plain_header_simps:
  assumes "length payload \<le> 65515"
  shows "ip_checksum (plain_header src dst proto ttl ident flags payload) = 0"
    "ip_version (plain_header src dst proto ttl ident flags payload) = 4"
    "header_length (plain_header src dst proto ttl ident flags payload) = 20"
    "total_length (plain_header src dst proto ttl ident flags payload) = 20 + length payload"
proof -
  have "drop_bit 4 (0x45 :: u8) = 4" "unat (0x45 AND 0x0F :: u8) * 4 = 20" by code_simp+
  then show "ip_version (plain_header src dst proto ttl ident flags payload) = 4"
    "header_length (plain_header src dst proto ttl ident flags payload) = 20"
    by (simp_all add: ip_version_def header_length_def plain_header_def)
  have "unat (of_nat (20 + length payload) :: u16) = 20 + length payload"
    by (rule unat_small_u16) (use assms in simp)
  then show "total_length (plain_header src dst proto ttl ident flags payload) = 20 + length payload"
    unfolding total_length_def plain_header_def IPV4_HDR_SIZE_def by (simp only: ipv4_header.simps)
qed (simp add: plain_header_def)

lemmas parse_plain = parse_with_checksum [OF plain_header_simps]

lemma fragment_flags:
  assumes "offset < 0x2000"
  shows "((if mf then 0x2000 else 0) OR offset) AND 0x1FFF = (offset :: u16)"
    "((if mf then 0x2000 else 0) OR offset) AND 0x2000 \<noteq> (0 :: u16) \<longleftrightarrow> mf"
proof -
  have b: "n < 13" if "bit offset n" for n
  proof -
    have "take_bit 13 offset = offset"
      using assms by (simp add: word_unat_eq_iff unsigned_take_bit_eq take_bit_nat_eq_self word_less_nat_alt)
    with that show ?thesis by (metis bit_take_bit_iff)
  qed
  have m: "(0x1FFF :: u16) = mask 13" by (simp add: mask_eq_exp_minus_1)
  have "(0x2000 :: u16) = 2 ^ 13" by simp
  then have e: "bit (0x2000 :: u16) n \<longleftrightarrow> n = 13" for n by (simp only: bit_exp_iff) auto
  show "((if mf then 0x2000 else 0) OR offset) AND 0x1FFF = offset"
    unfolding m by (rule bit_word_eqI) (auto simp: bit_and_iff bit_or_iff bit_mask_iff e simp del: bit_numeral_word_iff dest: b)
  show "((if mf then 0x2000 else 0) OR offset) AND 0x2000 \<noteq> (0 :: u16) \<longleftrightarrow> mf"
    unfolding and_eq_0_iff_bits using b by (auto simp: bit_or_iff e simp del: bit_numeral_word_iff)
qed

lemma parse_build_packet:
  assumes "length payload \<le> 65515"
  shows "\<exists>h. parse_ipv4_header (build_ipv4_packet src dst proto ttl payload) = Some (h, payload)
    \<and> ip_src h = src \<and> ip_dst h = dst \<and> ip_protocol h = proto \<and> ip_ttl h = ttl \<and> fragment_offset h = 0 \<and> \<not> more_fragments h"
  unfolding build_packet_header parse_plain [OF assms assms assms assms]
  by (simp add: plain_header_def fragment_offset_def more_fragments_def)

lemma parse_build_fragment:
  assumes "length payload \<le> 65515" "offset < 0x2000"
  shows "\<exists>h. parse_ipv4_header (build_ipv4_fragment src dst proto ttl ident mf offset payload) = Some (h, payload)
    \<and> ip_src h = src \<and> ip_dst h = dst \<and> ip_protocol h = proto \<and> ip_ttl h = ttl \<and> ip_identification h = ident
    \<and> fragment_offset h = offset \<and> (more_fragments h \<longleftrightarrow> mf)"
  unfolding build_fragment_header parse_plain [OF assms(1) assms(1) assms(1) assms(1)]
  using fragment_flags [OF assms(2), of mf] by (simp add: plain_header_def fragment_offset_def more_fragments_def)

section \<open>Forwarding\<close>

lemma forward_rebuilt:
  "(ipv4_to_bytes h (replicate IPV4_HDR_SIZE 0))[8 := t, 10 := 0, 11 := 0] = header_bytes (h\<lparr>ip_ttl := t, ip_checksum := 0\<rparr>)"
  unfolding header_bytes_def [symmetric]
  by (simp add: header_bytes_eq u16_to_be_bytes u32_to_be_bytes numeral_eq_Suc)

lemma forward_plain:
  assumes "find_route (ip_dst h) table = Some route" "ip_ttl h \<noteq> 0" "ip_ttl h \<noteq> 1"
    and "ip_version h = 4" "header_length h = 20" "total_length h = 20 + length payload"
  shows "\<exists>packet h'. forward_ipv4 table h payload = ForwardTo (if gateway route \<noteq> 0 then gateway route else ip_dst h) packet
    \<and> parse_ipv4_header packet = Some (h', payload) \<and> h'\<lparr>ip_checksum := ip_checksum h, ip_ttl := ip_ttl h\<rparr> = h
    \<and> ip_ttl h' = ip_ttl h - 1"
proof -
  let ?h = "h\<lparr>ip_ttl := ip_ttl h - 1, ip_checksum := 0\<rparr>"
  have "ip_checksum ?h = 0" "ip_version ?h = 4" "header_length ?h = 20" "total_length ?h = 20 + length payload"
    using assms by (simp_all add: ip_version_def header_length_def total_length_def)
  note p = parse_with_checksum [OF this]
  have "ip_ttl h - 1 \<noteq> 0" using assms(3) by simp
  then show ?thesis
    using assms(1,2) p by (simp add: forward_ipv4_def Let_def forward_rebuilt)
qed

lemma forward_options_broken:
  assumes "find_route (ip_dst h) table = Some route" "ip_ttl h \<noteq> 0" "ip_ttl h \<noteq> 1"
    and "20 < header_length h" "total_length h = header_length h + length payload"
  shows "\<exists>nh packet. forward_ipv4 table h payload = ForwardTo nh packet \<and> parse_ipv4_header packet = None"
proof -
  let ?h = "h\<lparr>ip_ttl := ip_ttl h - 1, ip_checksum := 0\<rparr>"
  let ?h' = "?h\<lparr>ip_checksum := calculate_checksum (header_bytes ?h)\<rparr>"
  have c: "with_checksum (header_bytes ?h) = header_bytes ?h'" by (rule with_checksum_header) simp
  have l: "header_length ?h' = header_length h" "total_length ?h' = total_length h"
    by (simp_all add: header_length_def total_length_def)
  have "parse_ipv4_header (header_bytes ?h' @ payload) = None"
  proof (cases "ip_version ?h' = 4")
    case True
    then have "ip_ok ?h'" using assms(4) l by (simp add: ip_ok_def IPV4_MIN_SIZE_def)
    then have "ipv4_from_bytes (header_bytes ?h' @ payload) = Some ?h'" by (rule ip.dec_enc)
    moreover have "\<not> ip_validate ?h' (header_bytes ?h' @ payload)"
      using assms(4,5) l by (simp add: ip_validate_def Let_def)
    ultimately show ?thesis by (simp add: parse_ipv4_header_def)
  next
    case False
    then have "ipv4_from_bytes (header_bytes ?h' @ payload) = None"
      by (simp add: ipv4_from_bytes_def Let_def header_bytes_eq ip_version_def)
    then show ?thesis by (simp add: parse_ipv4_header_def)
  qed
  moreover have "ip_ttl h - 1 \<noteq> 0" using assms(3) by simp
  ultimately show ?thesis
    using assms(1,2) c by (simp add: forward_ipv4_def Let_def forward_rebuilt)
qed

section \<open>Properties\<close>

text \<open>
  C14: Parsing inverts both builders: a packet or fragment built from a payload of at most
  65515 bytes passes the version, length and checksum tests and gives back the payload,
  the addresses, the protocol, the time to live and, for a fragment, the identification,
  the offset, which must fit its 13-bit field, and the more-fragments flag.
\<close>

theorem ipv4_build_parse:
  assumes "length payload \<le> 65515" "offset < 0x2000"
  shows "(\<exists>h. parse_ipv4_header (build_ipv4_packet src dst proto ttl payload) = Some (h, payload)
      \<and> ip_src h = src \<and> ip_dst h = dst \<and> ip_protocol h = proto \<and> ip_ttl h = ttl \<and> fragment_offset h = 0 \<and> \<not> more_fragments h)
    \<and> (\<exists>h. parse_ipv4_header (build_ipv4_fragment src dst proto ttl ident mf offset payload) = Some (h, payload)
      \<and> ip_src h = src \<and> ip_dst h = dst \<and> ip_protocol h = proto \<and> ip_ttl h = ttl \<and> ip_identification h = ident
      \<and> fragment_offset h = offset \<and> (more_fragments h \<longleftrightarrow> mf))"
  using parse_build_packet [OF assms(1)] parse_build_fragment [OF assms] by blast

theorem ipv4_build_parse_witness:
  "\<exists>h. parse_ipv4_header (build_ipv4_fragment 0x0A000001 0x0A000002 17 64 5 True 185 [1, 2, 3]) = Some (h, [1, 2, 3])
    \<and> fragment_offset h = 185 \<and> more_fragments h"
proof -
  have "length [1, 2, 3 :: u8] \<le> 65515" "(185 :: u16) < 0x2000" by simp_all
  from ipv4_build_parse [OF this, of "0x0A000001" "0x0A000002" 17 64 5 True] show ?thesis by blast
qed

text \<open>
  C13: The checksum detects every change of one sixteen-bit word except between 0 and
  0xFFFF: when both versions of a block of at most 64 KiB have checksum 0, the words are
  equal or one is 0 and the other 0xFFFF.
\<close>

theorem checksum_detects_word_change:
  assumes "even (length pre)" "length pre + length post \<le> 65534"
    and "calculate_checksum (pre @ u16_to_be_bytes v @ post) = 0" "calculate_checksum (pre @ u16_to_be_bytes v' @ post) = 0"
  shows "v = v' \<or> {v, v'} = {0, 0xFFFF}"
proof -
  have w: "words_sum (pre @ u16_to_be_bytes x @ post) = words_sum pre + unat x + words_sum post" for x
    using assms(1) by (simp add: words_sum_append u16_to_be_bytes)
  have l: "length (pre @ u16_to_be_bytes x @ post) \<le> 65536" for x using assms(2) by simp
  have "(words_sum pre + unat x + words_sum post) mod 65535 = 0" if "calculate_checksum (pre @ u16_to_be_bytes x @ post) = 0" for x
    using that unfolding checksum_zero_iff [OF l] w by blast
  with assms(3,4) have "(words_sum pre + words_sum post + unat v) mod 65535 = (words_sum pre + words_sum post + unat v') mod 65535"
    by (simp add: ac_simps)
  then have m: "unat v mod 65535 = unat v' mod 65535" by (rule nat_mod_add_cancel)
  have "unat x \<le> 65535" for x :: u16 using unsigned_less [of x, where ?'a = nat] by simp
  then have "unat v = unat v' \<or> unat v = 0 \<and> unat v' = 65535 \<or> unat v = 65535 \<and> unat v' = 0"
    using m by (metis mod_less mod_self nat_less_le)
  then have "v = v' \<or> v = 0 \<and> v' = 0xFFFF \<or> v = 0xFFFF \<and> v' = 0" by (simp add: word_unat_eq_iff)
  then show ?thesis by blast
qed

theorem checksum_detects_word_change_witness:
  "calculate_checksum ([0x12, 0x34] @ u16_to_be_bytes 0xEDCB @ []) = 0
   \<and> calculate_checksum ([0x12, 0x34] @ u16_to_be_bytes 0xEDCA @ []) \<noteq> 0"
proof -
  have z: "calculate_checksum ([0x12, 0x34] @ u16_to_be_bytes 0xEDCB @ []) = 0" by code_simp
  have "(0xEDCB :: u16) \<noteq> 0xEDCA" "{0xEDCB, 0xEDCA} \<noteq> {0, 0xFFFF :: u16}" by (simp_all add: doubleton_eq_iff)
  then show ?thesis
    using checksum_detects_word_change [of "[0x12, 0x34]" "[]" "0xEDCB" "0xEDCA"] z by fastforce
qed

text \<open>
  C37: Forwarding a datagram without options keeps everything but the time to live, which
  is one less, and the checksum, which verifies again; the next hop is the gateway of the
  longest matching route, or the destination itself.
\<close>

theorem forward_keeps_datagram:
  assumes "find_route (ip_dst h) table = Some route" "ip_ttl h \<noteq> 0" "ip_ttl h \<noteq> 1"
    and "ip_version h = 4" "header_length h = 20" "total_length h = 20 + length payload"
  shows "\<exists>packet h'. forward_ipv4 table h payload = ForwardTo (if gateway route \<noteq> 0 then gateway route else ip_dst h) packet
    \<and> parse_ipv4_header packet = Some (h', payload) \<and> h'\<lparr>ip_checksum := ip_checksum h, ip_ttl := ip_ttl h\<rparr> = h
    \<and> ip_ttl h' = ip_ttl h - 1"
  by (rule forward_plain [OF assms])

theorem forward_keeps_datagram_witness:
  "\<exists>packet h'. forward_ipv4 sample_routes (plain_header 1 0x0A010203 17 64 0 0 [1, 2]) [1, 2] = ForwardTo 7 packet
    \<and> parse_ipv4_header packet = Some (h', [1, 2]) \<and> ip_ttl h' = 63"
proof -
  let ?h = "plain_header 1 0x0A010203 17 64 0 0 [1, 2]"
  have "find_route (ip_dst ?h) sample_routes = Some (route_entry_new 0x0A010000 (leading_ones 16) 7 2 5 RtStatic)"
    "ip_ttl ?h \<noteq> 0" "ip_ttl ?h \<noteq> 1" "ip_version ?h = 4" "header_length ?h = 20" "total_length ?h = 20 + length [1, 2 :: u8]"
    by code_simp+
  from forward_keeps_datagram [OF this] show ?thesis
    by (auto simp: route_entry_new_def plain_header_def)
qed

text \<open>
  A forwarded datagram with options is destroyed: the rebuilt header keeps the length
  fields of the options it dropped, so every receiver that validates it rejects it.
\<close>

theorem forward_breaks_options:
  assumes "find_route (ip_dst h) table = Some route" "ip_ttl h \<noteq> 0" "ip_ttl h \<noteq> 1"
    and "20 < header_length h" "total_length h = header_length h + length payload"
  shows "\<exists>nh packet. forward_ipv4 table h payload = ForwardTo nh packet \<and> parse_ipv4_header packet = None"
  by (rule forward_options_broken [OF assms])

theorem forward_breaks_options_witness:
  "\<exists>nh packet. forward_ipv4 sample_routes ((plain_header 1 0x0A010203 17 64 0 0 [1, 2])\<lparr>version_ihl := 0x46, ip_total_length := 26\<rparr>) [1, 2]
     = ForwardTo nh packet \<and> parse_ipv4_header packet = None"
proof -
  let ?h = "(plain_header 1 0x0A010203 17 64 0 0 [1, 2])\<lparr>version_ihl := 0x46, ip_total_length := 26\<rparr>"
  have "find_route (ip_dst ?h) sample_routes = Some (route_entry_new 0x0A010000 (leading_ones 16) 7 2 5 RtStatic)"
    "ip_ttl ?h \<noteq> 0" "ip_ttl ?h \<noteq> 1" "20 < header_length ?h" "total_length ?h = header_length ?h + length [1, 2 :: u8]"
    by code_simp+
  from forward_breaks_options [OF this] show ?thesis .
qed

text \<open>
  Over an odd number of bytes the checksum is not the Internet checksum: the last byte
  is added as a low-order byte, where RFC 1071 pads it with a zero on the right; and no
  error is reported for a UDP datagram from source port 768, because its first byte looks
  like an ICMP type.
\<close>

theorem checksum_odd_and_suppressed_errors:
  "calculate_checksum [1] = 0xFFFE \<and> calculate_checksum [1, 0] = 0xFEFF
   \<and> forward_ipv4 [] (plain_header 1 2 17 64 0 0 [3, 0, 0, 53]) [3, 0, 0, 53] = NetworkUnreachable None"
  by code_simp

end
