(* ===== verification/Ip_Path.thy ===== *)
theory Ip_Path
  imports Ipv4
begin

text \<open>
  A datagram on its way: the packets the sender builds for a payload, parsed and
  reassembled by the receiver in whatever order they arrive.
\<close>

fun receive_packets :: "((u64 \<times> u64 \<times> u64) \<times> u8 list) list \<Rightarrow> fragment_state \<Rightarrow>
     (u8 list option list \<times> fragment_state) rust" where
  "receive_packets [] st = Inr ([], st)"
| "receive_packets ((clocks, packet) # ps) st =
     (case parse_ipv4_header packet of
        None \<Rightarrow> (case receive_packets ps st of Inl e \<Rightarrow> Inl e | Inr (rs, st') \<Rightarrow> Inr (None # rs, st'))
      | Some (h, payload) \<Rightarrow>
          (case receive_datagram clocks h payload st of
             Inl e \<Rightarrow> Inl e
           | Inr (r, st') \<Rightarrow> (case receive_packets ps st' of Inl e \<Rightarrow> Inl e | Inr (rs, st'') \<Rightarrow> Inr (r # rs, st''))))"

lemma length_send_fragments [simp]: "length (send_fragments src dst proto b u fs) = length fs"
  by (induction fs arbitrary: u) simp_all

lemma fragment_units_Cons:
  assumes "8 dvd length f"
  shows "fragment_units (f # fs) (Suc j) = of_nat (length f div 8) + fragment_units fs j"
proof -
  have "fragment_pos (f # fs) (Suc j) div 8 = length f div 8 + fragment_pos fs j div 8"
    using assms by (simp add: fragment_pos_def div_plus_div_distrib_dvd_left)
  then show ?thesis by (simp add: fragment_units_def)
qed

lemma send_fragments_nth:
  assumes "\<forall>f \<in> set (butlast fs). 8 dvd length f \<and> length f < 65536" "j < length fs"
  shows "send_fragments src dst proto True u fs ! j
    = build_ipv4_fragment src dst proto 64 0 (Suc j < length fs) (u + fragment_units fs j) (fs ! j)"
  using assms
proof (induction fs arbitrary: u j)
  case (Cons f fs)
  show ?case
  proof (cases j)
    case 0
    then show ?thesis by (cases fs) (simp_all add: fragment_units_def fragment_pos_def)
  next
    case (Suc k)
    then have ne: "fs \<noteq> []" using Cons.prems(2) by auto
    then have f: "8 dvd length f" "length f < 65536" and rest: "\<forall>f \<in> set (butlast fs). 8 dvd length f \<and> length f < 65536"
      using Cons.prems(1) by auto
    have "(length f mod 65536 + 7) div 8 = length f div 8" using f by auto
    then show ?thesis
      using Suc Cons.prems(2) Cons.IH [OF rest, of k] by (simp add: fragment_units_Cons [OF f(1)] add.assoc)
  qed
qed simp

lemma receive_packets_fragments:
  assumes "\<And>j. j \<in> set js \<Longrightarrow> length (fs ! j) \<le> 65515 \<and> offs j < 0x2000 \<and> (offs j \<noteq> 0 \<or> mf j)"
  shows "receive_packets (map (\<lambda>j. (clocks j, build_ipv4_fragment src dst proto ttl 0 (mf j) (offs j) (fs ! j))) js) st
    = process_fragments src dst proto 0 (map (\<lambda>j. (clocks j, offs j, mf j, fs ! j)) js) st"
  using assms
proof (induction js arbitrary: st)
  case (Cons j js)
  have "length (fs ! j) \<le> 65515" "offs j < 0x2000" "offs j \<noteq> 0 \<or> mf j" using Cons.prems [of j] by simp_all
  from parse_build_fragment [OF this(1,2), of src dst proto ttl 0 "mf j"] obtain h where
    h: "parse_ipv4_header (build_ipv4_fragment src dst proto ttl 0 (mf j) (offs j) (fs ! j)) = Some (h, fs ! j)"
      "ip_src h = src" "ip_dst h = dst" "ip_protocol h = proto" "ip_identification h = 0"
      "fragment_offset h = offs j" "more_fragments h \<longleftrightarrow> mf j" by blast
  have "swap_u16 0 = 0" by code_simp
  then have "receive_datagram (clocks j) h (fs ! j) st = process_fragment (clocks j) src dst proto 0 (offs j) (mf j) (fs ! j) st" for st
    using h \<open>offs j \<noteq> 0 \<or> mf j\<close> by (simp add: receive_datagram_def)
  then show ?case using Cons h(1) by (simp split: sum.splits prod.splits)
qed simp

lemma fragment_units_fit:
  assumes "[] \<notin> set fs" "\<forall>f \<in> set (butlast fs). 8 dvd length f" "length (concat fs) \<le> 65535" "1 < length fs" "j < length fs"
  shows "fragment_units fs j < 0x2000 \<and> (fragment_units fs j \<noteq> 0 \<or> Suc j < length fs)"
proof -
  have units: "unat (fragment_units fs j) * 8 = fragment_pos fs j"
    using assms(3) by (intro fragment_units_pos [OF assms(2) _ assms(5)]) simp
  have "fragment_pos fs j + length (fs ! j) \<le> length (concat fs)"
    using fragment_pos_next [OF assms(5) order_refl] by (simp add: fragment_pos_end)
  then have "unat (fragment_units fs j) < 0x2000" using units assms(3) by linarith
  moreover have "fragment_units fs j \<noteq> 0" if "0 < j"
    using fragment_pos_next [OF that, of fs] fragment_not_empty [OF assms(1), of 0] units assms(5) by force
  ultimately show ?thesis using assms(4) by (auto simp: word_less_nat_alt)
qed

lemma mtu_1486: "unat (1500 - 14 - 20 :: u64) = 1466" "1466 div 8 * 8 = (1464 :: nat)"
  by simp_all

lemma length_concat_equal: "\<forall>f \<in> set fs. length f = n \<Longrightarrow> length (concat fs) = n * length fs"
  by (induction fs) simp_all

text \<open>The fragments that the sender cuts.\<close>

lemma sent_fragments:
  assumes "length payload \<le> 65535"
  obtains fs stats' where "fragment_packet payload (1500 - 14) stats = Some (fs, stats')"
    "concat fs = payload" "fs \<noteq> []" "1 < length fs \<longrightarrow> [] \<notin> set fs" "\<forall>f \<in> set fs. length f \<le> 1466"
    "\<forall>f \<in> set (butlast fs). length f = 1464" "length fs \<le> MAX_FRAGMENTS_PER_PACKET"
proof -
  obtain fs stats' where fs: "fragment_packet payload (1500 - 14) stats = Some (fs, stats')"
    "concat fs = payload" "fs \<noteq> []" "1 < length fs \<longrightarrow> [] \<notin> set fs" "\<forall>f \<in> set fs. length f \<le> 1466"
    "\<forall>f \<in> set (butlast fs). length f = 1464"
  proof -
    have "length payload \<le> unat (1500 - 14 - 20 :: u64) \<or> 8 \<le> unat (1500 - 14 - 20 :: u64)" unfolding mtu_1486 by simp
    from fragment_packet_spec [OF this, of stats, unfolded mtu_1486] that show thesis by blast
  qed
  have "length (concat (butlast fs)) = 1464 * (length fs - 1)"
    using length_concat_equal [OF fs(6)] by simp
  moreover have "length (concat (butlast fs)) \<le> length payload"
    using fs(2,3) by (metis append_butlast_last_id concat_append length_append le_add1)
  ultimately have "length fs \<le> 64" using assms by linarith
  then show thesis using that [OF fs] by (simp add: MAX_FRAGMENTS_PER_PACKET_def)
qed

lemma sent_packets_fragmented:
  assumes "length payload \<le> 65535" "fragment_packet payload (1500 - 14) stats = Some (fs, stats')" "1 < length fs"
    and js: "mset js = mset [0..<length fs]"
    and st: "bt_ok (reassembly_buffers st)" "map_of (reassembly_buffers st) (src, dst, proto, 0) = None"
      "Suc (length (reassembly_buffers st)) < MAX_REASSEMBLY_BUFFERS"
  shows "\<exists>st'. receive_packets (map (\<lambda>j. (clocks j, send_fragments src dst proto True 0 fs ! j)) js) st
    = Inr (replicate (length fs - 1) None @ [Some payload], st') \<and> reassembly_buffers st' = reassembly_buffers st"
proof -
  have fs: "concat fs = payload" "[] \<notin> set fs" "\<forall>f \<in> set fs. length f \<le> 1466"
    "\<forall>f \<in> set (butlast fs). length f = 1464" "length fs \<le> MAX_FRAGMENTS_PER_PACKET"
  proof -
    obtain fs' stats2 where "fragment_packet payload (1500 - 14) stats = Some (fs', stats2)" "concat fs' = payload"
      "1 < length fs' \<longrightarrow> [] \<notin> set fs'" "\<forall>f \<in> set fs'. length f \<le> 1466"
      "\<forall>f \<in> set (butlast fs'). length f = 1464" "length fs' \<le> MAX_FRAGMENTS_PER_PACKET"
      by (rule sent_fragments [OF assms(1), of stats])
    moreover have "fs' = fs" using calculation(1) assms(2) by simp
    ultimately show "concat fs = payload" "[] \<notin> set fs" "\<forall>f \<in> set fs. length f \<le> 1466"
      "\<forall>f \<in> set (butlast fs). length f = 1464" "length fs \<le> MAX_FRAGMENTS_PER_PACKET"
      using assms(3) by blast+
  qed
  have d: "\<forall>f \<in> set (butlast fs). 8 dvd length f \<and> length f < 65536" using fs(4) by simp
  note jset = any_order [OF js]
  have units: "unat (fragment_units fs j) * 8 = fragment_pos fs j" if "j < length fs" for j
    using fragment_units_pos [of fs j] d fs(1) assms(1) that by simp
  have ok: "length (fs ! j) \<le> 65515 \<and> fragment_units fs j < 0x2000 \<and> (fragment_units fs j \<noteq> 0 \<or> Suc j < length fs)"
    if "j \<in> set js" for j
  proof -
    have j: "j < length fs" using that jset(2) by simp
    have "length (fs ! j) \<le> 65515" using fs(3) j nth_mem [of j fs] by fastforce
    then show ?thesis using fragment_units_fit [OF fs(2) _ _ assms(3) j] d fs(1) assms(1) by simp
  qed
  have eq: "map (\<lambda>j. (clocks j, send_fragments src dst proto True 0 fs ! j)) js
      = map (\<lambda>j. (clocks j, build_ipv4_fragment src dst proto 64 0 (Suc j < length fs) (fragment_units fs j) (fs ! j))) js"
    using send_fragments_nth [OF d, of _ src dst proto 0] jset(2) by simp
  have packets: "receive_packets (map (\<lambda>j. (clocks j, send_fragments src dst proto True 0 fs ! j)) js) st
      = process_fragments src dst proto 0 (map (\<lambda>j. (clocks j, fragment_units fs j, Suc j < length fs, fs ! j)) js) st"
    unfolding eq by (rule receive_packets_fragments) (rule ok)
  have rec: "receiving (src, dst, proto, 0) (reassembly_buffers st) fs {} st" by (simp add: receiving_def)
  have "js \<noteq> []" using jset(3) assms(3) by auto
  have "\<exists>st'. process_fragments src dst proto 0
      (map (\<lambda>j. (clocks j, fragment_units fs j, Suc j < length fs, fs ! j)) js) st
    = Inr (replicate (length js - 1) None @ [Some (concat fs)], st') \<and> reassembly_buffers st' = reassembly_buffers st"
    by (rule process_fragments_rest [OF st _ fs(5) units \<open>js \<noteq> []\<close> jset(1) _ _ rec]) (simp_all add: fs(2) jset(2))
  then show ?thesis unfolding packets using fs(1) jset(3) by simp
qed

lemma send_packets_single:
  assumes "length payload \<le> 1466"
  shows "send_packets src dst proto payload stats = Some ([build_ipv4_packet src dst proto 64 payload], stats)"
proof -
  have "fragment_packet payload (1500 - 14) stats = Some ([payload], stats)"
    using assms unfolding fragment_packet_def Let_def mtu_1486 by simp
  then show ?thesis unfolding send_packets_def by simp
qed

lemma two_fragments:
  assumes "1466 < length p" "length p \<le> 2928"
  shows "fragment_packet p (1500 - 14) fragment_stats_new
    = Some ([take 1464 p, drop 1464 p], fragment_stats_new\<lparr>fragments_created := 2\<rparr>)"
proof -
  have 2: "fragment_loop p 1464 (length p) stats = Some ([], stats)" for stats
    by (subst fragment_loop.simps) simp
  have m: "min (length p - 1464) 1464 = length p - 1464" "min (length p) 1464 = 1464" using assms by linarith+
  have ne: "p \<noteq> []" using assms(1) by auto
  have 1: "fragment_loop p 1464 1464 stats = Some ([drop 1464 p], stats\<lparr>fragments_created := fragments_created stats + 1\<rparr>)" for stats
    by (subst fragment_loop.simps) (use assms in \<open>simp add: Let_def m 2 slice_of_def\<close>)
  have 0: "fragment_loop p 1464 0 fragment_stats_new
      = Some ([take 1464 p, drop 1464 p], fragment_stats_new\<lparr>fragments_created := 2\<rparr>)"
    by (subst fragment_loop.simps) (use assms in \<open>simp add: Let_def m 1 ne slice_of_def fragment_stats_new_def\<close>)
  have "unat ((1500 - 14 - 20) div 8 * 8 :: u64) = 1464"
    using unat_fragment_size [of "1500 - 14"] unfolding mtu_1486 .
  then show ?thesis
    using assms(1) 0 unfolding fragment_packet_def Let_def mtu_1486 by simp
qed

section \<open>The input routine\<close>

text \<open>Packets through the whole input routine of a host with the given addresses and routes.\<close>

fun input_packets :: "u32 list \<Rightarrow> routing_table \<Rightarrow> ((u64 \<times> u64 \<times> u64) \<times> u8 list) list \<Rightarrow> fragment_state \<Rightarrow>
     (input_action list \<times> fragment_state) rust" where
  "input_packets our_ips table [] st = Inr ([], st)"
| "input_packets our_ips table ((clocks, packet) # ps) st =
     (case (case parse_ipv4_header packet of None \<Rightarrow> Inr (InNothing, st)
            | Some (h, payload) \<Rightarrow> ipv4_input our_ips table clocks h payload st) of
        Inl e \<Rightarrow> Inl e
      | Inr (a, st') \<Rightarrow> (case input_packets our_ips table ps st' of Inl e \<Rightarrow> Inl e | Inr (as, st'') \<Rightarrow> Inr (a # as, st'')))"

definition reassembly_action :: "u8 list option \<Rightarrow> input_action" where
  "reassembly_action r = (case r of None \<Rightarrow> InNothing | Some datagram \<Rightarrow> InDispatch datagram)"

lemma input_packets_fragments:
  assumes "\<And>j. j \<in> set js \<Longrightarrow> length (fs ! j) \<le> 65515 \<and> offs j < 0x2000 \<and> (offs j \<noteq> 0 \<or> mf j)"
  shows "input_packets our_ips table
      (map (\<lambda>j. (clocks j, build_ipv4_fragment src dst proto ttl ident (mf j) (offs j) (fs ! j))) js) st
    = (case process_fragments src dst proto (swap_u16 ident) (map (\<lambda>j. (clocks j, offs j, mf j, fs ! j)) js) st of
         Inl e \<Rightarrow> Inl e | Inr (rs, st') \<Rightarrow> Inr (map reassembly_action rs, st'))"
  using assms
proof (induction js arbitrary: st)
  case (Cons j js)
  have "length (fs ! j) \<le> 65515" "offs j < 0x2000" "offs j \<noteq> 0 \<or> mf j" using Cons.prems [of j] by simp_all
  from parse_build_fragment [OF this(1,2), of src dst proto ttl ident "mf j"] obtain h where
    h: "parse_ipv4_header (build_ipv4_fragment src dst proto ttl ident (mf j) (offs j) (fs ! j)) = Some (h, fs ! j)"
      "ip_src h = src" "ip_dst h = dst" "ip_protocol h = proto" "ip_identification h = ident"
      "fragment_offset h = offs j" "more_fragments h \<longleftrightarrow> mf j" by blast
  have "ipv4_input our_ips table (clocks j) h (fs ! j) st =
      (case process_fragment (clocks j) src dst proto (swap_u16 ident) (offs j) (mf j) (fs ! j) st of
         Inl e \<Rightarrow> Inl e | Inr (r, st') \<Rightarrow> Inr (reassembly_action r, st'))"
    using h \<open>offs j \<noteq> 0 \<or> mf j\<close> by (auto simp: ipv4_input_def reassembly_action_def split: sum.splits option.splits prod.splits)
  then show ?case using Cons h(1) by (simp split: sum.splits prod.splits)
qed simp

section \<open>Properties\<close>

text \<open>
  C9: End to end, on the path of \<open>send_ipv4\<close> to the network card (not its loopback shortcut):
  sending a payload of at most 65535 bytes always produces packets, and
  when they arrive in any order at a receiver that is not already reassembling from that
  sender and has fewer than 31 other buffers, every packet but the last gives nothing, the
  last gives exactly the payload, and the receiver's buffers are as before.
\<close>

theorem datagram_arrives:
  assumes "length payload \<le> 65535"
    and "bt_ok (reassembly_buffers st)" "map_of (reassembly_buffers st) (src, dst, proto, 0) = None"
      "Suc (length (reassembly_buffers st)) < MAX_REASSEMBLY_BUFFERS"
  shows "\<exists>packets stats'. send_packets src dst proto payload stats = Some (packets, stats') \<and> packets \<noteq> []
    \<and> (\<forall>js clocks. mset js = mset [0..<length packets] \<longrightarrow>
        (\<exists>st'. receive_packets (map (\<lambda>j. (clocks j, packets ! j)) js) st
          = Inr (replicate (length packets - 1) None @ [Some payload], st') \<and> reassembly_buffers st' = reassembly_buffers st))"
proof -
  obtain fs stats' where fs: "fragment_packet payload (1500 - 14) stats = Some (fs, stats')"
    "concat fs = payload" "fs \<noteq> []" "\<forall>f \<in> set fs. length f \<le> 1466"
    using sent_fragments [OF assms(1), of stats] by metis
  let ?ps = "send_fragments src dst proto (1 < length fs) 0 fs"
  have send: "send_packets src dst proto payload stats = Some (?ps, stats')"
    unfolding send_packets_def fs(1) by simp
  have ne: "?ps \<noteq> []" using fs(3) by (metis length_0_conv length_send_fragments)
  have "\<exists>st'. receive_packets (map (\<lambda>j. (clocks j, ?ps ! j)) js) st
      = Inr (replicate (length ?ps - 1) None @ [Some payload], st') \<and> reassembly_buffers st' = reassembly_buffers st"
    if js: "mset js = mset [0..<length ?ps]" for js and clocks :: "nat \<Rightarrow> u64 \<times> u64 \<times> u64"
  proof (cases "1 < length fs")
    case True
    then show ?thesis using sent_packets_fragmented [OF assms(1) fs(1) True _ assms(2-4)] js by simp
  next
    case False
    then obtain f where f: "fs = [f]" using fs(3) by (cases fs) auto
    then have "js = [0]" using js by simp
    moreover have "f = payload" "length payload \<le> 65515" using f fs(2,4) by auto
    moreover from parse_build_packet [OF this(2), of src dst proto 64] obtain h where
      "parse_ipv4_header (build_ipv4_packet src dst proto 64 payload) = Some (h, payload)" "fragment_offset h = 0" "\<not> more_fragments h"
      by blast
    ultimately show ?thesis using f by (simp add: receive_datagram_def)
  qed
  with send ne show ?thesis by blast
qed

theorem datagram_arrives_witness:
  "\<exists>packets stats'. send_packets 1 2 17 [1, 2, 3] fragment_stats_new = Some (packets, stats')
    \<and> (\<exists>st'. receive_packets [((0, 0, 0), packets ! 0)] fragment_init = Inr ([Some [1, 2, 3]], st'))"
proof -
  have "length [1, 2, 3 :: u8] \<le> 65535" "bt_ok (reassembly_buffers fragment_init)"
    "map_of (reassembly_buffers fragment_init) (1, 2, 17, 0) = None"
    "Suc (length (reassembly_buffers fragment_init)) < MAX_REASSEMBLY_BUFFERS"
    by (simp_all add: fragment_init_def bt_ok_def MAX_REASSEMBLY_BUFFERS_def)
  note arrives = datagram_arrives [OF this, of fragment_stats_new]
  define packets where "packets = [build_ipv4_packet 1 2 17 64 [1, 2, 3]]"
  have send: "send_packets 1 2 17 [1, 2, 3] fragment_stats_new = Some (packets, fragment_stats_new)"
    unfolding packets_def by (rule send_packets_single) simp
  from arrives obtain packets' stats' where a: "send_packets 1 2 17 [1, 2, 3] fragment_stats_new = Some (packets', stats')"
    "\<forall>js clocks. mset js = mset [0..<length packets'] \<longrightarrow>
      (\<exists>st'. receive_packets (map (\<lambda>j. (clocks j, packets' ! j)) js) fragment_init
        = Inr (replicate (length packets' - 1) None @ [Some [1, 2, 3]], st')
        \<and> reassembly_buffers st' = reassembly_buffers fragment_init)" by blast
  have p: "packets' = packets" using a(1) send by simp
  have "mset [0] = mset [0..<length packets]" by (simp add: packets_def)
  from a(2) [unfolded p, rule_format, OF this, of "\<lambda>j. (0, 0, 0)"] obtain st' where
    "receive_packets (map (\<lambda>j. ((0, 0, 0), packets ! j)) [0]) fragment_init
      = Inr (replicate (length packets - 1) None @ [Some [1, 2, 3]], st')" by blast
  then have "receive_packets [((0, 0, 0), packets ! 0)] fragment_init = Inr ([Some [1, 2, 3]], st')"
    by (simp add: packets_def del: receive_packets.simps)
  with send show ?thesis by blast
qed

text \<open>
  C40: All datagrams carry the identification 0, so fragments of different datagrams of the
  same protocol between the same hosts mix: the first fragment of one payload and the
  second of another of the same length are accepted as a datagram that nobody sent.
\<close>

theorem same_identification_mixes:
  assumes "length a = length b" "1466 < length a" "length a \<le> 2928"
  shows "\<exists>pa pb sa sb st'. send_packets 1 2 17 a fragment_stats_new = Some (pa, sa)
    \<and> send_packets 1 2 17 b fragment_stats_new = Some (pb, sb)
    \<and> receive_packets [((0, 0, 0), pa ! 0), ((0, 0, 0), pb ! 1)] fragment_init
      = Inr ([None, Some (take 1464 a @ drop 1464 b)], st')"
proof -
  let ?c = "take 1464 a @ drop 1464 b"
  have len: "length ?c = length a" using assms by simp
  have c: "take 1464 ?c = take 1464 a" "drop 1464 ?c = drop 1464 b" using assms by simp_all
  let ?fs = "[take 1464 a, drop 1464 b]"
  have fc: "fragment_packet ?c (1500 - 14) fragment_stats_new = Some (?fs, fragment_stats_new\<lparr>fragments_created := 2\<rparr>)"
    using two_fragments [of ?c] assms unfolding c len by simp
  have "length ?c \<le> 65535" "1 < length ?fs" "mset [0, 1] = mset [0..<length ?fs]"
    "bt_ok (reassembly_buffers fragment_init)" "map_of (reassembly_buffers fragment_init) (1, 2, 17, 0) = None"
    "Suc (length (reassembly_buffers fragment_init)) < MAX_REASSEMBLY_BUFFERS"
    using len assms by (simp_all add: fragment_init_def bt_ok_def MAX_REASSEMBLY_BUFFERS_def upt_rec)
  from sent_packets_fragmented [OF this(1) fc this(2-6), of "\<lambda>j. (0, 0, 0)"] obtain st' where
    "receive_packets [((0, 0, 0), send_fragments 1 2 17 True 0 ?fs ! 0), ((0, 0, 0), send_fragments 1 2 17 True 0 ?fs ! 1)] fragment_init
      = Inr ([None, Some ?c], st')" by auto
  moreover have send: "send_packets 1 2 17 p fragment_stats_new
      = Some (send_fragments 1 2 17 True 0 [take 1464 p, drop 1464 p], fragment_stats_new\<lparr>fragments_created := 2\<rparr>)"
    if "1466 < length p" "length p \<le> 2928" for p
    unfolding send_packets_def two_fragments [OF that] by simp
  have "send_fragments 1 2 17 True 0 ?fs ! 0 = send_fragments 1 2 17 True 0 [take 1464 a, drop 1464 a] ! 0"
    "send_fragments 1 2 17 True 0 ?fs ! 1 = send_fragments 1 2 17 True 0 [take 1464 b, drop 1464 b] ! 1"
    using assms by simp_all
  ultimately have "receive_packets [((0, 0, 0), send_fragments 1 2 17 True 0 [take 1464 a, drop 1464 a] ! 0),
      ((0, 0, 0), send_fragments 1 2 17 True 0 [take 1464 b, drop 1464 b] ! 1)] fragment_init = Inr ([None, Some ?c], st')"
    by argo
  moreover have "1466 < length b" "length b \<le> 2928" using assms by simp_all
  ultimately show ?thesis using send [OF assms(2,3)] send [of b] by blast
qed

theorem same_identification_mixes_witness:
  "\<exists>pa pb sa sb st'. send_packets 1 2 17 (replicate 1500 7) fragment_stats_new = Some (pa, sa)
    \<and> send_packets 1 2 17 (replicate 1500 8) fragment_stats_new = Some (pb, sb)
    \<and> receive_packets [((0, 0, 0), pa ! 0), ((0, 0, 0), pb ! 1)] fragment_init
      = Inr ([None, Some (replicate 1464 7 @ replicate 36 8)], st')"
  using same_identification_mixes [of "replicate 1500 7" "replicate 1500 8"] by simp

text \<open>
  C38: What is delivered here.  An unfragmented packet is dispatched exactly when it is
  addressed to this host or broadcast and its time to live is above 1, and then unchanged.
  A fragmented datagram is dispatched whatever its destination, its time to live and the
  addresses of the host are: when the fragments of a payload of at most 65515 bytes, at most
  64 of them, arrive in any order at a host that is not already reassembling under their key
  and has fewer than 31 other buffers, every packet but the last gives nothing and the last
  dispatches the whole payload.
\<close>

theorem local_delivery:
  assumes "fragment_packet payload mtu stats = Some (fs, stats')" "1 < length fs" "length fs \<le> MAX_FRAGMENTS_PER_PACKET"
    and "length payload \<le> 65515" "mset js = mset [0..<length fs]"
    and "bt_ok (reassembly_buffers st)" "map_of (reassembly_buffers st) (src, dst, proto, swap_u16 ident) = None"
      "Suc (length (reassembly_buffers st)) < MAX_REASSEMBLY_BUFFERS"
  shows "(\<exists>st'. input_packets our_ips table
        (map (\<lambda>j. (clocks j, build_ipv4_fragment src dst proto ttl ident (Suc j < length fs) (fragment_units fs j) (fs ! j))) js) st
      = Inr (replicate (length fs - 1) InNothing @ [InDispatch payload], st') \<and> reassembly_buffers st' = reassembly_buffers st)
    \<and> (\<not> (fragment_offset h \<noteq> 0 \<or> more_fragments h) \<longrightarrow>
        (ipv4_input our_ips table clock h p st = Inr (InDispatch d, st2) \<longleftrightarrow>
          (ip_dst h \<in> set our_ips \<or> ip_dst h = 0xFFFFFFFF) \<and> 1 < ip_ttl h \<and> d = p \<and> st2 = st))"
proof
  have "\<not> (unat (mtu - 20) < length payload \<and> unat (mtu - 20) < 8)"
    using assms(1) fragment_packet_stuck [of mtu payload stats] by auto
  then have fit: "length payload \<le> unat (mtu - 20) \<or> 8 \<le> unat (mtu - 20)" by linarith
  have fs: "concat fs = payload" "[] \<notin> set fs" "\<forall>f \<in> set (butlast fs). 8 dvd length f"
    using fragment_packet_spec [OF fit, of stats] assms(1,2) by force+
  note js = any_order [OF assms(5)]
  have small: "length (concat fs) \<le> 65535" using fs(1) assms(4) by simp
  have ok: "length (fs ! j) \<le> 65515 \<and> fragment_units fs j < 0x2000 \<and> (fragment_units fs j \<noteq> 0 \<or> Suc j < length fs)"
    if "j \<in> set js" for j
  proof -
    have j: "j < length fs" using that js(2) by simp
    have "length (fs ! j) \<le> length payload"
      using fragment_pos_next [OF j order_refl] fs(1) by (simp add: fragment_pos_end)
    with assms(4) fragment_units_fit [OF fs(2,3) small assms(2) j] show ?thesis by simp
  qed
  have ne: "js \<noteq> []" using js(3) assms(2) by auto
  have "\<exists>st'. process_fragments src dst proto (swap_u16 ident)
      (map (\<lambda>j. (clocks j, fragment_units fs j, Suc j < length fs, fs ! j)) js) st
    = Inr (replicate (length js - 1) None @ [Some (concat fs)], st') \<and> reassembly_buffers st' = reassembly_buffers st"
    by (rule process_fragments_rest [OF assms(6-8) _ assms(3) fragment_units_pos [OF fs(3)] ne js(1)])
      (use fs(1,2) js(2) assms(4) in \<open>auto simp: receiving_def\<close>)
  moreover have "input_packets our_ips table
        (map (\<lambda>j. (clocks j, build_ipv4_fragment src dst proto ttl ident (Suc j < length fs) (fragment_units fs j) (fs ! j))) js) st
      = (case process_fragments src dst proto (swap_u16 ident)
          (map (\<lambda>j. (clocks j, fragment_units fs j, Suc j < length fs, fs ! j)) js) st of
         Inl e \<Rightarrow> Inl e | Inr (rs, st') \<Rightarrow> Inr (map reassembly_action rs, st'))"
    by (rule input_packets_fragments) (rule ok)
  ultimately show "\<exists>st'. input_packets our_ips table
        (map (\<lambda>j. (clocks j, build_ipv4_fragment src dst proto ttl ident (Suc j < length fs) (fragment_units fs j) (fs ! j))) js) st
      = Inr (replicate (length fs - 1) InNothing @ [InDispatch payload], st') \<and> reassembly_buffers st' = reassembly_buffers st"
    using fs(1) js(3) by (auto simp: reassembly_action_def)
  have "1 < ip_ttl h \<longleftrightarrow> \<not> ip_ttl h \<le> 1" by (simp add: not_le)
  then show "\<not> (fragment_offset h \<noteq> 0 \<or> more_fragments h) \<longrightarrow>
      (ipv4_input our_ips table clock h p st = Inr (InDispatch d, st2) \<longleftrightarrow>
        (ip_dst h \<in> set our_ips \<or> ip_dst h = 0xFFFFFFFF) \<and> 1 < ip_ttl h \<and> d = p \<and> st2 = st)"
    by (auto simp: ipv4_input_def Let_def is_broadcast_ip_def)
qed

theorem local_delivery_witness:
  "\<exists>st'. input_packets [0x0A000005] []
      [((0, 0, 0), build_ipv4_fragment 1 0x0B000000 17 0 5 False 1 [9]),
       ((0, 0, 0), build_ipv4_fragment 1 0x0B000000 17 0 5 True 0 (replicate 8 7))] fragment_init
    = Inr ([InNothing, InDispatch (replicate 8 7 @ [9])], st')"
proof -
  define fs :: "u8 list list" where "fs = [replicate 8 7, [9]]"
  have f: "fragment_packet (replicate 8 7 @ [9]) 28 fragment_stats_new = Some (fs, fragment_stats_new\<lparr>fragments_created := 2\<rparr>)"
    unfolding fs_def by code_simp
  have "1 < length fs" "length fs \<le> MAX_FRAGMENTS_PER_PACKET" "length (replicate 8 7 @ [9 :: u8]) \<le> 65515"
    "mset [1, 0] = mset [0..<length fs]" "bt_ok (reassembly_buffers fragment_init)"
    "map_of (reassembly_buffers fragment_init) (1, 0x0B000000, 17, swap_u16 5) = None"
    "Suc (length (reassembly_buffers fragment_init)) < MAX_REASSEMBLY_BUFFERS"
    by (simp_all add: fs_def fragment_init_def bt_ok_def MAX_FRAGMENTS_PER_PACKET_def MAX_REASSEMBLY_BUFFERS_def upt_rec)
  from local_delivery [OF f this, of "[0x0A000005]" "[]" "\<lambda>j. (0, 0, 0)" 0] obtain st' where
    "input_packets [0x0A000005] [] (map (\<lambda>j. ((0, 0, 0), build_ipv4_fragment 1 0x0B000000 17 0 5 (Suc j < length fs)
        (fragment_units fs j) (fs ! j))) [1, 0]) fragment_init
      = Inr (replicate (length fs - 1) InNothing @ [InDispatch (replicate 8 7 @ [9])], st')" by blast
  then show ?thesis
    by (simp add: fs_def fragment_units_def fragment_pos_def del: input_packets.simps)
qed

end
