(* ===== verification/Aes.thy ===== *)
theory Aes
  imports Hash
begin

text \<open>
  The AES block cipher of \<open>crypto/cipher.rs\<close>: the multiplication in the field with
  256 elements, the four round transformations and their inverses, the key schedules of
  AES-128 and AES-256, and the two ciphers. A block \<open>[u8; 16]\<close> is a byte list of
  length 16, the state a mutable block that every operation returns. The lemmas show
  that each transformation is undone by its inverse, in both orders, so that
  encryption under any round keys is a permutation of the blocks and decryption is its
  inverse.
\<close>

section \<open>Tables\<close>

definition AES_BLOCK_SIZE :: nat where "AES_BLOCK_SIZE = 16"

definition SBOX :: "u8 list" where
  "SBOX =
    [0x63, 0x7c, 0x77, 0x7b, 0xf2, 0x6b, 0x6f, 0xc5, 0x30, 0x01, 0x67, 0x2b, 0xfe, 0xd7, 0xab, 0x76,
     0xca, 0x82, 0xc9, 0x7d, 0xfa, 0x59, 0x47, 0xf0, 0xad, 0xd4, 0xa2, 0xaf, 0x9c, 0xa4, 0x72, 0xc0,
     0xb7, 0xfd, 0x93, 0x26, 0x36, 0x3f, 0xf7, 0xcc, 0x34, 0xa5, 0xe5, 0xf1, 0x71, 0xd8, 0x31, 0x15,
     0x04, 0xc7, 0x23, 0xc3, 0x18, 0x96, 0x05, 0x9a, 0x07, 0x12, 0x80, 0xe2, 0xeb, 0x27, 0xb2, 0x75,
     0x09, 0x83, 0x2c, 0x1a, 0x1b, 0x6e, 0x5a, 0xa0, 0x52, 0x3b, 0xd6, 0xb3, 0x29, 0xe3, 0x2f, 0x84,
     0x53, 0xd1, 0x00, 0xed, 0x20, 0xfc, 0xb1, 0x5b, 0x6a, 0xcb, 0xbe, 0x39, 0x4a, 0x4c, 0x58, 0xcf,
     0xd0, 0xef, 0xaa, 0xfb, 0x43, 0x4d, 0x33, 0x85, 0x45, 0xf9, 0x02, 0x7f, 0x50, 0x3c, 0x9f, 0xa8,
     0x51, 0xa3, 0x40, 0x8f, 0x92, 0x9d, 0x38, 0xf5, 0xbc, 0xb6, 0xda, 0x21, 0x10, 0xff, 0xf3, 0xd2,
     0xcd, 0x0c, 0x13, 0xec, 0x5f, 0x97, 0x44, 0x17, 0xc4, 0xa7, 0x7e, 0x3d, 0x64, 0x5d, 0x19, 0x73,
     0x60, 0x81, 0x4f, 0xdc, 0x22, 0x2a, 0x90, 0x88, 0x46, 0xee, 0xb8, 0x14, 0xde, 0x5e, 0x0b, 0xdb,
     0xe0, 0x32, 0x3a, 0x0a, 0x49, 0x06, 0x24, 0x5c, 0xc2, 0xd3, 0xac, 0x62, 0x91, 0x95, 0xe4, 0x79,
     0xe7, 0xc8, 0x37, 0x6d, 0x8d, 0xd5, 0x4e, 0xa9, 0x6c, 0x56, 0xf4, 0xea, 0x65, 0x7a, 0xae, 0x08,
     0xba, 0x78, 0x25, 0x2e, 0x1c, 0xa6, 0xb4, 0xc6, 0xe8, 0xdd, 0x74, 0x1f, 0x4b, 0xbd, 0x8b, 0x8a,
     0x70, 0x3e, 0xb5, 0x66, 0x48, 0x03, 0xf6, 0x0e, 0x61, 0x35, 0x57, 0xb9, 0x86, 0xc1, 0x1d, 0x9e,
     0xe1, 0xf8, 0x98, 0x11, 0x69, 0xd9, 0x8e, 0x94, 0x9b, 0x1e, 0x87, 0xe9, 0xce, 0x55, 0x28, 0xdf,
     0x8c, 0xa1, 0x89, 0x0d, 0xbf, 0xe6, 0x42, 0x68, 0x41, 0x99, 0x2d, 0x0f, 0xb0, 0x54, 0xbb, 0x16]"

definition INV_SBOX :: "u8 list" where
  "INV_SBOX =
    [0x52, 0x09, 0x6a, 0xd5, 0x30, 0x36, 0xa5, 0x38, 0xbf, 0x40, 0xa3, 0x9e, 0x81, 0xf3, 0xd7, 0xfb,
     0x7c, 0xe3, 0x39, 0x82, 0x9b, 0x2f, 0xff, 0x87, 0x34, 0x8e, 0x43, 0x44, 0xc4, 0xde, 0xe9, 0xcb,
     0x54, 0x7b, 0x94, 0x32, 0xa6, 0xc2, 0x23, 0x3d, 0xee, 0x4c, 0x95, 0x0b, 0x42, 0xfa, 0xc3, 0x4e,
     0x08, 0x2e, 0xa1, 0x66, 0x28, 0xd9, 0x24, 0xb2, 0x76, 0x5b, 0xa2, 0x49, 0x6d, 0x8b, 0xd1, 0x25,
     0x72, 0xf8, 0xf6, 0x64, 0x86, 0x68, 0x98, 0x16, 0xd4, 0xa4, 0x5c, 0xcc, 0x5d, 0x65, 0xb6, 0x92,
     0x6c, 0x70, 0x48, 0x50, 0xfd, 0xed, 0xb9, 0xda, 0x5e, 0x15, 0x46, 0x57, 0xa7, 0x8d, 0x9d, 0x84,
     0x90, 0xd8, 0xab, 0x00, 0x8c, 0xbc, 0xd3, 0x0a, 0xf7, 0xe4, 0x58, 0x05, 0xb8, 0xb3, 0x45, 0x06,
     0xd0, 0x2c, 0x1e, 0x8f, 0xca, 0x3f, 0x0f, 0x02, 0xc1, 0xaf, 0xbd, 0x03, 0x01, 0x13, 0x8a, 0x6b,
     0x3a, 0x91, 0x11, 0x41, 0x4f, 0x67, 0xdc, 0xea, 0x97, 0xf2, 0xcf, 0xce, 0xf0, 0xb4, 0xe6, 0x73,
     0x96, 0xac, 0x74, 0x22, 0xe7, 0xad, 0x35, 0x85, 0xe2, 0xf9, 0x37, 0xe8, 0x1c, 0x75, 0xdf, 0x6e,
     0x47, 0xf1, 0x1a, 0x71, 0x1d, 0x29, 0xc5, 0x89, 0x6f, 0xb7, 0x62, 0x0e, 0xaa, 0x18, 0xbe, 0x1b,
     0xfc, 0x56, 0x3e, 0x4b, 0xc6, 0xd2, 0x79, 0x20, 0x9a, 0xdb, 0xc0, 0xfe, 0x78, 0xcd, 0x5a, 0xf4,
     0x1f, 0xdd, 0xa8, 0x33, 0x88, 0x07, 0xc7, 0x31, 0xb1, 0x12, 0x10, 0x59, 0x27, 0x80, 0xec, 0x5f,
     0x60, 0x51, 0x7f, 0xa9, 0x19, 0xb5, 0x4a, 0x0d, 0x2d, 0xe5, 0x7a, 0x9f, 0x93, 0xc9, 0x9c, 0xef,
     0xa0, 0xe0, 0x3b, 0x4d, 0xae, 0x2a, 0xf5, 0xb0, 0xc8, 0xeb, 0xbb, 0x3c, 0x83, 0x53, 0x99, 0x61,
     0x17, 0x2b, 0x04, 0x7e, 0xba, 0x77, 0xd6, 0x26, 0xe1, 0x69, 0x14, 0x63, 0x55, 0x21, 0x0c, 0x7d]"

section \<open>Field multiplication\<close>

text \<open>The loop of \<open>gmul\<close>, with the number of rounds still to run.\<close>

primrec gmul_loop :: "nat \<Rightarrow> u8 \<Rightarrow> u8 \<Rightarrow> u8 \<Rightarrow> u8" where
  "gmul_loop 0 p a b = p"
| "gmul_loop (Suc n) p a b =
     gmul_loop n (if b AND 1 \<noteq> 0 then p XOR a else p)
       (if a AND 0x80 \<noteq> 0 then push_bit 1 a XOR 0x1b else push_bit 1 a) (drop_bit 1 b)"

definition gmul :: "u8 \<Rightarrow> u8 \<Rightarrow> u8" where
  "gmul a b = gmul_loop 8 0 a b"

section \<open>Round transformations\<close>

definition add_round_key :: "u8 list \<Rightarrow> u8 list \<Rightarrow> u8 list" where
  "add_round_key state key = fold (\<lambda>i s. s[i := s ! i XOR key ! i]) [0..<16] state"

definition sub_bytes :: "u8 list \<Rightarrow> u8 list" where
  "sub_bytes state = map (\<lambda>byte. SBOX ! unat byte) state"

definition inv_sub_bytes :: "u8 list \<Rightarrow> u8 list" where
  "inv_sub_bytes state = map (\<lambda>byte. INV_SBOX ! unat byte) state"

definition shift_rows :: "u8 list \<Rightarrow> u8 list" where
  "shift_rows tmp =
     [tmp ! 0, tmp ! 5, tmp ! 10, tmp ! 15, tmp ! 4, tmp ! 9, tmp ! 14, tmp ! 3,
      tmp ! 8, tmp ! 13, tmp ! 2, tmp ! 7, tmp ! 12, tmp ! 1, tmp ! 6, tmp ! 11]"

definition inv_shift_rows :: "u8 list \<Rightarrow> u8 list" where
  "inv_shift_rows tmp =
     [tmp ! 0, tmp ! 13, tmp ! 10, tmp ! 7, tmp ! 4, tmp ! 1, tmp ! 14, tmp ! 11,
      tmp ! 8, tmp ! 5, tmp ! 2, tmp ! 15, tmp ! 12, tmp ! 9, tmp ! 6, tmp ! 3]"

definition mix_columns :: "u8 list \<Rightarrow> u8 list" where
  "mix_columns state = fold (\<lambda>i s.
     (let s0 = s ! (i * 4); s1 = s ! (i * 4 + 1); s2 = s ! (i * 4 + 2); s3 = s ! (i * 4 + 3)
      in s[i * 4 := gmul s0 2 XOR gmul s1 3 XOR s2 XOR s3,
           i * 4 + 1 := s0 XOR gmul s1 2 XOR gmul s2 3 XOR s3,
           i * 4 + 2 := s0 XOR s1 XOR gmul s2 2 XOR gmul s3 3,
           i * 4 + 3 := gmul s0 3 XOR s1 XOR s2 XOR gmul s3 2])) [0..<4] state"

definition inv_mix_columns :: "u8 list \<Rightarrow> u8 list" where
  "inv_mix_columns state = fold (\<lambda>i s.
     (let s0 = s ! (i * 4); s1 = s ! (i * 4 + 1); s2 = s ! (i * 4 + 2); s3 = s ! (i * 4 + 3)
      in s[i * 4 := gmul s0 14 XOR gmul s1 11 XOR gmul s2 13 XOR gmul s3 9,
           i * 4 + 1 := gmul s0 9 XOR gmul s1 14 XOR gmul s2 11 XOR gmul s3 13,
           i * 4 + 2 := gmul s0 13 XOR gmul s1 9 XOR gmul s2 14 XOR gmul s3 11,
           i * 4 + 3 := gmul s0 11 XOR gmul s1 13 XOR gmul s2 9 XOR gmul s3 14])) [0..<4] state"

section \<open>The ciphers\<close>

definition cipher :: "u8 list \<Rightarrow> u8 list list \<Rightarrow> nat \<Rightarrow> u8 list" where
  "cipher state round_keys rounds =
     (let s0 = add_round_key state (round_keys ! 0);
          s1 = fold (\<lambda>round s.
                 add_round_key (mix_columns (shift_rows (sub_bytes s))) (round_keys ! round))
                 [1..<rounds] s0
      in add_round_key (shift_rows (sub_bytes s1)) (round_keys ! rounds))"

definition inv_cipher :: "u8 list \<Rightarrow> u8 list list \<Rightarrow> nat \<Rightarrow> u8 list" where
  "inv_cipher state round_keys rounds =
     (let s0 = add_round_key state (round_keys ! rounds);
          s1 = fold (\<lambda>round s.
                 inv_mix_columns (add_round_key (inv_sub_bytes (inv_shift_rows s)) (round_keys ! round)))
                 (rev [1..<rounds]) s0
      in add_round_key (inv_sub_bytes (inv_shift_rows s1)) (round_keys ! 0))"

text \<open>
  The key schedules. Both build a round key from an older one and four bytes derived
  from the last word of the previous one: the first word is the older word xored with
  these bytes, every other word the older one xored with its new neighbour.
\<close>

definition next_round_key :: "u8 list \<Rightarrow> u8 list \<Rightarrow> u8 list" where
  "next_round_key older temp =
     fold (\<lambda>j rk. rk[j := older ! j XOR rk ! (j - 4)]) [4..<16]
       (fold (\<lambda>j rk. rk[j := older ! j XOR temp ! j]) [0..<4] (replicate 16 0))"

definition schedule_word :: "u8 list \<Rightarrow> u8 list" where
  "schedule_word prev =
     map (\<lambda>byte. SBOX ! unat byte) (rotate1 [prev ! 12, prev ! 13, prev ! 14, prev ! 15])"

definition RCON :: "u8 list" where
  "RCON = [0x01, 0x02, 0x04, 0x08, 0x10, 0x20, 0x40, 0x80, 0x1b, 0x36]"

definition key_expansion128 :: "u8 list \<Rightarrow> u8 list list" where
  "key_expansion128 key =
     fold (\<lambda>i rks.
       (let prev = rks ! (i - 1);
            temp = schedule_word prev;
            temp1 = temp[0 := temp ! 0 XOR RCON ! (i - 1)]
        in rks[i := next_round_key prev temp1])) [1..<11] ((replicate 11 (replicate 16 0))[0 := key])"

definition key_expansion256 :: "u8 list \<Rightarrow> u8 list list" where
  "key_expansion256 key =
     fold (\<lambda>i rks.
       (let prev = rks ! (i - 1); prev2 = rks ! (i - 2)
        in if i mod 2 = 0 then
             let temp = schedule_word prev;
                 temp1 = temp[0 := temp ! 0 XOR RCON ! (i div 2 - 1)]
             in rks[i := next_round_key prev2 temp1]
           else
             rks[i := next_round_key prev2
               (map (\<lambda>byte. SBOX ! unat byte) [prev ! 12, prev ! 13, prev ! 14, prev ! 15])]))
       [2..<15] ((replicate 15 (replicate 16 0))[0 := take 16 key, 1 := take 16 (drop 16 key)])"

record aes128 =
  round_keys128 :: "u8 list list"

record aes256 =
  round_keys256 :: "u8 list list"

definition aes128_new :: "u8 list \<Rightarrow> aes128" where
  "aes128_new key = \<lparr>round_keys128 = key_expansion128 key\<rparr>"

definition aes128_encrypt_block :: "aes128 \<Rightarrow> u8 list \<Rightarrow> u8 list" where
  "aes128_encrypt_block c block = cipher block (round_keys128 c) 10"

definition aes128_decrypt_block :: "aes128 \<Rightarrow> u8 list \<Rightarrow> u8 list" where
  "aes128_decrypt_block c block = inv_cipher block (round_keys128 c) 10"

definition aes256_new :: "u8 list \<Rightarrow> aes256" where
  "aes256_new key = \<lparr>round_keys256 = key_expansion256 key\<rparr>"

definition aes256_encrypt_block :: "aes256 \<Rightarrow> u8 list \<Rightarrow> u8 list" where
  "aes256_encrypt_block c block = cipher block (round_keys256 c) 14"

definition aes256_decrypt_block :: "aes256 \<Rightarrow> u8 list \<Rightarrow> u8 list" where
  "aes256_decrypt_block c block = inv_cipher block (round_keys256 c) 14"

section \<open>The field\<close>

definition xtime :: "u8 \<Rightarrow> u8" where
  "xtime a = (if a AND 0x80 \<noteq> 0 then push_bit 1 a XOR 0x1b else push_bit 1 a)"

lemma high_bit_set: "a AND 0x80 \<noteq> 0 \<longleftrightarrow> bit a 7" for a :: u8
proof -
  have "(0x80 :: u8) = push_bit 7 1"
    by simp
  then have "bit (0x80 :: u8) n \<longleftrightarrow> n = 7" for n
    by (simp only: bit_push_bit_iff bit_1_iff) auto
  then show ?thesis
    unfolding and_eq_0_iff_bits by metis
qed

lemma xtime_alt: "xtime a = push_bit 1 a XOR (if bit a 7 then 0x1b else 0)"
  by (simp add: xtime_def high_bit_set)

lemma xtime_xor [simp]: "xtime (a XOR b) = xtime a XOR xtime b"
  unfolding xtime_alt by (auto simp: bit_xor_iff push_bit_xor ac_simps)

lemma gmul_loop_xtime:
  "gmul_loop (Suc n) p a b = gmul_loop n (if odd b then p XOR a else p) (xtime a) (drop_bit 1 b)"
  by (simp add: xtime_def and_one_eq mod_2_eq_odd)

lemma gmul_loop_zero [simp]: "gmul_loop n p a 0 = p"
  by (induction n arbitrary: a) simp_all

lemma drop_bit_digits:
  "drop_bit 1 (1 :: u8) = 0" "drop_bit 1 (2 :: u8) = 1" "drop_bit 1 (3 :: u8) = 1"
  "drop_bit 1 (4 :: u8) = 2" "drop_bit 1 (5 :: u8) = 2" "drop_bit 1 (6 :: u8) = 3"
  "drop_bit 1 (7 :: u8) = 3" "drop_bit 1 (9 :: u8) = 4" "drop_bit 1 (11 :: u8) = 5"
  "drop_bit 1 (13 :: u8) = 6" "drop_bit 1 (14 :: u8) = 7"
  by code_simp+

lemma eight_rounds: "(8 :: nat) = Suc (Suc (Suc (Suc (Suc (Suc (Suc (Suc 0)))))))"
  by simp

lemma gmul_constants:
  "gmul a 2 = xtime a"
  "gmul a 3 = a XOR xtime a"
  "gmul a 9 = a XOR xtime (xtime (xtime a))"
  "gmul a 11 = a XOR xtime a XOR xtime (xtime (xtime a))"
  "gmul a 13 = a XOR xtime (xtime a) XOR xtime (xtime (xtime a))"
  "gmul a 14 = xtime a XOR xtime (xtime a) XOR xtime (xtime (xtime a))"
  unfolding gmul_def eight_rounds
  by (simp_all add: gmul_loop_xtime drop_bit_digits xor.assoc del: gmul_loop.simps(2))

lemma xor_cancel_left [simp]: "a XOR (a XOR b) = b" for a b :: "'a :: len word"
  by (simp flip: xor.assoc)

lemmas xor_cancel_ac = xor.assoc xor.commute xor.left_commute xor_cancel_left

section \<open>Each transformation and its inverse\<close>

lemma length16E:
  assumes "length s = 16"
  obtains s0 s1 s2 s3 s4 s5 s6 s7 s8 s9 s10 s11 s12 s13 s14 s15
  where "s = [s0, s1, s2, s3, s4, s5, s6, s7, s8, s9, s10, s11, s12, s13, s14, s15]"
  using assms by (auto simp: numeral_eq_Suc length_Suc_conv)

lemma upto_four: "[0..<4] = [0, 1, 2, 3 :: nat]"
  by (simp add: upt_rec)

lemma length_mix [simp]:
  "length s = 16 \<Longrightarrow> length (mix_columns s) = 16"
  "length s = 16 \<Longrightarrow> length (inv_mix_columns s) = 16"
  by (simp_all add: mix_columns_def inv_mix_columns_def upto_four Let_def)

lemma length_shift [simp]: "length (shift_rows s) = 16" "length (inv_shift_rows s) = 16"
  by (simp_all add: shift_rows_def inv_shift_rows_def)

lemma length_sub [simp]: "length (sub_bytes s) = length s" "length (inv_sub_bytes s) = length s"
  by (simp_all add: sub_bytes_def inv_sub_bytes_def)

lemma inv_shift_shift [simp]: "length s = 16 \<Longrightarrow> inv_shift_rows (shift_rows s) = s"
  by (erule length16E) (simp add: shift_rows_def inv_shift_rows_def)

lemma shift_inv_shift [simp]: "length s = 16 \<Longrightarrow> shift_rows (inv_shift_rows s) = s"
  by (erule length16E) (simp add: shift_rows_def inv_shift_rows_def)

lemma inv_mix_mix [simp]: "length s = 16 \<Longrightarrow> inv_mix_columns (mix_columns s) = s"
  by (erule length16E)
    (simp add: mix_columns_def inv_mix_columns_def upto_four Let_def gmul_constants xor_cancel_ac)

lemma mix_inv_mix [simp]: "length s = 16 \<Longrightarrow> mix_columns (inv_mix_columns s) = s"
  by (erule length16E)
    (simp add: mix_columns_def inv_mix_columns_def upto_four Let_def gmul_constants xor_cancel_ac)

lemma sbox_inverse_tables:
  "map (\<lambda>b. INV_SBOX ! unat b) SBOX = map of_nat [0..<256]"
  "map (\<lambda>b. SBOX ! unat b) INV_SBOX = map of_nat [0..<256]"
  by code_simp+

lemma length_SBOX [simp]: "length SBOX = 256" "length INV_SBOX = 256"
  by (simp_all add: SBOX_def INV_SBOX_def)

lemma unat_u8_less: "unat (b :: u8) < 256"
  using unsigned_less [of b] by simp

lemma inv_sbox_sbox [simp]: "INV_SBOX ! unat (SBOX ! unat b) = b" for b :: u8
  using arg_cong [OF sbox_inverse_tables(1), of "\<lambda>xs. xs ! unat b"] by (simp add: unat_u8_less)

lemma sbox_inv_sbox [simp]: "SBOX ! unat (INV_SBOX ! unat b) = b" for b :: u8
  using arg_cong [OF sbox_inverse_tables(2), of "\<lambda>xs. xs ! unat b"] by (simp add: unat_u8_less)

lemma inv_sub_sub [simp]: "inv_sub_bytes (sub_bytes s) = s"
  by (simp add: sub_bytes_def inv_sub_bytes_def map_idI)

lemma sub_inv_sub [simp]: "sub_bytes (inv_sub_bytes s) = s"
  by (simp add: sub_bytes_def inv_sub_bytes_def map_idI)

lemma fold_update_each:
  "n \<le> length xs \<Longrightarrow> fold (\<lambda>i s. s[i := f i (s ! i)]) [0..<n] xs = map (\<lambda>i. f i (xs ! i)) [0..<n] @ drop n xs"
proof (induction n)
  case (Suc n)
  have "(map (\<lambda>i. f i (xs ! i)) [0..<n] @ drop n xs)[n := f n (xs ! n)] =
      map (\<lambda>i. f i (xs ! i)) [0..<n] @ (drop n xs)[0 := f n (xs ! n)]"
    by (simp add: list_update_append)
  also have "(drop n xs)[0 := f n (xs ! n)] = f n (xs ! n) # drop (Suc n) xs"
    using Suc.prems by (simp flip: Cons_nth_drop_Suc)
  finally show ?case
    using Suc by (simp add: nth_append)
qed simp

lemma add_round_key_map2:
  assumes "length s = 16" "length k = 16"
  shows "add_round_key s k = map2 (XOR) s k"
  unfolding add_round_key_def using assms fold_update_each [of 16 s "\<lambda>i b. b XOR k ! i"]
  by (simp add: map2_map_map [symmetric] list_eq_iff_nth_eq)

lemma length_add_round_key [simp]: "length (add_round_key s k) = length s"
proof -
  have "length (fold (\<lambda>i s. s[i := s ! i XOR k ! i]) is s) = length s" for "is"
    by (induction "is" arbitrary: s) simp_all
  then show ?thesis by (simp add: add_round_key_def)
qed

lemma map2_xor_cancel: "length k = length s \<Longrightarrow> map2 (XOR) (map2 (XOR) s k) k = s"
  for s k :: "'a :: len word list"
  by (induction s k rule: list_induct2') (simp_all add: xor.assoc)

lemma add_round_key_twice [simp]:
  "length s = 16 \<Longrightarrow> length k = 16 \<Longrightarrow> add_round_key (add_round_key s k) k = s"
  by (simp add: add_round_key_map2 map2_xor_cancel)

section \<open>The ciphers are inverse to each other\<close>

text \<open>Undoing a loop by running the inverse steps backwards.\<close>

lemma fold_rev_inverse:
  assumes "\<And>i x. i \<in> set is \<Longrightarrow> P x \<Longrightarrow> P (f i x)"
    and "\<And>i x. i \<in> set is \<Longrightarrow> P x \<Longrightarrow> g i (h (f i x)) = h x"
    and "P x"
  shows "fold g (rev is) (h (fold f is x)) = h x"
  using assms
proof (induction "is" arbitrary: x)
  case (Cons i "is")
  have "fold g (rev is) (h (fold f is (f i x))) = h (f i x)"
    using Cons.prems by (intro Cons.IH) auto
  then show ?case
    using Cons.prems by simp
qed simp

definition round_keys_ok :: "u8 list list \<Rightarrow> nat \<Rightarrow> bool" where
  "round_keys_ok rks rounds \<longleftrightarrow> (\<forall>i \<le> rounds. length (rks ! i) = 16)"

lemma fold_length16:
  assumes "\<And>i x. length (x :: u8 list) = 16 \<Longrightarrow> length (f i x) = 16"
  shows "length x = 16 \<Longrightarrow> length (fold f is x) = 16"
  using assms by (induction "is" arbitrary: x) auto

lemma length_cipher [simp]: "length s = 16 \<Longrightarrow> length (cipher s rks n) = 16"
  by (simp add: cipher_def Let_def)

lemma length_inv_cipher [simp]: "length s = 16 \<Longrightarrow> length (inv_cipher s rks n) = 16"
  by (simp add: inv_cipher_def Let_def)

lemma inv_cipher_cipher:
  assumes "round_keys_ok rks n" "length s = 16"
  shows "inv_cipher (cipher s rks n) rks n = s"
proof -
  let ?f = "\<lambda>r s. add_round_key (mix_columns (shift_rows (sub_bytes s))) (rks ! r)"
  let ?g = "\<lambda>r s. inv_mix_columns (add_round_key (inv_sub_bytes (inv_shift_rows s)) (rks ! r))"
  have k: "length (rks ! r) = 16" if "r \<le> n" for r
    using assms that by (simp add: round_keys_ok_def)
  have "fold ?g (rev [1..<n]) (shift_rows (sub_bytes (fold ?f [1..<n] (add_round_key s (rks ! 0)))))
      = shift_rows (sub_bytes (add_round_key s (rks ! 0)))"
    by (rule fold_rev_inverse [where P = "\<lambda>s. length s = 16"]) (use assms in \<open>auto simp: k\<close>)
  moreover have "length (fold ?f [1..<n] (add_round_key s (rks ! 0))) = 16"
    by (rule fold_length16) (use assms in auto)
  ultimately show ?thesis
    using assms by (simp add: cipher_def inv_cipher_def Let_def k)
qed

lemma cipher_inv_cipher:
  assumes "round_keys_ok rks n" "length s = 16"
  shows "cipher (inv_cipher s rks n) rks n = s"
proof -
  let ?f = "\<lambda>r s. add_round_key (mix_columns (shift_rows (sub_bytes s))) (rks ! r)"
  let ?g = "\<lambda>r s. inv_mix_columns (add_round_key (inv_sub_bytes (inv_shift_rows s)) (rks ! r))"
  have k: "length (rks ! r) = 16" if "r \<le> n" for r
    using assms that by (simp add: round_keys_ok_def)
  have "fold ?f (rev (rev [1..<n])) (inv_sub_bytes (inv_shift_rows (fold ?g (rev [1..<n]) (add_round_key s (rks ! n)))))
      = inv_sub_bytes (inv_shift_rows (add_round_key s (rks ! n)))"
    by (rule fold_rev_inverse [where P = "\<lambda>s. length s = 16"]) (use assms in \<open>auto simp: k\<close>)
  moreover have "length (fold ?g (rev [1..<n]) (add_round_key s (rks ! n))) = 16"
    by (rule fold_length16) (use assms in auto)
  ultimately show ?thesis
    using assms by (simp add: cipher_def inv_cipher_def Let_def k)
qed

lemma length_next_round_key [simp]: "length (next_round_key older temp) = 16"
proof -
  have "length (fold (\<lambda>j rk. rk[j := f j rk]) js rk) = length rk" for f js and rk :: "u8 list"
    by (induction js arbitrary: rk) simp_all
  then show ?thesis by (simp add: next_round_key_def)
qed

lemma fold_update_lengths:
  assumes "\<And>i rks. length (f i rks) = 16" "\<forall>rk \<in> set rks. length rk = 16"
  shows "length (fold (\<lambda>i rks. rks[i := f i rks]) is rks) = length rks
    \<and> (\<forall>rk \<in> set (fold (\<lambda>i rks. rks[i := f i rks]) is rks). length rk = 16)"
  using assms(2)
proof (induction "is" arbitrary: rks)
  case (Cons i "is")
  have "\<forall>rk \<in> set (rks[i := f i rks]). length rk = 16"
    using Cons.prems assms(1) set_update_subset_insert by fastforce
  then show ?case using Cons.IH [of "rks[i := f i rks]"] by simp
qed simp

lemma fold_update_ok:
  assumes "\<And>i rks. length (f i rks) = 16" "\<forall>rk \<in> set rks. length rk = 16" "length rks = Suc n"
  shows "round_keys_ok (fold (\<lambda>i rks. rks[i := f i rks]) is rks) n"
proof -
  note l = fold_update_lengths [of f rks "is", OF assms(1,2)]
  show ?thesis unfolding round_keys_ok_def
  proof safe
    fix i assume "i \<le> n"
    then have "i < length (fold (\<lambda>i rks. rks[i := f i rks]) is rks)"
      using l assms(3) by simp
    then show "length (fold (\<lambda>i rks. rks[i := f i rks]) is rks ! i) = 16"
      using l nth_mem by blast
  qed
qed

lemma zero_keys_lengths:
  "length a = 16 \<Longrightarrow> \<forall>rk \<in> set ((replicate n (replicate 16 0))[i := a]). length rk = 16"
  "length a = 16 \<Longrightarrow> length b = 16 \<Longrightarrow>
     \<forall>rk \<in> set ((replicate n (replicate 16 0))[i := a, j := b]). length rk = 16"
  using set_update_subset_insert by (fastforce dest!: subsetD [OF set_update_subset_insert])+

lemma key_expansion128_ok:
  assumes "length key = 16" shows "round_keys_ok (key_expansion128 key) 10"
proof -
  let ?sched = "\<lambda>i rks. next_round_key (rks ! (i - 1))
      ((schedule_word (rks ! (i - 1)))[0 := schedule_word (rks ! (i - 1)) ! 0 XOR RCON ! (i - 1)])"
  have "key_expansion128 key = fold (\<lambda>i rks. rks[i := ?sched i rks]) [1..<11] ((replicate 11 (replicate 16 0))[0 := key])"
    unfolding key_expansion128_def Let_def ..
  moreover have "round_keys_ok (fold (\<lambda>i rks. rks[i := ?sched i rks]) [1..<11] ((replicate 11 (replicate 16 0))[0 := key])) 10"
    by (rule fold_update_ok [OF length_next_round_key zero_keys_lengths(1) [OF assms]]) simp
  ultimately show ?thesis by (simp only:)
qed

lemma if_update:
  "(if P then xs[i := next_round_key old a] else xs[i := next_round_key old b]) =
     xs[i := next_round_key old (if P then a else b)]"
  by simp

lemma key_expansion256_ok:
  assumes "length key = 32" shows "round_keys_ok (key_expansion256 key) 14"
proof -
  let ?sched = "\<lambda>i rks. next_round_key (rks ! (i - 2)) (if i mod 2 = 0
      then (schedule_word (rks ! (i - 1)))[0 := schedule_word (rks ! (i - 1)) ! 0 XOR RCON ! (i div 2 - 1)]
      else map (\<lambda>byte. SBOX ! unat byte)
        [rks ! (i - 1) ! 12, rks ! (i - 1) ! 13, rks ! (i - 1) ! 14, rks ! (i - 1) ! 15])"
  have k: "length (take 16 key) = 16" "length (take 16 (drop 16 key)) = 16"
    using assms by simp_all
  have "key_expansion256 key = fold (\<lambda>i rks. rks[i := ?sched i rks]) [2..<15]
      ((replicate 15 (replicate 16 0))[0 := take 16 key, 1 := take 16 (drop 16 key)])"
    unfolding key_expansion256_def Let_def if_update ..
  moreover have "round_keys_ok (fold (\<lambda>i rks. rks[i := ?sched i rks]) [2..<15]
      ((replicate 15 (replicate 16 0))[0 := take 16 key, 1 := take 16 (drop 16 key)])) 14"
    by (rule fold_update_ok [OF length_next_round_key zero_keys_lengths(2) [OF k]]) simp
  ultimately show ?thesis by (simp only:)
qed

section \<open>Block ciphers\<close>

text \<open>
  What a mode of operation relies on: the block size, and that decryption with a well
  formed cipher object inverts encryption on the blocks of that size, in both orders.
\<close>

locale block_cipher =
  fixes bs :: nat and ok :: "'c \<Rightarrow> bool" and enc dec :: "'c \<Rightarrow> u8 list \<Rightarrow> u8 list"
  assumes bs_pos: "0 < bs"
    and enc_length: "length b = bs \<Longrightarrow> length (enc c b) = bs"
    and dec_length: "length b = bs \<Longrightarrow> length (dec c b) = bs"
    and dec_enc: "ok c \<Longrightarrow> length b = bs \<Longrightarrow> dec c (enc c b) = b"
    and enc_dec: "ok c \<Longrightarrow> length b = bs \<Longrightarrow> enc c (dec c b) = b"
begin

lemma enc_inj: "ok c \<Longrightarrow> length a = bs \<Longrightarrow> length b = bs \<Longrightarrow> enc c a = enc c b \<longleftrightarrow> a = b"
  by (metis dec_enc)

lemma enc_permutes:
  assumes "ok c" shows "bij_betw (enc c) {b. length b = bs} {b. length b = bs}"
  by (rule bij_betw_byWitness [where f' = "dec c"]) (auto simp: enc_length dec_length dec_enc [OF assms] enc_dec [OF assms])

end

definition aes128_ok :: "aes128 \<Rightarrow> bool" where
  "aes128_ok c \<longleftrightarrow> round_keys_ok (round_keys128 c) 10"

definition aes256_ok :: "aes256 \<Rightarrow> bool" where
  "aes256_ok c \<longleftrightarrow> round_keys_ok (round_keys256 c) 14"

lemma aes128_new_ok [simp]: "length key = 16 \<Longrightarrow> aes128_ok (aes128_new key)"
  by (simp add: aes128_ok_def aes128_new_def key_expansion128_ok)

lemma aes256_new_ok [simp]: "length key = 32 \<Longrightarrow> aes256_ok (aes256_new key)"
  by (simp add: aes256_ok_def aes256_new_def key_expansion256_ok)

interpretation aes128: block_cipher 16 aes128_ok aes128_encrypt_block aes128_decrypt_block
  by unfold_locales
    (simp_all add: aes128_ok_def aes128_encrypt_block_def aes128_decrypt_block_def
      inv_cipher_cipher cipher_inv_cipher)

interpretation aes256: block_cipher 16 aes256_ok aes256_encrypt_block aes256_decrypt_block
  by unfold_locales
    (simp_all add: aes256_ok_def aes256_encrypt_block_def aes256_decrypt_block_def
      inv_cipher_cipher cipher_inv_cipher)

section \<open>Properties\<close>

text \<open>
  C15: For every 16-byte key AES-128 encryption, and for every 32-byte key AES-256
  encryption, is a permutation of the 16-byte blocks, and decryption is its inverse in
  both orders: the tables, the column matrices and the round order of the two
  directions agree.
\<close>

theorem aes_permutes_blocks:
  assumes "length key128 = 16" "length key256 = 32"
  shows "bij_betw (aes128_encrypt_block (aes128_new key128)) {b. length b = 16} {b. length b = 16}
    \<and> bij_betw (aes256_encrypt_block (aes256_new key256)) {b. length b = 16} {b. length b = 16}
    \<and> (\<forall>b. length b = 16 \<longrightarrow>
         aes128_decrypt_block (aes128_new key128) (aes128_encrypt_block (aes128_new key128) b) = b
       \<and> aes128_encrypt_block (aes128_new key128) (aes128_decrypt_block (aes128_new key128) b) = b
       \<and> aes256_decrypt_block (aes256_new key256) (aes256_encrypt_block (aes256_new key256) b) = b
       \<and> aes256_encrypt_block (aes256_new key256) (aes256_decrypt_block (aes256_new key256) b) = b)"
  using assms by (simp add: aes128.enc_permutes aes256.enc_permutes aes128.dec_enc aes128.enc_dec
      aes256.dec_enc aes256.enc_dec)

theorem aes_permutes_blocks_witness:
  "aes128_decrypt_block (aes128_new (replicate 16 7)) (aes128_encrypt_block (aes128_new (replicate 16 7)) (replicate 16 1))
     = replicate 16 1
   \<and> aes256_encrypt_block (aes256_new (replicate 32 9)) (aes256_decrypt_block (aes256_new (replicate 32 9)) (replicate 16 2))
     = replicate 16 2"
  using aes_permutes_blocks [of "replicate 16 7" "replicate 32 9"] by simp

end
