(* ===== verification/Cipher_Modes.thy ===== *)
theory Cipher_Modes
  imports Aes "HOL-Library.Multiset"
begin

text \<open>
  The modes of operation and the stream cipher of \<open>crypto/cipher.rs\<close>: ECB, CBC, CTR
  and GCM over AES, 3DES-CBC over the block functions of the external \<open>des\<close> crate, and
  RC4. A mode object is a record of its cipher and its block registers. The loops over
  \<open>chunks\<close> are functions of the block transformation, so the AES-128 and the AES-256
  copies of a method share them as the source repeats them. The error texts are
  the left values of a sum.
\<close>

section \<open>Chunks of a slice\<close>

function chunks_of :: "nat \<Rightarrow> u8 list \<Rightarrow> u8 list list" where
  "chunks_of n xs = (if xs = [] \<or> n = 0 then [] else take n xs # chunks_of n (drop n xs))"
  by pat_completeness auto
termination by (relation "measure (length \<circ> snd)") auto

declare chunks_of.simps [simp del]

definition xor_first :: "nat \<Rightarrow> u8 list \<Rightarrow> u8 list \<Rightarrow> u8 list" where
  "xor_first n block other = fold (\<lambda>i b. b[i := b ! i XOR other ! i]) [0..<n] block"

section \<open>ECB\<close>

record 'c ecb =
  ecb_cipher :: 'c

definition ecb_new_aes128 :: "u8 list \<Rightarrow> aes128 ecb" where
  "ecb_new_aes128 key = \<lparr>ecb_cipher = aes128_new key\<rparr>"

definition ecb_encrypt :: "aes128 ecb \<Rightarrow> u8 list \<Rightarrow> string + u8 list" where
  "ecb_encrypt m plaintext =
     (if length plaintext mod AES_BLOCK_SIZE \<noteq> 0
      then Inl ''ECB input must be a multiple of the 16-byte AES block size''
      else Inr (concat (map (\<lambda>chunk. aes128_encrypt_block (ecb_cipher m) chunk)
        (chunks_of AES_BLOCK_SIZE plaintext))))"

definition ecb_decrypt :: "aes128 ecb \<Rightarrow> u8 list \<Rightarrow> string + u8 list" where
  "ecb_decrypt m ciphertext =
     (if length ciphertext mod AES_BLOCK_SIZE \<noteq> 0
      then Inl ''ECB input must be a multiple of the 16-byte AES block size''
      else Inr (concat (map (\<lambda>chunk. aes128_decrypt_block (ecb_cipher m) chunk)
        (chunks_of AES_BLOCK_SIZE ciphertext))))"

section \<open>CBC\<close>

record 'c cbc =
  cbc_cipher :: 'c
  cbc_iv :: "u8 list"

fun cbc_encrypt_blocks :: "nat \<Rightarrow> (u8 list \<Rightarrow> u8 list) \<Rightarrow> u8 list \<Rightarrow> u8 list list \<Rightarrow> u8 list" where
  "cbc_encrypt_blocks n enc prev [] = []"
| "cbc_encrypt_blocks n enc prev (chunk # cs) =
     (let block = enc (xor_first n chunk prev)
      in block @ cbc_encrypt_blocks n enc block cs)"

fun cbc_decrypt_blocks :: "nat \<Rightarrow> (u8 list \<Rightarrow> u8 list) \<Rightarrow> u8 list \<Rightarrow> u8 list list \<Rightarrow> u8 list" where
  "cbc_decrypt_blocks n dec prev [] = []"
| "cbc_decrypt_blocks n dec prev (cipher_block # cs) =
     xor_first n (dec cipher_block) prev @ cbc_decrypt_blocks n dec cipher_block cs"

definition CBC_ERROR :: string where
  "CBC_ERROR = ''CBC input must be a multiple of the 16-byte AES block size''"

definition cbc_new_aes128 :: "u8 list \<Rightarrow> u8 list \<Rightarrow> aes128 cbc" where
  "cbc_new_aes128 key iv = \<lparr>cbc_cipher = aes128_new key, cbc_iv = iv\<rparr>"

definition cbc_aes128_encrypt :: "aes128 cbc \<Rightarrow> u8 list \<Rightarrow> string + u8 list" where
  "cbc_aes128_encrypt m plaintext =
     (if length plaintext mod AES_BLOCK_SIZE \<noteq> 0 then Inl CBC_ERROR
      else Inr (cbc_encrypt_blocks AES_BLOCK_SIZE (aes128_encrypt_block (cbc_cipher m)) (cbc_iv m)
        (chunks_of AES_BLOCK_SIZE plaintext)))"

definition cbc_aes128_decrypt :: "aes128 cbc \<Rightarrow> u8 list \<Rightarrow> string + u8 list" where
  "cbc_aes128_decrypt m ciphertext =
     (if length ciphertext mod AES_BLOCK_SIZE \<noteq> 0 then Inl CBC_ERROR
      else Inr (cbc_decrypt_blocks AES_BLOCK_SIZE (aes128_decrypt_block (cbc_cipher m)) (cbc_iv m)
        (chunks_of AES_BLOCK_SIZE ciphertext)))"

definition cbc_new_aes256 :: "u8 list \<Rightarrow> u8 list \<Rightarrow> aes256 cbc" where
  "cbc_new_aes256 key iv = \<lparr>cbc_cipher = aes256_new key, cbc_iv = iv\<rparr>"

definition cbc_aes256_encrypt :: "aes256 cbc \<Rightarrow> u8 list \<Rightarrow> string + u8 list" where
  "cbc_aes256_encrypt m plaintext =
     (if length plaintext mod AES_BLOCK_SIZE \<noteq> 0 then Inl CBC_ERROR
      else Inr (cbc_encrypt_blocks AES_BLOCK_SIZE (aes256_encrypt_block (cbc_cipher m)) (cbc_iv m)
        (chunks_of AES_BLOCK_SIZE plaintext)))"

definition cbc_aes256_decrypt :: "aes256 cbc \<Rightarrow> u8 list \<Rightarrow> string + u8 list" where
  "cbc_aes256_decrypt m ciphertext =
     (if length ciphertext mod AES_BLOCK_SIZE \<noteq> 0 then Inl CBC_ERROR
      else Inr (cbc_decrypt_blocks AES_BLOCK_SIZE (aes256_decrypt_block (cbc_cipher m)) (cbc_iv m)
        (chunks_of AES_BLOCK_SIZE ciphertext)))"

text \<open>
  3DES-CBC, which exists only with the feature \<open>crypto_libs\<close>: the block functions are those
  of the external crate, an encryption and a decryption indexed by the key.  With the
  feature, setting up the key and the block functions always succeed.
\<close>

definition TDES_ERROR :: string where
  "TDES_ERROR = ''3DES-CBC input must be a multiple of the 8-byte block size''"

definition tdes_cbc_encrypt ::
  "(u8 list \<Rightarrow> u8 list \<Rightarrow> u8 list) \<Rightarrow> u8 list \<Rightarrow> u8 list \<Rightarrow> u8 list \<Rightarrow> string + u8 list" where
  "tdes_cbc_encrypt tdes_enc key iv input =
     (if length input mod 8 \<noteq> 0 then Inl TDES_ERROR
      else Inr (cbc_encrypt_blocks 8 (tdes_enc key) iv (chunks_of 8 input)))"

definition tdes_cbc_decrypt ::
  "(u8 list \<Rightarrow> u8 list \<Rightarrow> u8 list) \<Rightarrow> u8 list \<Rightarrow> u8 list \<Rightarrow> u8 list \<Rightarrow> string + u8 list" where
  "tdes_cbc_decrypt tdes_dec key iv input =
     (if length input mod 8 \<noteq> 0 then Inl TDES_ERROR
      else Inr (cbc_decrypt_blocks 8 (tdes_dec key) iv (chunks_of 8 input)))"

section \<open>CTR\<close>

text \<open>The increment runs from the last byte down and stops at the first byte that does not wrap.\<close>

primrec increment_from :: "nat \<Rightarrow> u8 list \<Rightarrow> u8 list" where
  "increment_from 0 counter = counter"
| "increment_from (Suc i) counter =
     (let counter1 = counter[i := counter ! i + 1]
      in if counter1 ! i \<noteq> 0 then counter1 else increment_from i counter1)"

definition increment_counter :: "u8 list \<Rightarrow> u8 list" where
  "increment_counter counter = increment_from 16 counter"

record 'c ctr =
  ctr_cipher :: 'c
  ctr_counter :: "u8 list"

fun ctr_blocks :: "(u8 list \<Rightarrow> u8 list) \<Rightarrow> u8 list \<Rightarrow> u8 list list \<Rightarrow> u8 list \<times> u8 list" where
  "ctr_blocks enc counter [] = ([], counter)"
| "ctr_blocks enc counter (chunk # cs) =
     (let keystream = enc counter;
          (rest, counter1) = ctr_blocks enc (increment_counter counter) cs
      in (xor_first (length chunk) chunk keystream @ rest, counter1))"

definition ctr_new_aes256 :: "u8 list \<Rightarrow> u8 list \<Rightarrow> aes256 ctr" where
  "ctr_new_aes256 key nonce = \<lparr>ctr_cipher = aes256_new key, ctr_counter = nonce\<rparr>"

definition ctr_aes256_process :: "aes256 ctr \<Rightarrow> u8 list \<Rightarrow> u8 list \<times> aes256 ctr" where
  "ctr_aes256_process m data =
     (case ctr_blocks (aes256_encrypt_block (ctr_cipher m)) (ctr_counter m) (chunks_of AES_BLOCK_SIZE data)
      of (out, counter) \<Rightarrow> (out, m\<lparr>ctr_counter := counter\<rparr>))"

definition ctr_new_aes128 :: "u8 list \<Rightarrow> u8 list \<Rightarrow> aes128 ctr" where
  "ctr_new_aes128 key nonce = \<lparr>ctr_cipher = aes128_new key, ctr_counter = nonce\<rparr>"

definition ctr_aes128_process :: "aes128 ctr \<Rightarrow> u8 list \<Rightarrow> u8 list \<times> aes128 ctr" where
  "ctr_aes128_process m data =
     (case ctr_blocks (aes128_encrypt_block (ctr_cipher m)) (ctr_counter m) (chunks_of AES_BLOCK_SIZE data)
      of (out, counter) \<Rightarrow> (out, m\<lparr>ctr_counter := counter\<rparr>))"

section \<open>GCM\<close>

text \<open>The multiplication of \<open>GHASH\<close>, on the accumulator and the shifted factor as pairs of 64-bit halves.\<close>

type_synonym gf_state = "u64 \<times> u64 \<times> u64 \<times> u64"

definition gf128_bit :: "u8 \<Rightarrow> nat \<Rightarrow> gf_state \<Rightarrow> gf_state" where
  "gf128_bit byte bit_index = (\<lambda>(z_high, z_low, v_high, v_low).
     (let (z_high1, z_low1) =
            (if drop_bit bit_index byte AND 1 \<noteq> 0 then (z_high XOR v_high, z_low XOR v_low) else (z_high, z_low));
          lsb_set = (v_low AND 1 \<noteq> 0);
          carry = v_high AND 1;
          v_high1 = drop_bit 1 v_high;
          v_low1 = drop_bit 1 v_low OR push_bit 63 carry;
          v_high2 = (if lsb_set then v_high1 XOR 0xe100000000000000 else v_high1)
      in (z_high1, z_low1, v_high2, v_low1)))"

definition gf128_mul :: "u8 list \<Rightarrow> u8 list \<Rightarrow> u8 list" where
  "gf128_mul x h =
     (case fold (\<lambda>byte st. fold (gf128_bit byte) (rev [0..<8]) st) x
        (0, 0, word_from_be_bytes (take 8 h), word_from_be_bytes (drop 8 h))
      of (z_high, z_low, _) \<Rightarrow> word_to_be_bytes 8 z_high @ word_to_be_bytes 8 z_low)"

definition xor_blocks :: "u8 list \<Rightarrow> u8 list \<Rightarrow> u8 list" where
  "xor_blocks left right = map2 (XOR) left right"

record gcm =
  gcm_cipher :: aes128
  gcm_h :: "u8 list"
  gcm_counter :: "u8 list"

definition gcm_new :: "u8 list \<Rightarrow> u8 list \<Rightarrow> gcm" where
  "gcm_new key iv =
     (let c = aes128_new key
      in \<lparr>gcm_cipher = c, gcm_h = aes128_encrypt_block c (replicate 16 0),
          gcm_counter = (overwrite (replicate 16 0) 0 iv)[15 := 1]\<rparr>)"

definition ghash_absorb :: "u8 list \<Rightarrow> u8 list \<Rightarrow> u8 list \<Rightarrow> u8 list" where
  "ghash_absorb h data ghash =
     fold (\<lambda>chunk g. gf128_mul (xor_blocks g (overwrite (replicate AES_BLOCK_SIZE 0) 0 chunk)) h)
       (chunks_of AES_BLOCK_SIZE data) ghash"

definition compute_ghash :: "gcm \<Rightarrow> u8 list \<Rightarrow> u8 list \<Rightarrow> u8 list" where
  "compute_ghash m aad ciphertext =
     (let g1 = ghash_absorb (gcm_h m) aad (replicate 16 0);
          g2 = ghash_absorb (gcm_h m) ciphertext g1;
          lengths = word_to_be_bytes 8 (of_nat (length aad) * 8 :: u64)
                    @ word_to_be_bytes 8 (of_nat (length ciphertext) * 8 :: u64)
      in gf128_mul (xor_blocks g2 lengths) (gcm_h m))"

definition tag_for :: "gcm \<Rightarrow> u8 list \<Rightarrow> u8 list" where
  "tag_for m ghash =
     (let tag_input = aes128_encrypt_block (gcm_cipher m) (gcm_counter m)
      in xor_blocks (xor_blocks (replicate 16 0) tag_input) ghash)"

fun gcm_blocks :: "(u8 list \<Rightarrow> u8 list) \<Rightarrow> u8 list \<Rightarrow> u8 list list \<Rightarrow> u8 list" where
  "gcm_blocks enc counter [] = []"
| "gcm_blocks enc counter (chunk # cs) =
     (let keystream = enc counter;
          len = min (length chunk) AES_BLOCK_SIZE;
          block = overwrite (replicate AES_BLOCK_SIZE 0) 0 (take len chunk)
      in take len (xor_first len block keystream) @ gcm_blocks enc (increment_counter counter) cs)"

definition gcm_encrypt :: "gcm \<Rightarrow> u8 list \<Rightarrow> u8 list \<Rightarrow> u8 list \<times> u8 list" where
  "gcm_encrypt m plaintext aad =
     (let ciphertext = gcm_blocks (aes128_encrypt_block (gcm_cipher m)) (increment_counter (gcm_counter m))
            (chunks_of AES_BLOCK_SIZE plaintext)
      in (ciphertext, tag_for m (compute_ghash m aad ciphertext)))"

definition gcm_decrypt :: "gcm \<Rightarrow> u8 list \<Rightarrow> u8 list \<Rightarrow> u8 list \<Rightarrow> u8 list option" where
  "gcm_decrypt m ciphertext aad auth_tag =
     (if tag_for m (compute_ghash m aad ciphertext) \<noteq> auth_tag then None
      else Some (gcm_blocks (aes128_encrypt_block (gcm_cipher m)) (increment_counter (gcm_counter m))
        (chunks_of AES_BLOCK_SIZE ciphertext)))"

section \<open>RC4\<close>

record rc4 =
  rc4_s :: "u8 list"
  rc4_i :: u8
  rc4_j :: u8

definition swap :: "'a list \<Rightarrow> nat \<Rightarrow> nat \<Rightarrow> 'a list" where
  "swap xs i j = xs[i := xs ! j, j := xs ! i]"

definition rc4_new :: "u8 list \<Rightarrow> rc4 rust" where
  "rc4_new key =
     (if key = [] then Inl DivisionByZero
      else case fold (\<lambda>i (s, j).
             let j1 = j + s ! i + key ! (i mod length key) in (swap s i (unat j1), j1))
             [0..<256] (map of_nat [0..<256], 0 :: u8)
           of (s, _) \<Rightarrow> Inr \<lparr>rc4_s = s, rc4_i = 0, rc4_j = 0\<rparr>)"

definition rc4_step :: "rc4 \<Rightarrow> u8 \<times> rc4" where
  "rc4_step r =
     (let i = rc4_i r + 1;
          j = rc4_j r + rc4_s r ! unat i;
          s = swap (rc4_s r) (unat i) (unat j);
          k = s ! unat (s ! unat i + s ! unat j)
      in (k, \<lparr>rc4_s = s, rc4_i = i, rc4_j = j\<rparr>))"

fun rc4_process :: "rc4 \<Rightarrow> u8 list \<Rightarrow> u8 list \<times> rc4" where
  "rc4_process r [] = ([], r)"
| "rc4_process r (byte # data) =
     (let (k, r1) = rc4_step r; (out, r2) = rc4_process r1 data in ((byte XOR k) # out, r2))"

section \<open>Chunks and xor\<close>

lemma chunks_of_Nil [simp]: "chunks_of n [] = []"
  by (simp add: chunks_of.simps)

lemma concat_chunks_of [simp]: "0 < n \<Longrightarrow> concat (chunks_of n xs) = xs"
  by (induction n xs rule: chunks_of.induct) (subst chunks_of.simps, auto)

lemma chunks_of_append:
  "0 < n \<Longrightarrow> length b = n \<Longrightarrow> chunks_of n (b @ xs) = b # chunks_of n xs"
  by (subst chunks_of.simps) auto

lemma chunks_of_concat:
  "0 < n \<Longrightarrow> \<forall>b \<in> set bs. length b = n \<Longrightarrow> chunks_of n (concat bs) = bs"
  by (induction bs) (auto simp: chunks_of_append)

lemma chunks_of_lengths:
  "0 < n \<Longrightarrow> length xs mod n = 0 \<Longrightarrow> c \<in> set (chunks_of n xs) \<Longrightarrow> length c = n"
proof (induction n xs rule: chunks_of.induct)
  case (1 n xs)
  show ?case
  proof (cases "xs = []")
    case False
    then have "n \<le> length xs"
      using 1 by (metis length_0_conv mod_less not_le)
    moreover from this have "(length xs - n) mod n = 0"
      using 1 by (simp add: le_mod_geq)
    moreover have "c = take n xs \<or> c \<in> set (chunks_of n (drop n xs))"
      using 1 False by (subst (asm) (2) chunks_of.simps) simp
    ultimately show ?thesis using 1 False by auto
  qed (use 1 in simp)
qed

lemma chunks_of_bound: "c \<in> set (chunks_of n xs) \<Longrightarrow> length c \<le> n"
proof (induction n xs rule: chunks_of.induct)
  case (1 n xs)
  then show ?case
    by (subst (asm) (2) chunks_of.simps) (auto split: if_splits)
qed

text \<open>Chunks transformed at their length: the chunks of the transformed slice.\<close>

lemma chunks_of_cons:
  "xs \<noteq> [] \<Longrightarrow> 0 < n \<Longrightarrow> chunks_of n xs = take n xs # chunks_of n (drop n xs)"
  by (simp add: chunks_of.simps)

lemma xor_first_map2:
  assumes "n = length b" "n \<le> length k"
  shows "xor_first n b k = map2 (XOR) b (take n k)"
proof -
  have "xor_first n b k = map (\<lambda>i. b ! i XOR k ! i) [0..<n]"
    unfolding xor_first_def using assms by (subst fold_update_each [of n b "\<lambda>i x. x XOR k ! i"]) simp_all
  also have "\<dots> = map2 (XOR) b (take n k)"
    using assms by (intro nth_equalityI) simp_all
  finally show ?thesis .
qed

lemma length_xor_first [simp]: "length (xor_first n b k) = length b"
proof -
  have "length (fold (\<lambda>i b. b[i := b ! i XOR k ! i]) is b) = length b" for "is"
    by (induction "is" arbitrary: b) simp_all
  then show ?thesis by (simp add: xor_first_def)
qed

lemma xor_first_twice [simp]:
  "n = length b \<Longrightarrow> n \<le> length k \<Longrightarrow> xor_first n (xor_first n b k) k = b"
  using map2_xor_cancel [of "take n k" b] by (simp add: xor_first_map2)

lemma length_concat_blocks: "\<forall>b \<in> set bs. length b = n \<Longrightarrow> length (concat bs) = n * length bs"
  by (induction bs) simp_all

section \<open>Modes over any block cipher\<close>

context block_cipher
begin

lemma ecb_inverse:
  assumes "ok c" "length xs mod bs = 0"
  shows "concat (map (dec c) (chunks_of bs (concat (map (enc c) (chunks_of bs xs))))) = xs"
proof -
  have l: "length b = bs" if "b \<in> set (chunks_of bs xs)" for b
    using chunks_of_lengths [OF bs_pos assms(2) that] .
  have "chunks_of bs (concat (map (enc c) (chunks_of bs xs))) = map (enc c) (chunks_of bs xs)"
    by (rule chunks_of_concat [OF bs_pos]) (simp add: l enc_length)
  moreover have "map (dec c) (map (enc c) (chunks_of bs xs)) = chunks_of bs xs"
    by (simp add: map_idI l dec_enc assms(1))
  ultimately show ?thesis by (simp only: concat_chunks_of [OF bs_pos])
qed

lemma length_cbc_encrypt:
  "\<forall>b \<in> set cs. length b = bs \<Longrightarrow> length (cbc_encrypt_blocks bs (enc c) prev cs) = bs * length cs"
  by (induction cs arbitrary: prev) (simp_all add: Let_def enc_length)

lemma cbc_inverse_blocks:
  "ok c \<Longrightarrow> length prev = bs \<Longrightarrow> \<forall>b \<in> set cs. length b = bs \<Longrightarrow>
     cbc_decrypt_blocks bs (dec c) prev (chunks_of bs (cbc_encrypt_blocks bs (enc c) prev cs)) = concat cs"
  using bs_pos
  by (induction cs arbitrary: prev) (simp_all add: Let_def chunks_of_append enc_length dec_enc)

lemma cbc_inverse:
  "ok c \<Longrightarrow> length iv = bs \<Longrightarrow> length xs mod bs = 0 \<Longrightarrow>
     cbc_decrypt_blocks bs (dec c) iv (chunks_of bs (cbc_encrypt_blocks bs (enc c) iv (chunks_of bs xs))) = xs"
  using cbc_inverse_blocks [of c iv "chunks_of bs xs"] chunks_of_lengths [OF bs_pos] concat_chunks_of [OF bs_pos]
  by metis

lemma cbc_encrypt_aligned:
  "length xs mod bs = 0 \<Longrightarrow> length (cbc_encrypt_blocks bs (enc c) iv (chunks_of bs xs)) = length xs"
proof -
  assume a: "length xs mod bs = 0"
  have l: "\<forall>b \<in> set (chunks_of bs xs). length b = bs"
    using chunks_of_lengths [OF bs_pos a] by blast
  have "length (concat (chunks_of bs xs)) = bs * length (chunks_of bs xs)"
    by (rule length_concat_blocks [OF l])
  then show ?thesis using length_cbc_encrypt [OF l] bs_pos by simp
qed

end

section \<open>Counter mode\<close>

lemma length_increment_from [simp]: "length (increment_from i c) = length c"
  by (induction i arbitrary: c) (simp_all add: Let_def)

lemma length_increment_counter [simp]: "length (increment_counter c) = length c"
  by (simp add: increment_counter_def)

text \<open>The counter block read as a big-endian number: the increment adds one modulo \<open>2 ^ 128\<close>.\<close>

definition be_nat :: "u8 list \<Rightarrow> nat" where
  "be_nat bs = foldl (\<lambda>a b. a * 256 + unat b) 0 bs"

lemma be_nat_Nil [simp]: "be_nat [] = 0"
  by (simp add: be_nat_def)

lemma be_nat_snoc [simp]: "be_nat (bs @ [b]) = be_nat bs * 256 + unat b"
  by (simp add: be_nat_def)

lemma be_nat_append: "be_nat (as @ bs) = be_nat as * 256 ^ length bs + be_nat bs"
proof (induction bs rule: rev_induct)
  case (snoc b bs)
  then show ?case by (simp flip: append_assoc add: algebra_simps)
qed simp

lemma add_lt_trans: "b < c \<Longrightarrow> a + c \<le> d \<Longrightarrow> a + b < d" for a b c d :: nat
  by simp

lemma be_nat_less: "be_nat bs < 256 ^ length bs"
proof (induction bs rule: rev_induct)
  case (snoc b bs)
  then have "be_nat bs + 1 \<le> 256 ^ length bs" by simp
  then have "(be_nat bs + 1) * 256 \<le> 256 ^ length bs * 256" by (rule mult_le_mono1)
  then have "be_nat bs * 256 + 256 \<le> 256 ^ length bs * 256" by (simp add: add.commute)
  with unat_u8_less [of b] have "be_nat bs * 256 + unat b < 256 ^ length bs * 256"
    by (rule add_lt_trans)
  then show ?case by (simp add: mult.commute)
qed simp

lemma be_nat_inj:
  "length as = length bs \<Longrightarrow> be_nat as = be_nat bs \<Longrightarrow> as = bs"
proof (induction as arbitrary: bs rule: rev_induct)
  case (snoc a as)
  then obtain b bs' where bs: "bs = bs' @ [b]" "length bs' = length as"
    by (cases bs rule: rev_cases) auto
  have e: "be_nat as * 256 + unat a = be_nat bs' * 256 + unat b"
    using snoc.prems bs by simp
  have "(be_nat as * 256 + unat a) mod 256 = unat a" "(be_nat bs' * 256 + unat b) mod 256 = unat b"
    by (simp_all add: unat_u8_less)
  with e have "unat a = unat b" by simp
  moreover from this e have "be_nat as = be_nat bs'" by simp
  ultimately show ?case using snoc.IH [of bs'] bs by (simp add: word_unat_eq_iff)
qed simp

lemma unat_u8_wrap: "unat (b + 1 :: u8) = (unat b + 1) mod 256"
  by (simp add: unat_word_ariths)

lemma mod256_wraps: "n < 256 \<Longrightarrow> (n + 1) mod 256 = 0 \<longleftrightarrow> n = 255" "n < 256 \<Longrightarrow> n \<noteq> 255 \<Longrightarrow> (n + 1) mod 256 = n + 1" for n :: nat
  by (cases "n = 255"; simp)+

lemma u8_wraps: "b + 1 = 0 \<longleftrightarrow> unat b = 255" for b :: u8
proof -
  have "b + 1 = 0 \<longleftrightarrow> unat (b + 1) = 0" by (simp only: unsigned_eq_0_iff)
  also have "\<dots> \<longleftrightarrow> unat b = 255"
    unfolding unat_u8_wrap by (rule mod256_wraps(1) [OF unat_u8_less])
  finally show ?thesis .
qed

lemma increment_from_append:
  "i = length as \<Longrightarrow> increment_from i (as @ bs) = increment_from i as @ bs"
proof (induction i arbitrary: as bs)
  case (Suc i)
  then obtain a as' where as: "as = as' @ [a]" "length as' = i"
    by (cases as rule: rev_cases) auto
  then show ?case
    using Suc.IH [of as' "0 # bs"] Suc.IH [of as' "[0]"]
    by (simp add: Let_def nth_append list_update_append)
qed simp

lemma be_nat_increment_from:
  "be_nat (increment_from (length c) c) = (be_nat c + 1) mod 256 ^ length c"
proof (induction c rule: rev_induct)
  case (snoc b c)
  have step: "increment_from (length (c @ [b])) (c @ [b]) =
      (if b + 1 \<noteq> 0 then c @ [b + 1] else increment_from (length c) c @ [b + 1])"
    using increment_from_append [of "length c" c "[0]"]
    by (simp add: Let_def nth_append list_update_append)
  have pos: "(0 :: nat) < 256 ^ length c" by simp
  show ?case
  proof (cases "b + 1 = 0")
    case True
    then have "unat b = 255" by (simp add: u8_wraps)
    then show ?thesis
      using step True snoc pos by (simp add: mult_mod_right mult.commute)
  next
    case False
    then have "unat (b + 1) = unat b + 1"
      unfolding u8_wraps unat_u8_wrap by (rule mod256_wraps(2) [OF unat_u8_less])
    moreover have "be_nat c * 256 + unat b + 1 < 256 ^ Suc (length c)"
      using be_nat_less [of "c @ [b + 1]"] calculation by simp
    ultimately show ?thesis using step False by simp
  qed
qed simp

lemma be_nat_increment: "length c = 16 \<Longrightarrow> be_nat (increment_counter c) = (be_nat c + 1) mod 256 ^ 16"
  using be_nat_increment_from [of c] by (simp add: increment_counter_def)

lemma length_counter_iter [simp]: "length ((increment_counter ^^ i) c) = length c"
  by (induction i) simp_all

lemma be_nat_counter_iter:
  "length c = 16 \<Longrightarrow> be_nat ((increment_counter ^^ i) c) = (be_nat c + i) mod 256 ^ 16"
proof (induction i)
  case 0
  then show ?case using be_nat_less [of c] by (simp only: funpow_0 add_0_right mod_less)
next
  case (Suc i)
  have "be_nat ((increment_counter ^^ Suc i) c) = (be_nat ((increment_counter ^^ i) c) + 1) mod 256 ^ 16"
    using be_nat_increment [of "(increment_counter ^^ i) c"] Suc.prems by simp
  also have "\<dots> = (be_nat c + Suc i) mod 256 ^ 16"
    unfolding Suc.IH [OF Suc.prems] by (simp only: mod_add_left_eq add_Suc_right Suc_eq_plus1 add.assoc)
  finally show ?case .
qed

lemma mod_add_left_cancel: "(a + i) mod n = (a + j) mod n \<Longrightarrow> i mod n = j mod n" for a i j n :: nat
proof -
  assume "(a + i) mod n = (a + j) mod n"
  then have "int ((a + i) mod n) = int ((a + j) mod n)" by simp
  then have "(int a + int i) mod int n = (int a + int j) mod int n" by (simp add: zmod_int)
  then have "(int a + int i - int a) mod int n = (int a + int j - int a) mod int n" by (rule mod_diff_cong) simp
  then have "int (i mod n) = int (j mod n)" by (simp add: zmod_int)
  then show ?thesis by simp
qed

lemma counters_distinct:
  assumes "length c = 16" "i < 256 ^ 16" "j < 256 ^ 16" "i \<noteq> j"
  shows "(increment_counter ^^ i) c \<noteq> (increment_counter ^^ j) c"
proof
  assume "(increment_counter ^^ i) c = (increment_counter ^^ j) c"
  then have "(be_nat c + i) mod 256 ^ 16 = (be_nat c + j) mod 256 ^ 16"
    using be_nat_counter_iter [OF assms(1)] by metis
  then have "i mod 256 ^ 16 = j mod 256 ^ 16"
    by (rule mod_add_left_cancel)
  with assms(2-4) show False by (simp only: mod_less)
qed

definition keystream :: "(u8 list \<Rightarrow> u8 list) \<Rightarrow> u8 list \<Rightarrow> nat \<Rightarrow> u8 list" where
  "keystream enc counter n = concat (map (\<lambda>i. enc ((increment_counter ^^ i) counter)) [0..<n])"

lemma keystream_0 [simp]: "keystream enc c 0 = []"
  by (simp add: keystream_def)

lemma keystream_Suc: "keystream enc c (Suc n) = enc c @ keystream enc (increment_counter c) n"
proof (induction n)
  case (Suc n)
  have step: "keystream enc d (Suc m) = keystream enc d m @ enc ((increment_counter ^^ m) d)" for d m
    by (simp add: keystream_def)
  show ?case
    using Suc step [of c "Suc n"] step [of "increment_counter c" n] by (simp add: funpow_swap1)
qed (simp add: keystream_def)

lemma zip_take_length: "length xs \<le> length ys \<Longrightarrow> zip xs (take (length xs) ys) = zip xs ys"
  by (induction xs ys rule: list_induct2') auto

lemma ctr_chunk:
  assumes "length k = 16"
  shows "map2 (XOR) xs (k @ ks) = xor_first (length (take 16 xs)) (take 16 xs) k @ map2 (XOR) (drop 16 xs) ks"
proof -
  have "zip xs (k @ ks) = zip (take 16 xs) k @ zip (drop 16 xs) ks"
    using assms by (simp add: zip_append2)
  then show ?thesis
    using assms zip_take_length [of "take 16 xs" k] by (simp add: xor_first_map2)
qed

lemma ctr_blocks_keystream:
  assumes "\<And>b. length b = 16 \<Longrightarrow> length (enc b) = 16" "length c = 16"
  shows "ctr_blocks enc c (chunks_of 16 xs) =
    (map2 (XOR) xs (keystream enc c (length (chunks_of 16 xs))), (increment_counter ^^ length (chunks_of 16 xs)) c)"
  using assms(2)
proof (induction "16 :: nat" xs arbitrary: c rule: chunks_of.induct)
  case (1 xs)
  show ?case
  proof (cases "xs = []")
    case False
    have c: "chunks_of 16 xs = take 16 xs # chunks_of 16 (drop 16 xs)"
      by (rule chunks_of_cons [OF False]) simp
    have IH: "ctr_blocks enc (increment_counter c) (chunks_of 16 (drop 16 xs)) =
        (map2 (XOR) (drop 16 xs) (keystream enc (increment_counter c) (length (chunks_of 16 (drop 16 xs)))),
         (increment_counter ^^ length (chunks_of 16 (drop 16 xs))) (increment_counter c))"
      using 1 False by simp
    have "map2 (XOR) xs (keystream enc c (Suc (length (chunks_of 16 (drop 16 xs))))) =
        xor_first (length (take 16 xs)) (take 16 xs) (enc c) @
        map2 (XOR) (drop 16 xs) (keystream enc (increment_counter c) (length (chunks_of 16 (drop 16 xs))))"
      unfolding keystream_Suc by (rule ctr_chunk) (rule assms(1) [OF 1(2)])
    then show ?thesis
      unfolding c by (simp add: IH Let_def funpow_swap1)
  qed simp
qed

lemma chunk_count_cong: "length xs = length ys \<Longrightarrow> length (chunks_of n xs) = length (chunks_of n ys)"
proof (induction n xs arbitrary: ys rule: chunks_of.induct)
  case (1 n xs)
  show ?case
  proof (cases "xs = [] \<or> n = 0")
    case False
    then have "ys \<noteq> []" using 1(2) by auto
    then show ?thesis using 1 False by (simp add: chunks_of_cons)
  qed (use 1(2) in \<open>auto simp: chunks_of.simps\<close>)
qed

lemma chunks_cover: "0 < n \<Longrightarrow> length xs \<le> n * length (chunks_of n xs)"
proof (induction n xs rule: chunks_of.induct)
  case (1 n xs)
  then show ?case
    by (cases "xs = []") (simp_all add: chunks_of_cons)
qed

lemma length_keystream:
  "(\<And>b. length b = 16 \<Longrightarrow> length (enc b) = 16) \<Longrightarrow> length c = 16 \<Longrightarrow> length (keystream enc c n) = 16 * n"
  by (induction n arbitrary: c) (simp_all add: keystream_Suc)

lemma keystream_covers:
  "(\<And>b. length b = 16 \<Longrightarrow> length (enc b) = 16) \<Longrightarrow> length c = 16 \<Longrightarrow>
     length xs \<le> length (keystream enc c (length (chunks_of 16 xs)))"
  by (simp add: length_keystream chunks_cover)

lemma map2_xor_twice: "length s \<le> length k \<Longrightarrow> map2 (XOR) (map2 (XOR) s k) k = s"
  for s k :: "'a :: len word list"
  by (induction s k rule: list_induct2') (simp_all add: xor.assoc)

lemma ctr_blocks_involutive:
  assumes "\<And>b. length b = 16 \<Longrightarrow> length (enc b) = 16" "length c = 16"
  shows "fst (ctr_blocks enc c (chunks_of 16 (fst (ctr_blocks enc c (chunks_of 16 xs))))) = xs"
proof -
  let ?ks = "keystream enc c (length (chunks_of 16 xs))"
  have "length (map2 (XOR) xs ?ks) = length xs"
    using keystream_covers [of enc c xs, OF assms] by simp
  then have "length (chunks_of 16 (map2 (XOR) xs ?ks)) = length (chunks_of 16 xs)"
    by (rule chunk_count_cong)
  then show ?thesis
    using map2_xor_twice [OF keystream_covers [of enc c xs, OF assms]]
    by (simp only: ctr_blocks_keystream [OF assms] fst_conv)
qed

text \<open>The GCM loops are counter mode, also for the zero-padded last block.\<close>

lemma gcm_blocks_ctr:
  "(\<And>b. length b = 16 \<Longrightarrow> length (enc b) = 16) \<Longrightarrow> length c = 16 \<Longrightarrow> \<forall>b \<in> set cs. length b \<le> 16 \<Longrightarrow>
     gcm_blocks enc c cs = fst (ctr_blocks enc c cs)"
proof (induction cs arbitrary: c)
  case (Cons b cs)
  have p: "take (length b) (xor_first (length b) (b @ zs) k) = xor_first (length b) b k" for zs k
    unfolding xor_first_def
    using fold_update_each [of "length b" "b @ zs" "\<lambda>i x. x XOR k ! i"]
      fold_update_each [of "length b" b "\<lambda>i x. x XOR k ! i"] by (simp add: nth_append cong: map_cong)
  have "overwrite (replicate 16 0) 0 b = b @ replicate (16 - length b) 0"
    using Cons.prems by (simp add: overwrite_def)
  then show ?case
    using Cons p by (simp add: Let_def AES_BLOCK_SIZE_def min_absorb1 case_prod_beta)
qed simp

section \<open>RC4\<close>

definition rc4_ok :: "rc4 \<Rightarrow> bool" where
  "rc4_ok r \<longleftrightarrow> length (rc4_s r) = 256 \<and> distinct (rc4_s r)"

lemma swap_props:
  assumes "i < length xs" "j < length xs"
  shows "length (swap xs i j) = length xs" "distinct (swap xs i j) = distinct xs"
  using assms by (simp_all add: swap_def distinct_swap)

lemma distinct_all_bytes: "distinct (map of_nat [0..<256] :: u8 list)"
  by (auto simp: distinct_map inj_on_def word_of_nat_eq_iff take_bit_eq_mod)

lemma rc4_new_ok:
  assumes "rc4_new key = Inr r" shows "rc4_ok r"
proof -
  let ?f = "\<lambda>i (s, j). let j1 = j + s ! i + key ! (i mod length key) in (swap s i (unat j1), j1)"
  have "length (fst (fold ?f is (s, j))) = 256 \<and> distinct (fst (fold ?f is (s, j)))"
    if "length s = 256" "distinct s" "\<forall>i \<in> set is. i < 256" for "is" s and j :: u8
    using that by (induction "is" arbitrary: s j) (simp_all add: Let_def swap_props unat_u8_less)
  note this [OF _ distinct_all_bytes]
  then have "length (fst (fold ?f [0..<256] (map of_nat [0..<256], 0))) = 256
      \<and> distinct (fst (fold ?f [0..<256] (map of_nat [0..<256], 0)))"
    by simp
  then show ?thesis
    using assms by (auto simp: rc4_new_def rc4_ok_def split: if_splits prod.splits)
qed

lemma rc4_new_cases: "(key = [] \<longrightarrow> rc4_new key = Inl DivisionByZero) \<and> (key \<noteq> [] \<longrightarrow> (\<exists>r. rc4_new key = Inr r))"
  by (simp only: rc4_new_def if_True if_False simp_thms split: prod.split if_split) blast

lemma all_bytes_mset:
  assumes "length s = 256" "distinct s"
  shows "mset s = mset (map of_nat [0..<256] :: u8 list)"
proof -
  have d: "distinct (map of_nat [0..<256] :: u8 list)"
    by (rule distinct_all_bytes)
  have "finite (UNIV :: u8 set)" "card (UNIV :: u8 set) = 256"
    by (simp_all add: card_word)
  moreover have "card (set s) = 256" "card (set (map of_nat [0..<256] :: u8 list)) = 256"
    using assms distinct_card [OF assms(2)] distinct_card [OF d] by simp_all
  ultimately have "set s = UNIV" "set (map of_nat [0..<256] :: u8 list) = UNIV"
    by (metis card_subset_eq subset_UNIV)+
  then show ?thesis
    using set_eq_iff_mset_eq_distinct [OF assms(2) d] by simp
qed

lemma rc4_step_ok: "rc4_ok r \<Longrightarrow> rc4_ok (snd (rc4_step r))"
  by (simp add: rc4_step_def rc4_ok_def Let_def swap_props unat_u8_less)

lemma rc4_process_ok: "rc4_ok r \<Longrightarrow> rc4_ok (snd (rc4_process r data))"
proof (induction data arbitrary: r)
  case (Cons b data)
  then show ?case using rc4_step_ok [of r] by (simp add: case_prod_beta Let_def)
qed simp

lemma rc4_process_involutive: "rc4_process r (fst (rc4_process r data)) = (data, snd (rc4_process r data))"
  by (induction data arbitrary: r) (simp_all add: case_prod_beta Let_def xor.assoc)

lemma rc4_process_streams:
  "rc4_process r (as @ bs) =
     (fst (rc4_process r as) @ fst (rc4_process (snd (rc4_process r as)) bs),
      snd (rc4_process (snd (rc4_process r as)) bs))"
  by (induction as arbitrary: r) (simp_all add: case_prod_beta Let_def)

section \<open>Properties\<close>

text \<open>
  C17: Counter mode under AES-256. Processing xors the data with the key stream that
  encrypts the successive 128-bit counter values, processing the result again from
  the same counter restores the data, and no two of the first \<open>2 ^ 128\<close> key stream
  blocks are equal, so one nonce never repeats its key stream.
\<close>

theorem ctr_keystream_never_repeats:
  assumes "length key = 32" "length nonce = 16"
  shows "fst (ctr_aes256_process (ctr_new_aes256 key nonce) data) =
      map2 (XOR) data (keystream (aes256_encrypt_block (aes256_new key)) nonce (length (chunks_of 16 data)))
    \<and> length data \<le> length (keystream (aes256_encrypt_block (aes256_new key)) nonce (length (chunks_of 16 data)))
    \<and> fst (ctr_aes256_process (ctr_new_aes256 key nonce)
        (fst (ctr_aes256_process (ctr_new_aes256 key nonce) data))) = data
    \<and> (\<forall>i j. i < 256 ^ 16 \<longrightarrow> j < 256 ^ 16 \<longrightarrow> i \<noteq> j \<longrightarrow>
        aes256_encrypt_block (aes256_new key) ((increment_counter ^^ i) nonce)
          \<noteq> aes256_encrypt_block (aes256_new key) ((increment_counter ^^ j) nonce))"
proof (intro conjI allI impI)
  let ?enc = "aes256_encrypt_block (aes256_new key)"
  note l = aes256.enc_length [where c = "aes256_new key"]
  have p: "fst (ctr_aes256_process (ctr_new_aes256 key nonce) xs) = fst (ctr_blocks ?enc nonce (chunks_of 16 xs))" for xs
    by (simp add: ctr_aes256_process_def ctr_new_aes256_def AES_BLOCK_SIZE_def split: prod.split)
  show "fst (ctr_aes256_process (ctr_new_aes256 key nonce) data) =
      map2 (XOR) data (keystream ?enc nonce (length (chunks_of 16 data)))"
    unfolding p by (simp only: ctr_blocks_keystream [of ?enc nonce data, OF l assms(2)] fst_conv)
  show "length data \<le> length (keystream ?enc nonce (length (chunks_of 16 data)))"
    by (rule keystream_covers [OF l assms(2)])
  show "fst (ctr_aes256_process (ctr_new_aes256 key nonce) (fst (ctr_aes256_process (ctr_new_aes256 key nonce) data))) = data"
    unfolding p by (rule ctr_blocks_involutive [OF l assms(2)])
next
  fix i j :: nat
  assume "i < 256 ^ 16" "j < 256 ^ 16" "i \<noteq> j"
  then have "(increment_counter ^^ i) nonce \<noteq> (increment_counter ^^ j) nonce"
    by (rule counters_distinct [OF assms(2)])
  then show "aes256_encrypt_block (aes256_new key) ((increment_counter ^^ i) nonce)
      \<noteq> aes256_encrypt_block (aes256_new key) ((increment_counter ^^ j) nonce)"
    using assms by (simp add: aes256.enc_inj)
qed

theorem ctr_keystream_never_repeats_witness:
  "fst (ctr_aes256_process (ctr_new_aes256 (replicate 32 1) (replicate 16 255))
     (fst (ctr_aes256_process (ctr_new_aes256 (replicate 32 1) (replicate 16 255)) (replicate 21 5)))) = replicate 21 5
   \<and> aes256_encrypt_block (aes256_new (replicate 32 1)) ((increment_counter ^^ 1) (replicate 16 255))
     \<noteq> aes256_encrypt_block (aes256_new (replicate 32 1)) ((increment_counter ^^ 2) (replicate 16 255))"
proof -
  have l: "length (replicate 32 1 :: u8 list) = 32" "length (replicate 16 255 :: u8 list) = 16"
    and b: "(1 :: nat) < 256 ^ 16" "(2 :: nat) < 256 ^ 16" "(1 :: nat) \<noteq> 2"
    by simp_all
  show ?thesis
    using ctr_keystream_never_repeats [OF l, of "replicate 21 5"] b by blast
qed

text \<open>
  C16: AES-GCM. Decryption accepts a ciphertext with a tag exactly when encryption of
  the plaintext it returns, with the same additional data, produces this ciphertext
  and this tag: whatever was sealed opens to the plaintext, and nothing else opens.
\<close>

theorem gcm_opens_iff_sealed:
  assumes "length key = 16" "length iv = 12"
  shows "gcm_decrypt (gcm_new key iv) ciphertext aad tag = Some plaintext \<longleftrightarrow>
     gcm_encrypt (gcm_new key iv) plaintext aad = (ciphertext, tag)"
proof -
  let ?enc = "aes128_encrypt_block (aes128_new key)"
  let ?c = "increment_counter ((overwrite (replicate 16 0) 0 iv)[15 := 1])"
  let ?run = "\<lambda>xs. gcm_blocks ?enc ?c (chunks_of 16 xs)"
  note l = aes128.enc_length [where c = "aes128_new key"]
  have c: "length ?c = 16" using assms by simp
  have "?run xs = fst (ctr_blocks ?enc ?c (chunks_of 16 xs))" for xs
    by (intro gcm_blocks_ctr [of ?enc ?c, OF l c] ballI chunks_of_bound)
  then have inv: "?run (?run xs) = xs" for xs
    using ctr_blocks_involutive [OF l c] by simp
  have "gcm_encrypt (gcm_new key iv) p aad =
      (?run p, tag_for (gcm_new key iv) (compute_ghash (gcm_new key iv) aad (?run p)))" for p
    by (simp add: gcm_encrypt_def gcm_new_def Let_def AES_BLOCK_SIZE_def)
  moreover have "gcm_decrypt (gcm_new key iv) ciphertext aad tag =
      (if tag_for (gcm_new key iv) (compute_ghash (gcm_new key iv) aad ciphertext) \<noteq> tag then None
       else Some (?run ciphertext))"
    by (simp add: gcm_decrypt_def gcm_new_def Let_def AES_BLOCK_SIZE_def)
  ultimately show ?thesis
    using inv [of plaintext] inv [of ciphertext] by (auto split: if_splits)
qed

theorem gcm_opens_iff_sealed_witness:
  "gcm_decrypt (gcm_new (replicate 16 1) (replicate 12 2))
     (fst (gcm_encrypt (gcm_new (replicate 16 1) (replicate 12 2)) (replicate 21 3) [4]))
     [4] (snd (gcm_encrypt (gcm_new (replicate 16 1) (replicate 12 2)) (replicate 21 3) [4])) = Some (replicate 21 3)"
proof -
  have l: "length (replicate 16 1 :: u8 list) = 16" "length (replicate 12 2 :: u8 list) = 12" by simp_all
  show ?thesis
    unfolding gcm_opens_iff_sealed [OF l] by (simp only: prod.collapse)
qed

text \<open>
  C18: ECB under AES-128 and CBC under AES-128, AES-256 and 3DES restore every
  block-aligned plaintext, 3DES whenever the external block functions are inverse to each
  other; and every one of the eight encryptions and decryptions refuses input that is not
  a whole number of blocks with the error of its mode.
\<close>

theorem block_modes_round_trip:
  assumes "length key128 = 16" "length key256 = 32" "length iv = 16" "length iv8 = 8"
    and "block_cipher 8 (\<lambda>k. k = tdes_key) tdes_enc tdes_dec"
  shows "(length data mod 16 = 0 \<longrightarrow>
       Inr data = (case ecb_encrypt (ecb_new_aes128 key128) data of Inl e \<Rightarrow> Inl e | Inr c \<Rightarrow> ecb_decrypt (ecb_new_aes128 key128) c)
     \<and> Inr data = (case cbc_aes128_encrypt (cbc_new_aes128 key128 iv) data of Inl e \<Rightarrow> Inl e
         | Inr c \<Rightarrow> cbc_aes128_decrypt (cbc_new_aes128 key128 iv) c)
     \<and> Inr data = (case cbc_aes256_encrypt (cbc_new_aes256 key256 iv) data of Inl e \<Rightarrow> Inl e
         | Inr c \<Rightarrow> cbc_aes256_decrypt (cbc_new_aes256 key256 iv) c))
   \<and> (length data mod 8 = 0 \<longrightarrow>
       Inr data = (case tdes_cbc_encrypt tdes_enc tdes_key iv8 data of Inl e \<Rightarrow> Inl e
         | Inr c \<Rightarrow> tdes_cbc_decrypt tdes_dec tdes_key iv8 c))
   \<and> (length data mod 16 \<noteq> 0 \<longrightarrow>
       ecb_encrypt (ecb_new_aes128 key128) data = Inl ''ECB input must be a multiple of the 16-byte AES block size''
     \<and> ecb_decrypt (ecb_new_aes128 key128) data = Inl ''ECB input must be a multiple of the 16-byte AES block size''
     \<and> cbc_aes128_encrypt (cbc_new_aes128 key128 iv) data = Inl CBC_ERROR
     \<and> cbc_aes128_decrypt (cbc_new_aes128 key128 iv) data = Inl CBC_ERROR
     \<and> cbc_aes256_encrypt (cbc_new_aes256 key256 iv) data = Inl CBC_ERROR
     \<and> cbc_aes256_decrypt (cbc_new_aes256 key256 iv) data = Inl CBC_ERROR)
   \<and> (length data mod 8 \<noteq> 0 \<longrightarrow> tdes_cbc_encrypt tdes_enc tdes_key iv8 data = Inl TDES_ERROR
     \<and> tdes_cbc_decrypt tdes_dec tdes_key iv8 data = Inl TDES_ERROR)"
proof (intro conjI impI)
  have o: "aes128_ok (aes128_new key128)" "aes256_ok (aes256_new key256)" using assms by simp_all
  assume a: "length data mod 16 = 0"
  have e: "length (concat (map (aes128_encrypt_block (aes128_new key128)) (chunks_of 16 data))) mod 16 = 0"
    using chunks_of_lengths [OF _ a] aes128.enc_length by (subst length_concat_blocks [of _ 16]) auto
  show "Inr data = (case ecb_encrypt (ecb_new_aes128 key128) data of Inl e \<Rightarrow> Inl e | Inr c \<Rightarrow> ecb_decrypt (ecb_new_aes128 key128) c)"
    using a e aes128.ecb_inverse [OF o(1) a]
    by (simp add: ecb_encrypt_def ecb_decrypt_def ecb_new_aes128_def AES_BLOCK_SIZE_def)
  show "Inr data = (case cbc_aes128_encrypt (cbc_new_aes128 key128 iv) data of Inl e \<Rightarrow> Inl e
      | Inr c \<Rightarrow> cbc_aes128_decrypt (cbc_new_aes128 key128 iv) c)"
    using a aes128.cbc_inverse [OF o(1) assms(3) a] aes128.cbc_encrypt_aligned [OF a]
    by (simp add: cbc_aes128_encrypt_def cbc_aes128_decrypt_def cbc_new_aes128_def AES_BLOCK_SIZE_def)
  show "Inr data = (case cbc_aes256_encrypt (cbc_new_aes256 key256 iv) data of Inl e \<Rightarrow> Inl e
      | Inr c \<Rightarrow> cbc_aes256_decrypt (cbc_new_aes256 key256 iv) c)"
    using a aes256.cbc_inverse [OF o(2) assms(3) a] aes256.cbc_encrypt_aligned [OF a]
    by (simp add: cbc_aes256_encrypt_def cbc_aes256_decrypt_def cbc_new_aes256_def AES_BLOCK_SIZE_def)
next
  assume a: "length data mod 8 = 0"
  show "Inr data = (case tdes_cbc_encrypt tdes_enc tdes_key iv8 data of Inl e \<Rightarrow> Inl e
      | Inr c \<Rightarrow> tdes_cbc_decrypt tdes_dec tdes_key iv8 c)"
    using a block_cipher.cbc_inverse [OF assms(5) refl assms(4) a] block_cipher.cbc_encrypt_aligned [OF assms(5) a]
    by (simp add: tdes_cbc_encrypt_def tdes_cbc_decrypt_def)
qed (simp_all add: ecb_encrypt_def ecb_decrypt_def cbc_aes128_encrypt_def cbc_aes128_decrypt_def
    cbc_aes256_encrypt_def cbc_aes256_decrypt_def tdes_cbc_encrypt_def tdes_cbc_decrypt_def AES_BLOCK_SIZE_def)

lemma xor_block_cipher: "length k = 8 \<Longrightarrow> block_cipher 8 (\<lambda>c. c = k) (\<lambda>c b. map2 (XOR) b k) (\<lambda>c b. map2 (XOR) b k)"
  by unfold_locales (simp_all add: map2_xor_cancel)

theorem block_modes_round_trip_witness:
  "Inr (replicate 32 6) = (case tdes_cbc_encrypt (\<lambda>c b. map2 (XOR) b [1, 2, 3, 4, 5, 6, 7, 8]) [1, 2, 3, 4, 5, 6, 7, 8]
       (replicate 8 0) (replicate 32 6) of Inl e \<Rightarrow> Inl e
     | Inr c \<Rightarrow> tdes_cbc_decrypt (\<lambda>c b. map2 (XOR) b [1, 2, 3, 4, 5, 6, 7, 8]) [1, 2, 3, 4, 5, 6, 7, 8] (replicate 8 0) c)
   \<and> Inr (replicate 32 6) = (case cbc_aes256_encrypt (cbc_new_aes256 (replicate 32 1) (replicate 16 2)) (replicate 32 6) of Inl e \<Rightarrow> Inl e
     | Inr c \<Rightarrow> cbc_aes256_decrypt (cbc_new_aes256 (replicate 32 1) (replicate 16 2)) c)"
proof -
  have l: "length (replicate 16 1 :: u8 list) = 16" "length (replicate 32 1 :: u8 list) = 32"
    "length (replicate 16 2 :: u8 list) = 16" "length (replicate 8 0 :: u8 list) = 8" by simp_all
  have k: "length [1, 2, 3, 4, 5, 6, 7, 8 :: u8] = 8" by simp
  have m: "length (replicate 32 6 :: u8 list) mod 16 = 0" "length (replicate 32 6 :: u8 list) mod 8 = 0" by simp_all
  show ?thesis
    using block_modes_round_trip [OF l xor_block_cipher [OF k], of "replicate 32 6"] m by blast
qed

text \<open>
  RC4. Setting up with an empty key panics on the remainder by zero; every other
  key gives a state whose table is a permutation of the 256 byte values, processing
  keeps it one, and processing the output again from the same state restores the
  data.
\<close>

theorem rc4_state_and_inverse:
  "(key = [] \<longrightarrow> rc4_new key = Inl DivisionByZero)
   \<and> (key \<noteq> [] \<longrightarrow> (\<exists>r. rc4_new key = Inr r
        \<and> mset (rc4_s (snd (rc4_process r data))) = mset (map of_nat [0..<256])
        \<and> rc4_process r (fst (rc4_process r data)) = (data, snd (rc4_process r data))))"
proof (intro conjI impI)
  assume "key \<noteq> []"
  then obtain r where r: "rc4_new key = Inr r"
    using rc4_new_cases by blast
  have "rc4_ok (snd (rc4_process r data))"
    by (rule rc4_process_ok [OF rc4_new_ok [OF r]])
  then have "mset (rc4_s (snd (rc4_process r data))) = mset (map of_nat [0..<256])"
    unfolding rc4_ok_def by (intro all_bytes_mset) blast+
  with r rc4_process_involutive show "\<exists>r. rc4_new key = Inr r
      \<and> mset (rc4_s (snd (rc4_process r data))) = mset (map of_nat [0..<256])
      \<and> rc4_process r (fst (rc4_process r data)) = (data, snd (rc4_process r data))"
    by blast
qed (use rc4_new_cases in blast)

theorem rc4_state_and_inverse_witness:
  "\<exists>r. rc4_new [1, 2, 3] = Inr r \<and> rc4_process r (fst (rc4_process r [7, 7])) = ([7, 7], snd (rc4_process r [7, 7]))"
proof -
  have "[1, 2, 3 :: u8] \<noteq> []" by simp
  with rc4_state_and_inverse [of "[1, 2, 3]" "[7, 7]"] show ?thesis by blast
qed

end
