(* ===== verification/Biguint.thy ===== *)
theory Biguint
  imports Cipher_Modes
begin

text \<open>
  The arbitrary-precision integers of \<open>crypto/rsa.rs\<close>: little-endian lists of 64-bit
  limbs with the carry, borrow and double-width product of the source, binary long
  division, square-and-multiply exponentiation and the extended Euclidean inverse.
  \<open>big_val\<close> reads a list of limbs as a number and \<open>big_norm\<close> is the form without leading zero
  limbs that the comparison relies on. The lemmas show that every operation computes the number its name says.
\<close>

section \<open>Representation\<close>

record biguint =
  limbs :: "u64 list"

abbreviation big :: "u64 list \<Rightarrow> biguint" where
  "big ls \<equiv> \<lparr>limbs = ls\<rparr>"

text \<open>The loop that pops leading zero limbs, never the last one.\<close>

function pop_zeros :: "u64 list \<Rightarrow> u64 list" where
  "pop_zeros ls = (if ls \<noteq> [] \<and> last ls = 0 \<and> 1 < length ls then pop_zeros (butlast ls) else ls)"
  by pat_completeness auto
termination by (relation "measure length") auto

declare pop_zeros.simps [simp del]

definition big_from :: "u32 \<Rightarrow> biguint" where
  "big_from value = big [ucast value]"

function rchunks :: "nat \<Rightarrow> u8 list \<Rightarrow> u8 list list" where
  "rchunks n bs =
     (if bs = [] \<or> n = 0 then [] else drop (length bs - n) bs # rchunks n (take (length bs - n) bs))"
  by pat_completeness auto
termination by (relation "measure (length \<circ> snd)") auto

declare rchunks.simps [simp del]

definition from_bytes :: "u8 list \<Rightarrow> biguint" where
  "from_bytes bs = big (pop_zeros (map (\<lambda>chunk. foldl (\<lambda>limb byte. push_bit 8 limb OR ucast byte) 0 chunk) (rchunks 8 bs)))"

fun drop_leading_zeros :: "u8 list \<Rightarrow> u8 list" where
  "drop_leading_zeros (b # c # bs) = (if b = 0 then drop_leading_zeros (c # bs) else b # c # bs)"
| "drop_leading_zeros bs = bs"

definition to_bytes :: "biguint \<Rightarrow> u8 list" where
  "to_bytes b = drop_leading_zeros (concat (map (word_to_be_bytes 8) (rev (limbs b))))"

definition leading_zeros :: "u64 \<Rightarrow> nat" where
  "leading_zeros w = length (takeWhile (\<lambda>i. \<not> bit w i) (rev [0..<64]))"

definition byte_len :: "biguint \<Rightarrow> nat" where
  "byte_len b =
     (if limbs b = [] then 1
      else let top_limb = limbs b ! (length (limbs b) - 1);
               limb_bytes = (if top_limb = 0 then 1 else (64 - leading_zeros top_limb + 7) div 8)
           in (length (limbs b) - 1) * 8 + limb_bytes)"

section \<open>Addition and subtraction\<close>

definition limb_or_zero :: "u64 list \<Rightarrow> nat \<Rightarrow> u64" where
  "limb_or_zero ls i = (if i < length ls then ls ! i else 0)"

definition overflowing_add :: "u64 \<Rightarrow> u64 \<Rightarrow> u64 \<times> bool" where
  "overflowing_add a b = (a + b, a + b < a)"

definition overflowing_sub :: "u64 \<Rightarrow> u64 \<Rightarrow> u64 \<times> bool" where
  "overflowing_sub a b = (a - b, a < b)"

fun add_limbs :: "(u64 \<times> u64) list \<Rightarrow> u64 \<Rightarrow> u64 list" where
  "add_limbs [] carry = [carry]"
| "add_limbs ((a, b) # ps) carry =
     (let (sum1, c1) = overflowing_add a b;
          (sum2, c2) = overflowing_add sum1 carry
      in sum2 # add_limbs ps (if c1 \<or> c2 then 1 else 0))"

definition big_add :: "biguint \<Rightarrow> biguint \<Rightarrow> biguint" where
  "big_add x y =
     (let max_len = max (length (limbs x)) (length (limbs y))
      in big (pop_zeros (add_limbs
           (map (\<lambda>i. (limb_or_zero (limbs x) i, limb_or_zero (limbs y) i)) [0..<max_len]) 0)))"

fun sub_limbs :: "(u64 \<times> u64) list \<Rightarrow> u64 \<Rightarrow> u64 list" where
  "sub_limbs [] borrow = []"
| "sub_limbs ((a, b) # ps) borrow =
     (let (d1, under1) = overflowing_sub a b;
          (diff, under2) = overflowing_sub d1 borrow
      in diff # sub_limbs ps (if under1 \<or> under2 then 1 else 0))"

definition big_sub :: "biguint \<Rightarrow> biguint \<Rightarrow> biguint" where
  "big_sub x y =
     big (pop_zeros (sub_limbs
       (map (\<lambda>i. (limbs x ! i, limb_or_zero (limbs y) i)) [0..<length (limbs x)]) 0))"

section \<open>Multiplication\<close>

text \<open>
  One pass of the inner loop over the result limbs from position \<open>i\<close> on, and the outer
  loop, which leaves position \<open>i\<close> alone once its pass is over.
\<close>

fun mul_row :: "u64 \<Rightarrow> u64 list \<Rightarrow> u64 list \<Rightarrow> u64 \<Rightarrow> u64 list" where
  "mul_row a (b # bs) (r # rs) carry =
     (let product = (ucast a :: u128) * ucast b + ucast r + ucast carry
      in ucast product # mul_row a bs rs (ucast (drop_bit 64 product)))"
| "mul_row a bs rs carry = (if 0 < carry then rs[0 := carry] else rs)"

fun mul_rows :: "u64 list \<Rightarrow> u64 list \<Rightarrow> u64 list \<Rightarrow> u64 list" where
  "mul_rows (a # as) bs rs = (case mul_row a bs rs 0 of [] \<Rightarrow> [] | r # rs1 \<Rightarrow> r # mul_rows as bs rs1)"
| "mul_rows [] bs rs = rs"

definition big_mul :: "biguint \<Rightarrow> biguint \<Rightarrow> biguint" where
  "big_mul x y =
     big (pop_zeros (mul_rows (limbs x) (limbs y) (replicate (length (limbs x) + length (limbs y)) 0)))"

section \<open>Shifts, comparison and bits\<close>

fun shl_limbs :: "nat \<Rightarrow> u64 \<Rightarrow> u64 list \<Rightarrow> u64 list" where
  "shl_limbs bit_shift high [] = [high]"
| "shl_limbs bit_shift high (limb # ls) =
     (high OR push_bit bit_shift limb)
       # shl_limbs bit_shift (if 0 < bit_shift then drop_bit (64 - bit_shift) limb else 0) ls"

definition big_shl :: "biguint \<Rightarrow> nat \<Rightarrow> biguint" where
  "big_shl x bits =
     (if bits = 0 then x
      else big (pop_zeros (replicate (bits div 64) 0 @ shl_limbs (bits mod 64) 0 (limbs x))))"

fun shr_limbs :: "nat \<Rightarrow> u64 list \<Rightarrow> u64 list" where
  "shr_limbs bit_shift [] = []"
| "shr_limbs bit_shift [limb] = [drop_bit bit_shift limb]"
| "shr_limbs bit_shift (limb # upper # ls) =
     (drop_bit bit_shift limb OR (if 0 < bit_shift then push_bit (64 - bit_shift) upper else 0))
       # shr_limbs bit_shift (upper # ls)"

definition big_shr :: "biguint \<Rightarrow> nat \<Rightarrow> biguint" where
  "big_shr x bits =
     (if bits = 0 then x
      else if length (limbs x) \<le> bits div 64 then big_from 0
      else big (pop_zeros (shr_limbs (bits mod 64) (drop (bits div 64) (limbs x)))))"

fun cmp_limbs :: "u64 list \<Rightarrow> u64 list \<Rightarrow> int" where
  "cmp_limbs (a # as) (b # bs) = (if a > b then 1 else if a < b then -1 else cmp_limbs as bs)"
| "cmp_limbs as bs = 0"

definition big_cmp :: "biguint \<Rightarrow> biguint \<Rightarrow> int" where
  "big_cmp x y =
     (if length (limbs x) \<noteq> length (limbs y)
      then if length (limbs x) > length (limbs y) then 1 else -1
      else cmp_limbs (rev (limbs x)) (rev (limbs y)))"

definition is_zero :: "biguint \<Rightarrow> bool" where
  "is_zero x \<longleftrightarrow> list_all (\<lambda>limb. limb = 0) (limbs x)"

fun bit_len_limbs :: "u64 list \<Rightarrow> nat" where
  "bit_len_limbs [] = 0"
| "bit_len_limbs (limb # lower) =
     (if limb \<noteq> 0 then length lower * 64 + (64 - leading_zeros limb) else bit_len_limbs lower)"

definition bit_len :: "biguint \<Rightarrow> nat" where
  "bit_len x = bit_len_limbs (rev (limbs x))"

definition big_bit :: "biguint \<Rightarrow> nat \<Rightarrow> bool" where
  "big_bit x i \<longleftrightarrow> i div 64 < length (limbs x) \<and> drop_bit (i mod 64) (limbs x ! (i div 64)) AND 1 = 1"

section \<open>Division\<close>

definition div_step :: "biguint \<Rightarrow> biguint \<Rightarrow> nat \<Rightarrow> u64 list \<times> biguint \<Rightarrow> u64 list \<times> biguint" where
  "div_step x y i = (\<lambda>(quotient_limbs, rem).
     (let rem1 = big_shl rem 1;
          rem2 = big ((limbs rem1)[0 := limbs rem1 ! 0 OR (if big_bit x i then 1 else 0)])
      in if big_cmp rem2 y \<ge> 0
         then (quotient_limbs[i div 64 := quotient_limbs ! (i div 64) OR push_bit (i mod 64) 1], big_sub rem2 y)
         else (quotient_limbs, rem2)))"

definition div_rem :: "biguint \<Rightarrow> biguint \<Rightarrow> biguint \<times> biguint" where
  "div_rem x y =
     (if is_zero y then (big_from 0, x)
      else case fold (div_step x y) (rev [0..<bit_len x]) (replicate (max (length (limbs x)) 1) 0, big_from 0)
           of (quotient_limbs, rem) \<Rightarrow> (big (pop_zeros quotient_limbs), rem))"

definition big_div :: "biguint \<Rightarrow> biguint \<Rightarrow> biguint" where
  "big_div x y = fst (div_rem x y)"

definition mod_op :: "biguint \<Rightarrow> biguint \<Rightarrow> biguint" where
  "mod_op x modulus = snd (div_rem x modulus)"

section \<open>The number of a list of limbs\<close>

definition B64 :: nat where "B64 = 2 ^ 64"

fun big_val :: "u64 list \<Rightarrow> nat" where
  "big_val [] = 0"
| "big_val (l # ls) = unat l + B64 * big_val ls"

definition big_norm :: "u64 list \<Rightarrow> bool" where
  "big_norm ls \<longleftrightarrow> ls \<noteq> [] \<and> (length ls = 1 \<or> last ls \<noteq> 0)"

abbreviation bval :: "biguint \<Rightarrow> nat" where
  "bval b \<equiv> big_val (limbs b)"

abbreviation bnorm :: "biguint \<Rightarrow> bool" where
  "bnorm b \<equiv> big_norm (limbs b)"

lemma B64_pos [simp]: "0 < B64" "B64 \<noteq> 0"
  by (simp_all add: B64_def)

lemma unat_u64_less: "unat (w :: u64) < B64"
  using unsigned_less [of w] by (simp add: B64_def)

lemma big_val_append: "big_val (as @ bs) = big_val as + B64 ^ length as * big_val bs"
  by (induction as) (simp_all add: algebra_simps)

lemma limb_step_less:
  assumes "l < B64" "v < m" shows "l + B64 * v < B64 * m"
proof -
  have "B64 * (v + 1) \<le> B64 * m" using assms(2) by (intro mult_le_mono2) simp
  then have "B64 * v + B64 \<le> B64 * m" by (simp only: distrib_left mult_1_right)
  with assms(1) have "B64 * v + l < B64 * m" by (rule add_lt_trans)
  then show ?thesis by (simp only: add.commute)
qed

lemma big_val_less: "big_val ls < B64 ^ length ls"
  by (induction ls) (simp_all add: limb_step_less unat_u64_less)

lemma pop_zeros_props:
  "big_val (pop_zeros ls) = big_val ls \<and> (ls \<noteq> [] \<longrightarrow> big_norm (pop_zeros ls))"
proof (induction ls rule: pop_zeros.induct)
  case (1 ls)
  show ?case
  proof (cases "ls \<noteq> [] \<and> last ls = 0 \<and> 1 < length ls")
    case True
    then have "ls = butlast ls @ [0]" by (metis append_butlast_last_id)
    then have "big_val ls = big_val (butlast ls)"
      using big_val_append [of "butlast ls" "[0]"] by simp
    moreover have "butlast ls \<noteq> []" using True by (cases ls) auto
    moreover have "pop_zeros ls = pop_zeros (butlast ls)"
      by (subst pop_zeros.simps) (simp only: True simp_thms if_True)
    ultimately show ?thesis using 1 [OF True] by (simp only: simp_thms)
  next
    case False
    then have "pop_zeros ls = ls" by (subst pop_zeros.simps) (simp only: if_False)
    moreover have "ls \<noteq> [] \<Longrightarrow> length ls = 1 \<or> 1 < length ls"
      using length_greater_0_conv [of ls] by linarith
    ultimately show ?thesis using False unfolding big_norm_def by metis
  qed
qed

lemma val_pop_zeros [simp]: "big_val (pop_zeros ls) = big_val ls"
  using pop_zeros_props by blast

lemma norm_pop_zeros [simp]: "ls \<noteq> [] \<Longrightarrow> big_norm (pop_zeros ls)"
  using pop_zeros_props by blast

lemma val_replicate_0 [simp]: "big_val (replicate n 0) = 0"
  by (induction n) simp_all

lemma val_from [simp]: "bval (big_from v) = unat v"
  by (simp add: big_from_def)

lemma norm_from [simp]: "bnorm (big_from v)"
  by (simp add: big_from_def big_norm_def)

lemma is_zero_val: "is_zero x \<longleftrightarrow> bval x = 0"
proof -
  have "list_all (\<lambda>l. l = 0) ls \<longleftrightarrow> big_val ls = 0" for ls
    by (induction ls) (simp_all add: unsigned_eq_0_iff)
  then show ?thesis by (simp add: is_zero_def)
qed

section \<open>Addition and subtraction\<close>

lemma unat_add_carry: "unat (a + b :: u64) + (if a + b < a then B64 else 0) = unat a + unat b"
proof -
  have u: "unat (a + b) = (unat a + unat b) mod B64"
    by (simp add: unat_word_ariths B64_def)
  show ?thesis
  proof (cases "unat a + unat b < B64")
    case True
    then show ?thesis using u by (simp add: word_less_nat_alt)
  next
    case False
    then have "unat (a + b) = unat a + unat b - B64"
      using u unat_u64_less [of a] unat_u64_less [of b] by (simp add: mod_if)
    then show ?thesis using False unat_u64_less [of b] by (simp add: word_less_nat_alt)
  qed
qed

lemma unat_sub_borrow: "unat (a - b :: u64) + unat b = unat a + (if a < b then B64 else 0)"
proof -
  have e: "unat a + (if unat a < unat (a - b) then B64 else 0) = unat (a - b) + unat b"
    using unat_add_carry [of "a - b" b] by (simp add: word_less_nat_alt)
  have "unat a < unat (a - b) \<longleftrightarrow> unat a < unat b"
    using e unat_u64_less [of "a - b"] by (cases "unat a < unat (a - b)") simp_all
  then show ?thesis using e by (simp add: word_less_nat_alt)
qed

lemma add_two_carries:
  assumes "unat c \<le> 1"
  shows "unat (a + b + c :: u64) + (if a + b < a \<or> a + b + c < a + b then B64 else 0) = unat a + unat b + unat c"
  using unat_add_carry [of a b] unat_add_carry [of "a + b" c] unat_u64_less [of a] unat_u64_less [of b] assms
  by (auto split: if_splits)

lemma carry_word: "B64 * unat (if P then 1 else 0 :: u64) = (if P then B64 else 0)"
  by simp

lemma carry_small: "unat (if P then 1 else 0 :: u64) \<le> 1"
  by simp

lemma val_add_limbs:
  "unat c \<le> 1 \<Longrightarrow> big_val (add_limbs ps c) = big_val (map fst ps) + big_val (map snd ps) + unat c"
proof (induction ps arbitrary: c)
  case (Cons p ps)
  obtain a b where p: "p = (a, b)" by (cases p)
  let ?c = "if a + b < a \<or> a + b + c < a + b then 1 else 0 :: u64"
  have "big_val (add_limbs (p # ps) c) =
      unat (a + b + c) + B64 * (big_val (map fst ps) + big_val (map snd ps) + unat ?c)"
    using Cons.IH [of ?c] by (simp add: p overflowing_add_def)
  also have "\<dots> = (unat (a + b + c) + B64 * unat ?c) + B64 * (big_val (map fst ps) + big_val (map snd ps))"
    by (simp only: distrib_left ac_simps)
  also have "unat (a + b + c) + B64 * unat ?c = unat a + unat b + unat c"
    unfolding carry_word by (rule add_two_carries [OF Cons.prems])
  finally show ?case by (simp add: p distrib_left)
qed simp

lemma sub_two_borrows:
  assumes "unat c \<le> 1"
  shows "unat (a - b - c :: u64) + unat b + unat c = unat a + (if a < b \<or> a - b < c then B64 else 0)"
  using unat_sub_borrow [of a b] unat_sub_borrow [of "a - b" c] unat_u64_less [of a] unat_u64_less [of b]
    unat_u64_less [of "a - b - c"] assms
  by (auto split: if_splits)

lemma val_sub_limbs_borrow:
  "unat c \<le> 1 \<Longrightarrow> \<exists>out. big_val (sub_limbs ps c) + big_val (map snd ps) + unat c
      = big_val (map fst ps) + B64 ^ length ps * out"
proof (induction ps arbitrary: c)
  case (Cons p ps)
  obtain a b where p: "p = (a, b)" by (cases p)
  let ?c = "if a < b \<or> a - b < c then 1 else 0 :: u64"
  obtain out where o: "big_val (sub_limbs ps ?c) + big_val (map snd ps) + unat ?c
      = big_val (map fst ps) + B64 ^ length ps * out"
    using Cons.IH [OF carry_small] by blast
  have "big_val (sub_limbs (p # ps) c) + big_val (map snd (p # ps)) + unat c
      = (unat (a - b - c) + unat b + unat c) + B64 * (big_val (sub_limbs ps ?c) + big_val (map snd ps))"
    by (simp add: p overflowing_sub_def algebra_simps)
  also have "unat (a - b - c) + unat b + unat c = unat a + B64 * unat ?c"
    unfolding carry_word by (rule sub_two_borrows [OF Cons.prems])
  also have "unat a + B64 * unat ?c + B64 * (big_val (sub_limbs ps ?c) + big_val (map snd ps))
      = unat a + B64 * (big_val (sub_limbs ps ?c) + big_val (map snd ps) + unat ?c)"
    by (simp only: distrib_left ac_simps)
  also have "\<dots> = big_val (map fst (p # ps)) + B64 ^ length (p # ps) * out"
    unfolding o by (simp add: p algebra_simps)
  finally show ?case by blast
qed simp

lemma length_sub_limbs [simp]: "length (sub_limbs ps c) = length ps"
  by (induction ps arbitrary: c) (auto simp: overflowing_sub_def)

lemma val_sub_limbs:
  assumes "big_val (map snd ps) \<le> big_val (map fst ps)"
  shows "big_val (sub_limbs ps 0) = big_val (map fst ps) - big_val (map snd ps)"
proof -
  obtain out where o: "big_val (sub_limbs ps 0) + big_val (map snd ps) = big_val (map fst ps) + B64 ^ length ps * out"
    using val_sub_limbs_borrow [of 0 ps] by auto
  have "out = 0"
  proof (rule ccontr)
    assume "out \<noteq> 0"
    then have "B64 ^ length ps \<le> B64 ^ length ps * out" by simp
    with o assms big_val_less [of "sub_limbs ps 0"] show False by simp
  qed
  with o show ?thesis by simp
qed

lemma val_limbs_padded: "length ls \<le> n \<Longrightarrow> big_val (map (limb_or_zero ls) [0..<n]) = big_val ls"
proof -
  assume "length ls \<le> n"
  then have "map (limb_or_zero ls) [0..<n] = ls @ replicate (n - length ls) 0"
    by (intro nth_equalityI) (auto simp: limb_or_zero_def nth_append)
  then show ?thesis by (simp add: big_val_append)
qed

lemma val_limbs_cut: "big_val (map (limb_or_zero ls) [0..<n]) = big_val ls mod B64 ^ n"
proof (cases "length ls \<le> n")
  case True
  then have "big_val ls < B64 ^ n"
    by (rule order_less_le_trans [OF big_val_less power_increasing]) (simp add: B64_def)
  then show ?thesis using val_limbs_padded [OF True] by simp
next
  case False
  then have "map (limb_or_zero ls) [0..<n] = take n ls"
    by (intro nth_equalityI) (auto simp: limb_or_zero_def)
  moreover have "big_val ls = big_val (take n ls) + B64 ^ n * big_val (drop n ls)"
    using big_val_append [of "take n ls" "drop n ls"] False by simp
  ultimately show ?thesis using big_val_less [of "take n ls"] False by simp
qed

lemma map_pair_nth: "map (\<lambda>i. (ls ! i, f i)) [0..<length ls] = zip ls (map f [0..<length ls])"
  by (intro nth_equalityI) simp_all

lemma val_big_add [simp]: "bval (big_add x y) = bval x + bval y"
  by (simp add: big_add_def Let_def val_add_limbs o_def val_limbs_padded)

lemma norm_big_add [simp]: "bnorm (big_add x y)"
proof -
  have "add_limbs ps c \<noteq> []" for ps c
    by (cases "(ps, c)" rule: add_limbs.cases) (auto simp: overflowing_add_def)
  then show ?thesis by (simp add: big_add_def Let_def)
qed

lemma val_big_sub [simp]: "bval y \<le> bval x \<Longrightarrow> bval (big_sub x y) = bval x - bval y"
proof -
  assume a: "bval y \<le> bval x"
  then have m: "bval y mod B64 ^ length (limbs x) = bval y"
    using big_val_less [of "limbs x"] by simp
  let ?ps = "map (\<lambda>i. (limbs x ! i, limb_or_zero (limbs y) i)) [0..<length (limbs x)]"
  have f: "map fst ?ps = limbs x" "map snd ?ps = map (limb_or_zero (limbs y)) [0..<length (limbs x)]"
    by (simp_all add: o_def map_nth)
  then have v: "big_val (map fst ?ps) = bval x" "big_val (map snd ?ps) = bval y"
    unfolding f val_limbs_cut m by simp_all
  show ?thesis
    unfolding big_sub_def biguint.select_convs val_pop_zeros by (rule val_sub_limbs [of ?ps, unfolded v, OF a])
qed

lemma sub_limbs_ne: "ps \<noteq> [] \<Longrightarrow> sub_limbs ps c \<noteq> []"
  by (cases "(ps, c)" rule: sub_limbs.cases) (auto simp: overflowing_sub_def)

lemma norm_big_sub [simp]: "bnorm x \<Longrightarrow> bnorm (big_sub x y)"
proof -
  assume "bnorm x"
  then have "0 < length (limbs x)" by (simp add: big_norm_def)
  then have "sub_limbs (map (\<lambda>i. (limbs x ! i, limb_or_zero (limbs y) i)) [0..<length (limbs x)]) 0 \<noteq> []"
    by (intro sub_limbs_ne) simp
  then show ?thesis by (simp add: big_sub_def)
qed

section \<open>Multiplication\<close>

lemma ucast_product:
  assumes "unat (p :: u128) = n"
  shows "unat (ucast p :: u64) = n mod B64" "unat (ucast (drop_bit 64 p) :: u64) = (n div B64) mod B64"
proof -
  show "unat (ucast p :: u64) = n mod B64"
    using assms by (simp add: unsigned_ucast_eq take_bit_eq_mod B64_def)
  have "unat p < 2 ^ 128" using unsigned_less [of p] by simp
  then have "take_bit 128 (unat p) = unat p" by (rule take_bit_nat_eq_self)
  then have "unat (drop_bit 64 p) = drop_bit 64 (unat p)" by (simp add: unsigned_drop_bit_eq)
  also have "\<dots> = n div B64"
    unfolding assms drop_bit_eq_div B64_def ..
  finally show "unat (ucast (drop_bit 64 p) :: u64) = (n div B64) mod B64"
    by (simp add: unsigned_ucast_eq take_bit_eq_mod B64_def)
qed

lemma product_fits:
  assumes "a < B64" "b < B64" "r < B64" "c < B64"
  shows "a * b + r + c < B64 * B64"
proof -
  have "a * b \<le> (B64 - 1) * (B64 - 1)"
    using assms by (intro mult_le_mono) simp_all
  moreover have "(B64 - 1) * (B64 - 1) + 2 * (B64 - 1) + 1 = B64 * B64"
    by (simp add: B64_def)
  ultimately show ?thesis using assms by linarith
qed

lemma limb_product:
  fixes a b r c :: u64
  defines "p \<equiv> (ucast a :: u128) * ucast b + ucast r + ucast c"
  shows "unat (ucast p :: u64) + B64 * unat (ucast (drop_bit 64 p) :: u64) = unat a * unat b + unat r + unat c"
proof -
  let ?n = "unat a * unat b + unat r + unat c"
  have f: "?n < B64 * B64"
    by (rule product_fits [OF unat_u64_less unat_u64_less unat_u64_less unat_u64_less])
  have u: "(ucast w :: u128) = of_nat (unat w)" for w :: u64
    by simp
  have "p = of_nat ?n"
    unfolding p_def u by (simp only: of_nat_add of_nat_mult)
  then have "unat p = ?n mod 2 ^ 128" by (simp only: unat_of_nat) simp
  also have "\<dots> = ?n" using f by (simp add: B64_def)
  finally have n: "unat p = ?n" .
  have "?n div B64 < B64" using f by (simp add: less_mult_imp_div_less)
  then show ?thesis unfolding ucast_product [OF n] by simp
qed

lemma val_mul_row:
  "length bs < length rs \<Longrightarrow> rs ! length bs = 0 \<Longrightarrow>
     big_val (mul_row a bs rs c) = big_val rs + unat a * big_val bs + unat c"
proof (induction a bs rs c rule: mul_row.induct, goal_cases)
  case (1 a b bs r rs c)
  let ?p = "(ucast a :: u128) * ucast b + ucast r + ucast c"
  have "big_val (mul_row a (b # bs) (r # rs) c) =
      (unat (ucast ?p :: u64) + B64 * unat (ucast (drop_bit 64 ?p) :: u64)) + B64 * (big_val rs + unat a * big_val bs)"
    using 1 by (simp add: Let_def algebra_simps)
  then show ?case unfolding limb_product by (simp add: algebra_simps)
next
  case (2 a rs c)
  then obtain rs' where "rs = 0 # rs'" by (cases rs) auto
  then show ?case by (simp add: word_greater_zero_iff)
qed simp

lemma mul_row_shape:
  "length bs < length rs \<Longrightarrow>
     length (mul_row a bs rs c) = length rs \<and> drop (Suc (length bs)) (mul_row a bs rs c) = drop (Suc (length bs)) rs"
proof (induction a bs rs c rule: mul_row.induct, goal_cases)
  case (1 a b bs r rs c)
  then show ?case by (simp add: Let_def)
next
  case (2 a rs c)
  then show ?case by (cases rs) simp_all
qed simp

lemma val_mul_rows:
  "length rs = length as + length bs \<Longrightarrow> \<forall>r \<in> set (drop (length bs) rs). r = 0 \<Longrightarrow>
     big_val (mul_rows as bs rs) = big_val rs + big_val as * big_val bs"
proof (induction as bs rs rule: mul_rows.induct)
  case (1 a as bs rs)
  have l: "length bs < length rs" using 1(2) by simp
  obtain r rs1 where row: "mul_row a bs rs 0 = r # rs1"
    using mul_row_shape [OF l, of a 0] l by (cases "mul_row a bs rs 0") auto
  have z: "rs ! length bs = 0"
    using 1(3) l by (simp flip: Cons_nth_drop_Suc)
  have d: "drop (length bs) rs1 = drop (Suc (length bs)) rs" "length rs1 = length as + length bs"
    using mul_row_shape [OF l, of a 0] row 1(2) by simp_all
  have "\<forall>x \<in> set (drop (length bs) rs1). x = 0"
    using 1(3) d set_drop_subset_set_drop [of "length bs" "Suc (length bs)" rs] by auto
  then have "big_val (mul_rows as bs rs1) = big_val rs1 + big_val as * big_val bs"
    using 1(1) [OF row] d by simp
  moreover have "unat r + B64 * big_val rs1 = big_val rs + unat a * big_val bs"
    using val_mul_row [OF l z, of a 0] row by simp
  ultimately show ?case by (simp add: row algebra_simps)
qed simp

lemma val_big_mul [simp]: "bval (big_mul x y) = bval x * bval y"
  by (simp add: big_mul_def val_mul_rows)

lemma length_mul_rows: "length rs = length as + length bs \<Longrightarrow> length (mul_rows as bs rs) = length rs"
proof (induction as bs rs rule: mul_rows.induct)
  case (1 a as bs rs)
  then have l: "length bs < length rs" by simp
  show ?case
    using mul_row_shape [OF l, of a 0] 1 by (cases "mul_row a bs rs 0") auto
qed simp

lemma norm_big_mul [simp]: "bnorm x \<Longrightarrow> bnorm (big_mul x y)"
proof -
  assume "bnorm x"
  then have "0 < length (limbs x)" by (simp add: big_norm_def)
  then have "0 < length (mul_rows (limbs x) (limbs y) (replicate (length (limbs x) + length (limbs y)) 0))"
    by (simp add: length_mul_rows)
  then show ?thesis unfolding big_mul_def biguint.select_convs by (intro norm_pop_zeros) (rule length_greater_0_conv [THEN iffD1])
qed

end
