(* ===== verification/Biguint_Laws.thy ===== *)
theory Biguint_Laws
  imports Biguint
begin

text \<open>
  The arithmetic of \<open>crypto/rsa.rs\<close>, continued: the comparison orders normal forms by
  value, the shifts multiply and divide by powers of two, binary long division yields
  quotient and remainder, and byte strings are big-endian numbers.
\<close>

section \<open>Comparison\<close>

lemma top_limb_less:
  fixes a b x y m :: nat
  assumes "x < m" "a < b" shows "x + m * a < y + m * b"
proof -
  have "m * (a + 1) \<le> m * b" using assms(2) by (intro mult_le_mono2) simp
  then have "m * a + m \<le> m * b" by (simp only: distrib_left mult_1_right)
  with assms(1) have "m * a + x < m * b" by (rule add_lt_trans)
  then show ?thesis by simp
qed

lemma cmp_limbs_val:
  "length as = length bs \<Longrightarrow> cmp_limbs (rev as) (rev bs) = sgn (int (big_val as) - int (big_val bs))"
proof (induction as arbitrary: bs rule: rev_induct)
  case (snoc a as)
  then obtain b bs' where bs: "bs = bs' @ [b]" "length as = length bs'"
    by (cases bs rule: rev_cases) auto
  have v: "big_val (as @ [a]) = big_val as + B64 ^ length as * unat a"
    "big_val bs = big_val bs' + B64 ^ length as * unat b"
    by (simp_all add: bs big_val_append)
  consider "b < a" | "a < b" | "a = b" by (rule linorder_cases)
  then show ?case
  proof cases
    case 1
    then have "big_val bs < big_val (as @ [a])"
      unfolding v using big_val_less [of bs'] bs(2) by (intro top_limb_less) (simp_all add: word_less_nat_alt)
    with 1 bs show ?thesis by (simp add: order_less_imp_not_less sgn_if)
  next
    case 2
    then have "big_val (as @ [a]) < big_val bs"
      unfolding v using big_val_less [of as] by (intro top_limb_less) (simp_all add: word_less_nat_alt)
    with 2 bs show ?thesis by (simp add: order_less_imp_not_less sgn_if)
  next
    case 3
    then show ?thesis using snoc.IH [OF bs(2)] v by (simp add: bs)
  qed
qed simp

lemma shorter_less:
  assumes "big_norm as" "length bs < length as" "bs \<noteq> []" shows "big_val bs < big_val as"
proof -
  have "1 < length as" using assms by (cases bs) auto
  then have a: "as = butlast as @ [last as]" "last as \<noteq> 0"
    using assms(1) by (auto simp: big_norm_def)
  then have "big_val as = big_val (butlast as) + B64 ^ (length as - 1) * unat (last as)"
    using big_val_append [of "butlast as" "[last as]"] by simp
  moreover have "1 \<le> unat (last as)" using a(2) by (simp add: unsigned_eq_0_iff Suc_le_eq flip: neq0_conv)
  ultimately have "B64 ^ (length as - 1) \<le> big_val as"
    by (metis le_add2 mult.right_neutral mult_le_mono2 order_trans)
  moreover have "B64 ^ length bs \<le> B64 ^ (length as - 1)"
    using assms(2) by (intro power_increasing) (simp_all add: Suc_le_eq)
  ultimately show ?thesis using big_val_less [of bs] by linarith
qed

lemma big_cmp_val:
  assumes "bnorm x" "bnorm y"
  shows "big_cmp x y = sgn (int (bval x) - int (bval y))"
proof (cases "length (limbs x)" "length (limbs y)" rule: linorder_cases)
  case less
  then have "bval x < bval y" using assms by (intro shorter_less) (auto simp: big_norm_def)
  with less show ?thesis by (simp add: big_cmp_def sgn_if)
next
  case equal
  then show ?thesis by (simp add: big_cmp_def cmp_limbs_val)
next
  case greater
  then have "bval y < bval x" using assms by (intro shorter_less) (auto simp: big_norm_def)
  with greater show ?thesis by (simp add: big_cmp_def sgn_if)
qed

lemma big_cmp_cases:
  assumes "bnorm x" "bnorm y"
  shows "big_cmp x y \<ge> 0 \<longleftrightarrow> bval y \<le> bval x" "big_cmp x y = 0 \<longleftrightarrow> bval x = bval y" "big_cmp x y < 0 \<longleftrightarrow> bval x < bval y"
  unfolding big_cmp_val [OF assms] by (simp_all add: sgn_if)

section \<open>Shifts and bits\<close>

lemma two_power_limb: "k \<le> 64 \<Longrightarrow> 2 ^ k * 2 ^ (64 - k) = B64"
  by (simp add: B64_def flip: power_add)

lemma unat_drop_bit: "unat (drop_bit k w :: u64) = unat w div 2 ^ k"
proof -
  have "unat w < 2 ^ 64" using unsigned_less [of w] by simp
  then have "take_bit 64 (unat w) = unat w" by (rule take_bit_nat_eq_self)
  then have "unat (drop_bit k w) = drop_bit k (unat w)" by (simp add: unsigned_drop_bit_eq)
  then show ?thesis unfolding drop_bit_eq_div .
qed

lemma unat_push_bit: "unat (push_bit k w :: u64) = (2 ^ k * unat w) mod B64"
proof -
  have "unat (push_bit k w) = take_bit 64 (push_bit k (unat w))"
    by (simp add: unsigned_push_bit_eq)
  then show ?thesis
    unfolding take_bit_eq_mod push_bit_eq_mult B64_def by (simp only: mult.commute)
qed

lemma unat_push_drop:
  assumes "k \<le> 64"
  shows "unat (push_bit k w :: u64) + B64 * unat (drop_bit (64 - k) w) = 2 ^ k * unat w"
proof -
  have "unat (push_bit k w) = (2 ^ k * unat w) mod B64" by (rule unat_push_bit)
  moreover have "unat (drop_bit (64 - k) w) = unat w div 2 ^ (64 - k)"
    by (rule unat_drop_bit)
  moreover have "(2 ^ k * unat w) div B64 = unat w div 2 ^ (64 - k)"
    unfolding two_power_limb [OF assms, symmetric] by simp
  ultimately show ?thesis by (metis mod_mult_div_eq)
qed

lemma bit_below: "unat (c :: u64) < 2 ^ k \<Longrightarrow> k \<le> n \<Longrightarrow> \<not> bit c n"
proof -
  assume a: "unat c < 2 ^ k" "k \<le> n"
  have "unat c div 2 ^ n = 0"
    using a order_less_le_trans [OF a(1) power_increasing [OF a(2), of 2]] by simp
  then have "\<not> bit (unat c) n" by (simp add: bit_iff_odd)
  then show ?thesis by (simp add: bit_unsigned_iff)
qed

lemma unat_or_disjoint: "a AND b = 0 \<Longrightarrow> unat (a OR b) = unat a + unat b" for a b :: "'a :: len word"
proof -
  assume "a AND b = 0"
  then have "unat a AND unat b = 0" by (simp flip: unsigned_and_eq)
  then show ?thesis by (simp add: unsigned_or_eq disjunctive_add_eq_or)
qed

lemma unat_or_low:
  assumes "unat c < 2 ^ k"
  shows "unat (c OR push_bit k w :: u64) = unat c + unat (push_bit k w)"
  using bit_below [OF assms] by (intro unat_or_disjoint) (auto simp: and_eq_0_iff_bits bit_push_bit_iff)

lemma drop_all: "drop_bit 64 l = 0" for l :: u64
proof -
  have "unat (drop_bit 64 l) = 0" unfolding unat_drop_bit using unat_u64_less [of l] by (simp add: B64_def)
  then show ?thesis by (simp only: unsigned_eq_0_iff)
qed

lemma val_shl_limbs:
  "k < 64 \<Longrightarrow> unat h < 2 ^ k \<Longrightarrow> big_val (shl_limbs k h ls) = unat h + 2 ^ k * big_val ls"
proof (induction k h ls rule: shl_limbs.induct)
  case (2 k h l ls)
  have h: "(if 0 < k then drop_bit (64 - k) l else 0) = drop_bit (64 - k) l"
    by (cases "k = 0") (simp_all add: drop_all)
  have "unat l div 2 ^ (64 - k) < 2 ^ k"
    using unat_u64_less [of l] two_power_limb [of k] 2 by (simp add: less_mult_imp_div_less mult.commute)
  then have "big_val (shl_limbs k (drop_bit (64 - k) l) ls) = unat (drop_bit (64 - k) l) + 2 ^ k * big_val ls"
    using 2 unfolding h by (simp add: unat_drop_bit)
  then show ?case
    using unat_push_drop [of k l] 2 by (simp add: h unat_or_low algebra_simps)
qed simp

lemma shl_limbs_ne [simp]: "shl_limbs k h ls \<noteq> []"
  by (cases "(k, h, ls)" rule: shl_limbs.cases) auto

lemma val_big_shl [simp]: "bval (big_shl x bits) = 2 ^ bits * bval x"
proof (cases "bits = 0")
  case False
  have "B64 ^ (bits div 64) * 2 ^ (bits mod 64) = (2 :: nat) ^ bits"
    unfolding B64_def power_mult [symmetric] power_add [symmetric] by (simp only: mult_div_mod_eq)
  with False show ?thesis
    by (simp add: big_shl_def big_val_append val_shl_limbs mult.assoc [symmetric])
qed (simp add: big_shl_def)

lemma norm_big_shl [simp]: "bnorm x \<Longrightarrow> bnorm (big_shl x bits)"
  by (simp add: big_shl_def)

lemma shr_limb_word:
  assumes "0 < k" "k < 64"
  shows "unat (drop_bit k l OR push_bit (64 - k) u :: u64) = unat l div 2 ^ k + 2 ^ (64 - k) * (unat u mod 2 ^ k)"
proof -
  have k: "2 ^ (64 - k) * 2 ^ k = B64" using two_power_limb [of k] assms by (simp add: mult.commute)
  have "unat l div 2 ^ k < 2 ^ (64 - k)"
    using unat_u64_less [of l] k by (simp add: less_mult_imp_div_less)
  then have "unat (drop_bit k l OR push_bit (64 - k) u) = unat l div 2 ^ k + unat (push_bit (64 - k) u)"
    by (subst unat_or_low) (simp_all add: unat_drop_bit)
  moreover have "unat (push_bit (64 - k) u) = (2 ^ (64 - k) * unat u) mod (2 ^ (64 - k) * 2 ^ k)"
    unfolding k by (rule unat_push_bit)
  ultimately show ?thesis by (simp only: mult_mod_right)
qed

lemma shr_value_step:
  assumes "0 < k" "k < 64"
  shows "(l + B64 * w) div 2 ^ k = l div 2 ^ k + 2 ^ (64 - k) * (w mod 2 ^ k) + B64 * (w div 2 ^ k)"
proof -
  have k: "B64 = 2 ^ k * 2 ^ (64 - k)" using two_power_limb [of k] assms by simp
  have "(l + B64 * w) div 2 ^ k = l div 2 ^ k + 2 ^ (64 - k) * w"
    unfolding k mult.assoc by simp
  moreover have "2 ^ (64 - k) * w = 2 ^ (64 - k) * (w mod 2 ^ k + 2 ^ k * (w div 2 ^ k))"
    by (simp only: mod_mult_div_eq)
  moreover have "\<dots> = 2 ^ (64 - k) * (w mod 2 ^ k) + B64 * (w div 2 ^ k)"
    unfolding k by (simp only: distrib_left ac_simps)
  ultimately show ?thesis by (simp only: add.assoc)
qed

lemma val_shr_limbs:
  "0 < k \<Longrightarrow> k < 64 \<Longrightarrow> big_val (shr_limbs k ls) = big_val ls div 2 ^ k"
proof (induction k ls rule: shr_limbs.induct)
  case (3 k l u ls)
  have k: "B64 = 2 ^ k * 2 ^ (64 - k)" using two_power_limb [of k] 3 by simp
  have "(unat u + B64 * big_val ls) mod 2 ^ k = unat u mod 2 ^ k"
    unfolding k mult.assoc by (rule mod_mult_self2)
  then show ?case
    using 3 shr_limb_word [of k l u] shr_value_step [of k "unat l" "unat u + B64 * big_val ls"] by simp
qed (simp_all add: unat_drop_bit)

lemma big_shr_one:
  "bval (big_shr x 1) = bval x div 2" "bnorm x \<Longrightarrow> bnorm (big_shr x 1)"
proof -
  have ne: "shr_limbs 1 ls \<noteq> []" if "ls \<noteq> []" for ls
    using that by (cases "(1 :: nat, ls)" rule: shr_limbs.cases) auto
  show "bval (big_shr x 1) = bval x div 2"
    using val_shr_limbs [of 1 "limbs x"] by (simp add: big_shr_def)
  show "bnorm x \<Longrightarrow> bnorm (big_shr x 1)"
    using ne [of "limbs x"] by (simp add: big_shr_def big_norm_def [of "limbs x"])
qed

lemma bit_add_high:
  "a < B64 \<Longrightarrow> bit (a + B64 * v) i \<longleftrightarrow> (if i < 64 then bit a i else bit v (i - 64))" for a v :: nat
proof -
  assume a: "a < B64"
  have hi: "\<not> bit a n" if "64 \<le> n" for n
  proof -
    have "a < 2 ^ n" using a power_increasing [OF that, of "2 :: nat"] by (simp add: B64_def)
    then show ?thesis by (simp add: bit_iff_odd)
  qed
  have p: "push_bit 64 v = B64 * v" unfolding push_bit_eq_mult B64_def by (simp only: mult.commute)
  have "a AND push_bit 64 v = 0"
    by (rule bit_eqI) (use hi in \<open>auto simp: bit_and_iff bit_push_bit_iff\<close>)
  then have "a + B64 * v = a OR push_bit 64 v"
    unfolding p by (rule disjunctive_add_eq_or)
  then show ?thesis using hi [of i] by (auto simp: bit_or_iff bit_push_bit_iff)
qed

lemma bit_big_val: "bit (big_val ls) i \<longleftrightarrow> i div 64 < length ls \<and> bit (ls ! (i div 64)) (i mod 64)"
proof (induction ls arbitrary: i)
  case (Cons l ls)
  show ?case
  proof (cases "i < 64")
    case True
    then show ?thesis
      using bit_add_high [OF unat_u64_less, of l "big_val ls" i] by (simp add: bit_unsigned_iff)
  next
    case False
    then have "i div 64 = Suc ((i - 64) div 64)" "i mod 64 = (i - 64) mod 64"
      by (simp_all add: div_if mod_if)
    then show ?thesis
      using bit_add_high [OF unat_u64_less, of l "big_val ls" i] False Cons.IH [of "i - 64"] by simp
  qed
qed simp

lemma and_one_is_bit: "drop_bit k l AND 1 = 1 \<longleftrightarrow> bit l k" for l :: u64
  unfolding bit_iff_odd_drop_bit and_one_eq mod_2_eq_odd by simp

lemma big_bit_val: "big_bit x i \<longleftrightarrow> bit (bval x) i"
  unfolding big_bit_def bit_big_val by (simp only: and_one_is_bit)

lemma leading_zeros_bound: "unat w < 2 ^ (64 - leading_zeros w)"
proof -
  let ?z = "takeWhile (\<lambda>i. \<not> bit w i) (rev [0..<64])"
  have z: "\<not> bit w n" if "64 - leading_zeros w \<le> n" "n < 64" for n
  proof -
    have "63 - n < length ?z" using that by (simp add: leading_zeros_def)
    moreover from this have "?z ! (63 - n) = n"
      using that by (subst takeWhile_nth) (simp_all add: rev_nth)
    ultimately have "n \<in> set ?z" by (metis nth_mem)
    then show ?thesis by (rule set_takeWhileD [THEN conjunct2])
  qed
  have "take_bit (64 - leading_zeros w) w = w"
  proof (rule bit_word_eqI)
    fix n assume "n < LENGTH(64)"
    then show "bit (take_bit (64 - leading_zeros w) w) n \<longleftrightarrow> bit w n"
      using z [of n] by (cases "n < 64 - leading_zeros w") (simp_all add: bit_take_bit_iff)
  qed
  then have "take_bit (64 - leading_zeros w) (unat w) = unat w"
    by (metis unsigned_take_bit_eq)
  then show ?thesis by (simp only: take_bit_nat_eq_self_iff)
qed

lemma bit_len_bound: "big_val ls < 2 ^ bit_len_limbs (rev ls)"
proof (induction ls rule: rev_induct)
  case (snoc l ls)
  show ?case
  proof (cases "l = 0")
    case False
    have "big_val (ls @ [l]) < B64 ^ length ls * 2 ^ (64 - leading_zeros l)"
    proof -
      have "unat l + 1 \<le> 2 ^ (64 - leading_zeros l)" using leading_zeros_bound [of l] by simp
      then have "B64 ^ length ls * (unat l + 1) \<le> B64 ^ length ls * 2 ^ (64 - leading_zeros l)"
        by (rule mult_le_mono2)
      then have "B64 ^ length ls * unat l + B64 ^ length ls \<le> B64 ^ length ls * 2 ^ (64 - leading_zeros l)"
        by (simp only: distrib_left mult_1_right)
      with big_val_less [of ls] have "B64 ^ length ls * unat l + big_val ls < B64 ^ length ls * 2 ^ (64 - leading_zeros l)"
        by (rule add_lt_trans)
      then show ?thesis by (simp add: big_val_append add.commute)
    qed
    moreover have "B64 ^ length ls * 2 ^ (64 - leading_zeros l) = 2 ^ (length ls * 64 + (64 - leading_zeros l))"
      unfolding B64_def power_mult [symmetric] power_add by (simp only: mult.commute)
    ultimately show ?thesis using False by simp
  qed (use snoc in \<open>simp add: big_val_append\<close>)
qed simp

lemma bit_len_limbs_le: "bit_len_limbs ls \<le> 64 * length ls"
  by (induction ls) auto

section \<open>Division\<close>

lemma val_update:
  "j < length q \<Longrightarrow> big_val (q[j := w]) + B64 ^ j * unat (q ! j) = big_val q + B64 ^ j * unat w"
proof (induction q arbitrary: j)
  case (Cons l q)
  show ?case
  proof (cases j)
    case (Suc k)
    have "B64 * (big_val (q[k := w]) + B64 ^ k * unat (q ! k)) = B64 * (big_val q + B64 ^ k * unat w)"
      using Cons Suc by simp
    then show ?thesis using Suc by (simp add: distrib_left mult.assoc [symmetric])
  qed simp
qed simp

lemma val_set_bit:
  assumes "\<not> bit (big_val q) i" "i div 64 < length q"
  shows "big_val (q[i div 64 := q ! (i div 64) OR push_bit (i mod 64) 1]) = big_val q + 2 ^ i"
proof -
  let ?l = "q ! (i div 64)"
  have "\<not> bit ?l (i mod 64)" using assms by (simp add: bit_big_val)
  then have "?l AND push_bit (i mod 64) 1 = 0"
    by (auto simp: and_eq_0_iff_bits bit_exp_iff)
  moreover have "unat (push_bit (i mod 64) 1 :: u64) = 2 ^ (i mod 64)"
    unfolding unat_push_bit using power_strict_increasing [of "i mod 64" 64 "2 :: nat"] by (simp add: B64_def)
  ultimately have "unat (?l OR push_bit (i mod 64) 1) = unat ?l + 2 ^ (i mod 64)"
    by (simp add: unat_or_disjoint)
  moreover have "B64 ^ (i div 64) * 2 ^ (i mod 64) = (2 :: nat) ^ i"
    unfolding B64_def power_mult [symmetric] power_add [symmetric] by (simp only: mult_div_mod_eq)
  ultimately show ?thesis
    using val_update [OF assms(2), of "?l OR push_bit (i mod 64) 1"] by (simp add: distrib_left)
qed

lemma val_set_low_bit:
  assumes "ls \<noteq> []" "even (big_val ls)"
  shows "big_val (ls[0 := ls ! 0 OR (if b then 1 else 0)]) = big_val ls + of_bool b"
proof (cases b)
  case True
  have "\<not> bit (big_val ls) 0" using assms(2) by (simp add: bit_0)
  then show ?thesis using val_set_bit [of ls 0] assms(1) True by simp
qed (simp add: list_update_id)

lemma norm_update_0: "big_norm ls \<Longrightarrow> big_norm (ls[0 := w])"
  by (cases ls) (auto simp: big_norm_def)

text \<open>After the bits from \<open>i\<close> on, quotient and remainder are those of the dividend shifted right by \<open>i\<close>.\<close>

definition div_inv :: "biguint \<Rightarrow> biguint \<Rightarrow> nat \<Rightarrow> u64 list \<times> biguint \<Rightarrow> bool" where
  "div_inv x y i = (\<lambda>(q, rem). bnorm rem \<and> length q = max (length (limbs x)) 1
     \<and> bval rem = bval x div 2 ^ i mod bval y \<and> big_val q = 2 ^ i * (bval x div 2 ^ i div bval y))"

lemma shifted_bit: "n div 2 ^ i = 2 * (n div 2 ^ Suc i) + of_bool (bit n i)" for n :: nat
proof -
  have "n div 2 ^ Suc i = n div 2 ^ i div 2"
    by (metis div_mult2_eq mult.commute power_Suc)
  then show ?thesis by (simp add: bit_iff_odd of_bool_odd_eq_mod_2)
qed

lemma double_divide:
  fixes n b m :: nat
  assumes "0 < m" "b \<le> 1"
  shows "m \<le> 2 * (n mod m) + b \<Longrightarrow> (2 * n + b) div m = 2 * (n div m) + 1 \<and> (2 * n + b) mod m = 2 * (n mod m) + b - m"
    and "2 * (n mod m) + b < m \<Longrightarrow> (2 * n + b) div m = 2 * (n div m) \<and> (2 * n + b) mod m = 2 * (n mod m) + b"
proof -
  have e: "2 * n + b = (2 * (n mod m) + b) + 2 * (n div m) * m"
    by (metis add.assoc add.commute distrib_left mod_div_mult_eq mult.assoc)
  have r: "n mod m < m" using assms(1) by simp
  assume "m \<le> 2 * (n mod m) + b"
  then have "2 * n + b = (2 * (n mod m) + b - m) + (2 * (n div m) + 1) * m" "2 * (n mod m) + b - m < m"
    using e r assms(2) by (simp_all add: distrib_right)
  then show "(2 * n + b) div m = 2 * (n div m) + 1 \<and> (2 * n + b) mod m = 2 * (n mod m) + b - m"
    by (metis add.commute add_cancel_right_right div_less div_mult_self1 mod_less mod_mult_self1 gr_implies_not0 assms(1))
next
  have e: "2 * n + b = (2 * (n mod m) + b) + 2 * (n div m) * m"
    by (metis add.assoc add.commute distrib_left mod_div_mult_eq mult.assoc)
  assume "2 * (n mod m) + b < m"
  then show "(2 * n + b) div m = 2 * (n div m) \<and> (2 * n + b) mod m = 2 * (n mod m) + b"
    unfolding e using assms(1) by simp
qed

lemma div_step_inv:
  assumes "bnorm y" "0 < bval y" "i < bit_len x" "div_inv x y (Suc i) (q, rem)"
  shows "div_inv x y i (div_step x y i (q, rem))"
proof -
  let ?n = "bval x div 2 ^ Suc i" and ?b = "of_bool (bit (bval x) i) :: nat" and ?m = "bval y"
  let ?r1 = "big_shl rem 1"
  let ?r2 = "big ((limbs ?r1)[0 := limbs ?r1 ! 0 OR (if big_bit x i then 1 else 0)])"
  have inv: "bnorm rem" "length q = max (length (limbs x)) 1" "bval rem = ?n mod ?m" "big_val q = 2 ^ Suc i * (?n div ?m)"
    using assms(4) by (simp_all add: div_inv_def)
  have n1: "bnorm ?r1" "limbs ?r1 \<noteq> []" using inv(1) norm_big_shl [of rem 1] by (simp_all add: big_norm_def)
  have r2: "bval ?r2 = 2 * (?n mod ?m) + ?b" "bnorm ?r2"
    using n1 inv(3) val_set_low_bit [of "limbs ?r1" "big_bit x i"] norm_update_0 [OF n1(1)]
    by (simp_all add: big_bit_val)
  have cut: "bval x div 2 ^ i = 2 * ?n + ?b" by (rule shifted_bit)
  have b: "?b \<le> 1" by simp
  show ?thesis
  proof (cases "?m \<le> bval ?r2")
    case True
    have "2 ^ Suc i dvd big_val q" unfolding inv(4) by (rule dvd_triv_left)
    then have "\<not> bit (big_val q) i"
      by (metis bit_take_bit_iff bit_0_eq bot_apply bot_bool_def lessI take_bit_eq_0_iff)
    moreover have "i div 64 < length q"
      using assms(3) bit_len_limbs_le [of "rev (limbs x)"] inv(2) by (simp add: bit_len_def)
    ultimately have q: "big_val (q[i div 64 := q ! (i div 64) OR push_bit (i mod 64) 1]) = 2 ^ Suc i * (?n div ?m) + 2 ^ i"
      using val_set_bit [of q i] inv(4) by simp
    have "div_step x y i (q, rem) = (q[i div 64 := q ! (i div 64) OR push_bit (i mod 64) 1], big_sub ?r2 y)"
      using True big_cmp_cases(1) [OF r2(2) assms(1)] by (simp add: div_step_def Let_def)
    moreover have "bval (big_sub ?r2 y) = 2 * (?n mod ?m) + ?b - ?m" "bnorm (big_sub ?r2 y)"
      using val_big_sub [OF True] norm_big_sub [OF r2(2)] r2(1) by simp_all
    ultimately show ?thesis
      using q inv(2) double_divide(1) [OF assms(2) b, of ?n] True r2(1) unfolding div_inv_def cut
      by (simp add: algebra_simps)
  next
    case False
    have "div_step x y i (q, rem) = (q, ?r2)"
      using False big_cmp_cases(1) [OF r2(2) assms(1)] by (simp add: div_step_def Let_def)
    then show ?thesis
      using inv(2,4) double_divide(2) [OF assms(2) b, of ?n] False r2 unfolding div_inv_def cut
      by (simp add: algebra_simps)
  qed
qed

lemma div_loop_inv:
  assumes "bnorm y" "0 < bval y"
  shows "i \<le> bit_len x \<Longrightarrow> div_inv x y i st \<Longrightarrow> div_inv x y 0 (fold (div_step x y) (rev [0..<i]) st)"
proof (induction i arbitrary: st)
  case (Suc i)
  have "div_inv x y i (div_step x y i st)"
    using div_step_inv [OF assms, of i x "fst st" "snd st"] Suc.prems by simp
  then show ?case using Suc by simp
qed simp

lemma div_rem_val:
  assumes "bnorm y" "0 < bval y"
  shows "bval (big_div x y) = bval x div bval y" "bval (mod_op x y) = bval x mod bval y"
    "bnorm (big_div x y)" "bnorm (mod_op x y)"
proof -
  have "div_inv x y (bit_len x) (replicate (max (length (limbs x)) 1) 0, big_from 0)"
    using bit_len_bound [of "limbs x"] by (simp add: div_inv_def bit_len_def)
  then have inv: "div_inv x y 0 (fold (div_step x y) (rev [0..<bit_len x]) (replicate (max (length (limbs x)) 1) 0, big_from 0))"
    (is "div_inv x y 0 ?st") by (rule div_loop_inv [OF assms order_refl])
  obtain q rem where st: "?st = (q, rem)" by (cases ?st)
  have d: "div_rem x y = (big (pop_zeros q), rem)"
    using assms(2) st by (simp add: div_rem_def is_zero_val)
  have i: "bnorm rem" "q \<noteq> []" "bval rem = bval x mod bval y" "big_val q = bval x div bval y"
    using inv unfolding st by (auto simp: div_inv_def)
  then show "bval (big_div x y) = bval x div bval y" "bval (mod_op x y) = bval x mod bval y"
    "bnorm (big_div x y)" "bnorm (mod_op x y)"
    unfolding big_div_def mod_op_def d by simp_all
qed

section \<open>Byte strings\<close>

lemma be_nat_Cons: "be_nat (b # bs) = unat b * 256 ^ length bs + be_nat bs"
  using be_nat_append [of "[b]" bs] by (simp add: be_nat_def)

lemma limb_of_bytes:
  "length c \<le> 8 \<Longrightarrow> unat (foldl (\<lambda>limb byte. push_bit 8 limb OR ucast byte) 0 c :: u64) = be_nat c"
proof (induction c rule: rev_induct)
  case (snoc b c)
  let ?l = "foldl (\<lambda>limb byte. push_bit 8 limb OR ucast byte) 0 c :: u64"
  have l: "unat ?l = be_nat c" using snoc by simp
  have u: "unat (ucast b :: u64) = unat b" by simp
  have "be_nat c < 256 ^ 7"
    using snoc.prems by (intro order_less_le_trans [OF be_nat_less power_increasing]) simp_all
  then have p: "unat (push_bit 8 ?l) = 256 * be_nat c"
    unfolding unat_push_bit l by (simp add: B64_def)
  have "unat (ucast b OR push_bit 8 ?l) = unat (ucast b :: u64) + unat (push_bit 8 ?l)"
    using unat_u8_less [of b] by (intro unat_or_low) (simp add: u)
  then have "unat (push_bit 8 ?l OR ucast b) = be_nat (c @ [b])"
    unfolding p u by (simp add: or.commute)
  then show ?case by simp
qed simp

lemma val_of_rchunks:
  "big_val (map (\<lambda>chunk. foldl (\<lambda>limb byte. push_bit 8 limb OR ucast byte) 0 chunk) (rchunks 8 bs)) = be_nat bs"
proof (induction "8 :: nat" bs rule: rchunks.induct)
  case (1 bs)
  show ?case
  proof (cases "bs = []")
    case False
    let ?lo = "drop (length bs - 8) bs" and ?hi = "take (length bs - 8) bs"
    have "rchunks 8 bs = ?lo # rchunks 8 ?hi" using False by (subst rchunks.simps) simp
    then have "big_val (map (\<lambda>chunk. foldl (\<lambda>limb byte. push_bit 8 limb OR ucast byte) 0 chunk) (rchunks 8 bs)) =
        be_nat ?lo + B64 * be_nat ?hi"
      using 1 False by (simp add: limb_of_bytes)
    moreover have "be_nat bs = be_nat ?hi * 256 ^ length ?lo + be_nat ?lo"
      using be_nat_append [of ?hi ?lo] by simp
    moreover have "be_nat ?hi * 256 ^ length ?lo = B64 * be_nat ?hi"
      by (cases "8 \<le> length bs") (simp_all add: B64_def)
    ultimately show ?thesis by (simp only: add.commute)
  qed (simp add: rchunks.simps)
qed

lemma val_from_bytes [simp]: "bval (from_bytes bs) = be_nat bs"
  by (simp add: from_bytes_def val_of_rchunks)

lemma norm_from_bytes [simp]: "bs \<noteq> [] \<Longrightarrow> bnorm (from_bytes bs)"
  by (simp add: from_bytes_def rchunks.simps [of 8 bs])

definition be_min :: "u8 list \<Rightarrow> bool" where
  "be_min bs \<longleftrightarrow> bs \<noteq> [] \<and> (length bs = 1 \<or> hd bs \<noteq> 0)"

lemma drop_leading_zeros_props:
  "be_nat (drop_leading_zeros bs) = be_nat bs \<and> (bs \<noteq> [] \<longrightarrow> be_min (drop_leading_zeros bs))"
  by (induction bs rule: drop_leading_zeros.induct) (auto simp: be_min_def be_nat_Cons)

lemma be_nat_limb: "be_nat (word_to_be_bytes 8 (w :: u64)) = unat w"
proof -
  have "be_nat (rev (map (\<lambda>i. ucast (drop_bit (8 * i) w)) [0..<n])) = unat w mod 256 ^ n" for n
  proof (induction n)
    case (Suc n)
    have "unat (ucast (drop_bit (8 * n) w) :: u8) = unat w div 256 ^ n mod 256"
    proof -
      have "unat (ucast (drop_bit (8 * n) w) :: u8) = unat (drop_bit (8 * n) w) mod 256"
        by (simp add: unsigned_ucast_eq take_bit_eq_mod)
      then show ?thesis unfolding unat_drop_bit power_mult by simp
    qed
    then show ?case
      using Suc mod_mult2_eq [of "unat w" "256 ^ n" 256] by (simp add: be_nat_Cons mult.commute)
  qed simp
  from this [of 8] show ?thesis
    using unat_u64_less [of w] by (simp add: word_to_be_bytes_def word_to_le_bytes_def B64_def)
qed

lemma be_nat_to_bytes [simp]: "be_nat (to_bytes b) = bval b"
proof -
  have "be_nat (concat (map (word_to_be_bytes 8) (rev ls))) = big_val ls" for ls :: "u64 list"
  proof (induction ls)
    case (Cons l ls)
    then show ?case by (simp add: be_nat_append be_nat_limb B64_def mult.commute)
  qed simp
  then show ?thesis using drop_leading_zeros_props by (simp add: to_bytes_def)
qed

lemma be_min_to_bytes: "limbs b \<noteq> [] \<Longrightarrow> be_min (to_bytes b)"
proof -
  assume "limbs b \<noteq> []"
  then have "concat (map (word_to_be_bytes 8) (rev (limbs b))) \<noteq> []"
    by (cases "limbs b" rule: rev_cases) (auto simp: word_to_be_bytes_def word_to_le_bytes_def)
  then show ?thesis using drop_leading_zeros_props by (simp add: to_bytes_def)
qed

lemma be_nat_lower: "bs \<noteq> [] \<Longrightarrow> hd bs \<noteq> 0 \<Longrightarrow> 256 ^ (length bs - 1) \<le> be_nat bs"
proof -
  assume a: "bs \<noteq> []" "hd bs \<noteq> 0"
  then have "1 \<le> unat (hd bs)" by (simp add: unsigned_eq_0_iff Suc_le_eq flip: neq0_conv)
  then have "1 * 256 ^ length (tl bs) \<le> unat (hd bs) * 256 ^ length (tl bs)" by (rule mult_le_mono1)
  then have "256 ^ length (tl bs) \<le> be_nat (hd bs # tl bs)"
    unfolding be_nat_Cons by (simp only: mult_1 trans_le_add1)
  then show ?thesis using a by simp
qed

lemma be_min_unique:
  assumes "be_min as" "be_min bs" "be_nat as = be_nat bs" shows "as = bs"
proof -
  have "length as \<le> length bs" if m: "be_min as" "be_min bs" "be_nat as = be_nat bs" for as bs
  proof (rule ccontr)
    assume l: "\<not> length as \<le> length bs"
    then have "hd as \<noteq> 0" "as \<noteq> []" using m by (auto simp: be_min_def Suc_le_eq neq_Nil_conv)
    then have "256 ^ (length as - 1) \<le> be_nat bs" using be_nat_lower m(3) by metis
    moreover have "(256 :: nat) ^ length bs \<le> 256 ^ (length as - 1)"
      using l by (intro power_increasing) simp_all
    ultimately show False using be_nat_less [of bs] by linarith
  qed
  from this [OF assms] this [OF assms(2,1)] assms(3) have "length as = length bs" by simp
  then show ?thesis using be_nat_inj assms(3) by blast
qed

lemma to_bytes_from_bytes: "be_min bs \<Longrightarrow> bval b = be_nat bs \<Longrightarrow> limbs b \<noteq> [] \<Longrightarrow> to_bytes b = bs"
  using be_min_unique [OF be_min_to_bytes] by simp

lemma leading_zeros_lower: "w \<noteq> 0 \<Longrightarrow> leading_zeros w < 64 \<and> 2 ^ (63 - leading_zeros w) \<le> unat w"
proof -
  assume w: "w \<noteq> 0"
  let ?z = "leading_zeros w"
  have z: "?z < 64"
  proof (rule ccontr)
    assume "\<not> ?z < 64"
    then have "unat w < 2 ^ 0" using leading_zeros_bound [of w] by simp
    then show False using w by (simp add: unsigned_eq_0_iff)
  qed
  then have "bit w (rev [0..<64] ! ?z)"
    using nth_length_takeWhile [of "\<lambda>i. \<not> bit w i" "rev [0..<64]"] unfolding leading_zeros_def by simp
  then have "bit w (63 - ?z)" using z by (simp add: rev_nth)
  then have "bit (unat w) (63 - ?z)" by (simp add: bit_unsigned_iff)
  then have "odd (unat w div 2 ^ (63 - ?z))" unfolding bit_iff_odd .
  then have "unat w div 2 ^ (63 - ?z) \<noteq> 0" by (metis even_zero)
  then show ?thesis using z by (simp add: div_eq_0_iff not_less)
qed

lemma byte_len_lower: "bnorm b \<Longrightarrow> 0 < bval b \<Longrightarrow> 256 ^ (byte_len b - 1) \<le> bval b"
proof -
  assume n: "bnorm b" "0 < bval b"
  then have b: "limbs b = butlast (limbs b) @ [last (limbs b)]" by (simp add: big_norm_def)
  let ?w = "last (limbs b)" and ?k = "length (limbs b) - 1"
  have v: "bval b = big_val (butlast (limbs b)) + B64 ^ ?k * unat ?w"
    using big_val_append [of "butlast (limbs b)" "[?w]"] b by simp
  have w: "?w \<noteq> 0"
    using n b by (cases "length (limbs b) = 1") (auto simp: big_norm_def length_Suc_conv)
  note z = leading_zeros_lower [OF w]
  have l: "byte_len b = ?k * 8 + (64 - leading_zeros ?w + 7) div 8"
    using n w by (simp add: byte_len_def big_norm_def last_conv_nth Let_def)
  have "8 * (byte_len b - 1) \<le> 64 * ?k + (63 - leading_zeros ?w)" unfolding l using z by linarith
  then have "(2 :: nat) ^ (8 * (byte_len b - 1)) \<le> 2 ^ (64 * ?k + (63 - leading_zeros ?w))"
    by (rule power_increasing) simp
  also have "\<dots> = B64 ^ ?k * 2 ^ (63 - leading_zeros ?w)" by (simp only: B64_def power_add power_mult)
  also have "\<dots> \<le> B64 ^ ?k * unat ?w" using z by (intro mult_le_mono2) simp
  also have "\<dots> \<le> bval b" unfolding v by simp
  finally show ?thesis unfolding power_mult by simp
qed

end
