(* ===== verification/Mod_Arith.thy ===== *)
theory Mod_Arith
  imports Biguint_Laws
begin

text \<open>
  Modular exponentiation and inversion of \<open>crypto/rsa.rs\<close>, and the byte strings of its
  integers. The exponent of the square-and-multiply loop halves in every round; the
  Euclidean loop returns for all normal forms and its result is the coefficient of
  the first argument in the greatest common divisor.
\<close>

section \<open>Exponentiation\<close>

function mod_exp_loop :: "biguint \<Rightarrow> biguint \<Rightarrow> biguint \<Rightarrow> biguint \<Rightarrow> biguint" where
  "mod_exp_loop modulus result base exp =
     (if is_zero exp then result
      else mod_exp_loop modulus
        (if limbs exp ! 0 AND 1 = 1 then mod_op (big_mul result base) modulus else result)
        (mod_op (big_mul base base) modulus) (big_shr exp 1))"
  by pat_completeness auto
termination
  by (relation "measure (\<lambda>(modulus, result, base, exp). bval exp)")
    (simp_all add: is_zero_val big_shr_one(1) [unfolded One_nat_def])

declare mod_exp_loop.simps [simp del]

definition mod_exp :: "biguint \<Rightarrow> biguint \<Rightarrow> biguint \<Rightarrow> biguint" where
  "mod_exp x exponent modulus = mod_exp_loop modulus (big_from 1) (mod_op x modulus) exponent"

section \<open>Inversion\<close>

partial_function (option) mod_inverse_loop ::
  "biguint \<Rightarrow> biguint \<Rightarrow> biguint \<Rightarrow> biguint \<Rightarrow> biguint \<Rightarrow> biguint option" where
  "mod_inverse_loop modulus t newt r newr =
     (if is_zero newr then Some (mod_op t modulus)
      else let quotient = big_div r newr;
               product = big_mul quotient newt
           in mod_inverse_loop modulus newt
                (if big_cmp t product \<ge> 0 then big_sub t product
                 else mod_op (big_sub modulus (mod_op (big_sub product t) modulus)) modulus)
                newr (big_sub r (big_mul quotient newr)))"

declare mod_inverse_loop.simps [code]

definition mod_inverse :: "biguint \<Rightarrow> biguint \<Rightarrow> biguint option" where
  "mod_inverse x modulus = mod_inverse_loop modulus (big_from 0) (big_from 1) modulus x"

section \<open>Exponentiation computes powers\<close>

lemma low_limb_odd: "bval e \<noteq> 0 \<Longrightarrow> limbs e ! 0 AND 1 = 1 \<longleftrightarrow> odd (bval e)"
proof -
  assume "bval e \<noteq> 0"
  then have "limbs e \<noteq> []" by auto
  then show ?thesis
    using bit_big_val [of "limbs e" 0] and_one_is_bit [of 0 "limbs e ! 0"] by (simp add: bit_0)
qed

lemma square_multiply:
  fixes r b e m :: nat
  shows "(if odd e then r * b mod m else r) * (b * b mod m) ^ (e div 2) mod m = r * b ^ e mod m"
proof -
  have red: "(x mod m) * (b * b mod m) ^ k mod m = x * (b * b) ^ k mod m" for x k
  proof -
    have "(x mod m) * (b * b mod m) ^ k mod m = x * ((b * b mod m) ^ k mod m) mod m"
      by (simp only: mod_mult_left_eq mod_mult_right_eq)
    also have "(b * b mod m) ^ k mod m = (b * b) ^ k mod m" by (rule power_mod)
    also have "x * ((b * b) ^ k mod m) mod m = x * (b * b) ^ k mod m" by (rule mod_mult_right_eq)
    finally show ?thesis .
  qed
  have sq: "(b * b) ^ (e div 2) = b ^ (2 * (e div 2))" by (simp add: power_mult power2_eq_square)
  have "(if odd e then r * b mod m else r) * (b * b mod m) ^ (e div 2) mod m
      = (if odd e then r * b else r) * (b * b) ^ (e div 2) mod m"
    using red [of "r * b" "e div 2"] red [of r "e div 2"] by (simp add: mod_mult_left_eq)
  also have "(if odd e then r * b else r) * (b * b) ^ (e div 2) = r * b ^ e"
  proof (cases "odd e")
    case True
    then have "b ^ e = b * b ^ (2 * (e div 2))" by (simp flip: power_Suc)
    then show ?thesis using True by (simp add: sq mult.assoc)
  qed (simp add: sq)
  finally show ?thesis .
qed

lemma mod_exp_loop_val:
  assumes "bnorm m" "0 < bval m" "bnorm r" "bnorm b"
  shows "bnorm (mod_exp_loop m r b e)
    \<and> bval (mod_exp_loop m r b e) mod bval m = bval r * bval b ^ bval e mod bval m
    \<and> (bval r < bval m \<longrightarrow> bval (mod_exp_loop m r b e) < bval m)"
  using assms(3,4)
proof (induction "bval e" arbitrary: r b e rule: less_induct)
  case less
  show ?case
  proof (cases "bval e = 0")
    case True
    then show ?thesis using less.prems by (simp add: mod_exp_loop.simps [of m r b e] is_zero_val)
  next
    case False
    let ?r = "if odd (bval e) then mod_op (big_mul r b) m else r" and ?b = "mod_op (big_mul b b) m"
    have step: "mod_exp_loop m r b e = mod_exp_loop m ?r ?b (big_shr e 1)"
      using False by (subst mod_exp_loop.simps) (simp add: is_zero_val low_limb_odd [OF False])
    have norm: "bnorm ?r" "bnorm ?b"
      using less.prems div_rem_val(4) [OF assms(1,2)] by simp_all
    have vals: "bval ?r = (if odd (bval e) then bval r * bval b mod bval m else bval r)"
      "bval ?b = bval b * bval b mod bval m" "bval (big_shr e 1) = bval e div 2"
      using div_rem_val(2) [OF assms(1,2)] big_shr_one(1) by simp_all
    have IH: "bnorm (mod_exp_loop m ?r ?b (big_shr e 1))
      \<and> bval (mod_exp_loop m ?r ?b (big_shr e 1)) mod bval m = bval ?r * bval ?b ^ bval (big_shr e 1) mod bval m
      \<and> (bval ?r < bval m \<longrightarrow> bval (mod_exp_loop m ?r ?b (big_shr e 1)) < bval m)"
      by (rule less.hyps [OF _ norm]) (use False vals(3) in simp)
    have "bval ?r * bval ?b ^ (bval e div 2) mod bval m = bval r * bval b ^ bval e mod bval m"
      unfolding vals by (rule square_multiply)
    then show ?thesis using IH vals assms(2) unfolding step by auto
  qed
qed

lemma mod_exp_val:
  assumes "bnorm m" "1 < bval m"
  shows "bval (mod_exp x e m) = bval x ^ bval e mod bval m" "bnorm (mod_exp x e m)"
proof -
  have m: "0 < bval m" using assms(2) by simp
  note v = mod_exp_loop_val [OF assms(1) m norm_from div_rem_val(4) [OF assms(1) m], of 1 x e]
  show "bnorm (mod_exp x e m)" using v by (simp add: mod_exp_def)
  have "bval (mod_exp x e m) mod bval m = (bval x mod bval m) ^ bval e mod bval m" "bval (mod_exp x e m) < bval m"
    using v assms(2) div_rem_val(2) [OF assms(1) m, of x] by (simp_all add: mod_exp_def)
  then show "bval (mod_exp x e m) = bval x ^ bval e mod bval m" by (simp add: power_mod)
qed

section \<open>Inversion computes Euclid's coefficient\<close>

lemma negate_mod: "(m - w mod m) mod m = (- w) mod m" for m w :: int
proof -
  have "(m - w mod m) mod m = (m - w) mod m" by (rule mod_diff_right_eq)
  also have "m - w = - w + m" by simp
  also have "(- w + m) mod m = (- w) mod m" by (rule mod_add_self2)
  finally show ?thesis .
qed

lemma inverse_step:
  fixes a m t newt r newr q :: nat and s :: int
  assumes "int m dvd int t * int a - int r" "int m dvd int newt * int a - int newr"
    and "int m dvd s - (int t - int q * int newt)" "q * newr \<le> r"
  shows "int m dvd s * int a - int (r - q * newr)"
proof -
  have d: "int (r - q * newr) = int r - int q * int newr"
    using assms(4) by (simp add: of_nat_diff)
  have "s * int a - int (r - q * newr) = (s - (int t - int q * int newt)) * int a
      + (int t * int a - int r) - int q * (int newt * int a - int newr)"
    unfolding d by (simp only: algebra_simps)
  then show ?thesis using assms(1-3) by (simp only: dvd_add dvd_diff dvd_mult dvd_mult2)
qed

lemma mod_inverse_coefficient:
  assumes "bnorm t" "bnorm newt" "bnorm modulus" "0 < bval modulus" "bnorm q"
  defines "product \<equiv> big_mul q newt"
  defines "s \<equiv> if big_cmp t product \<ge> 0 then big_sub t product
     else mod_op (big_sub modulus (mod_op (big_sub product t) modulus)) modulus"
  shows "bnorm s" "int (bval modulus) dvd int (bval s) - (int (bval t) - int (bval q) * int (bval newt))"
proof -
  have p: "bnorm product" "bval product = bval q * bval newt"
    using assms by (simp_all add: product_def)
  note d = div_rem_val [OF assms(3,4)]
  show "bnorm s" using assms(1) d(4) by (simp add: s_def)
  show "int (bval modulus) dvd int (bval s) - (int (bval t) - int (bval q) * int (bval newt))"
  proof (cases "bval product \<le> bval t")
    case True
    then have "bval s = bval t - bval q * bval newt"
      using big_cmp_cases(1) [OF assms(1) p(1)] p(2) by (simp add: s_def)
    then show ?thesis using True p(2) by (simp add: of_nat_diff)
  next
    case False
    let ?w = "bval product - bval t"
    have "bval (mod_op (big_sub product t) modulus) = ?w mod bval modulus"
      using False d(2) by simp
    moreover have "?w mod bval modulus \<le> bval modulus" using assms(4) by (simp add: order_less_imp_le)
    ultimately have s: "bval s = (bval modulus - ?w mod bval modulus) mod bval modulus"
      using False big_cmp_cases(1) [OF assms(1) p(1)] d(2) by (simp add: s_def)
    have "int (bval s) = (int (bval modulus) - int ?w mod int (bval modulus)) mod int (bval modulus)"
      unfolding s using assms(4) by (simp add: zmod_int of_nat_diff order_less_imp_le)
    then have "int (bval s) = (- int ?w) mod int (bval modulus)"
      by (simp only: negate_mod)
    then have "int (bval s) mod int (bval modulus) = (- int ?w) mod int (bval modulus)"
      by (simp only: mod_mod_trivial)
    then have "int (bval modulus) dvd int (bval s) - (- int ?w)"
      by (simp only: mod_eq_dvd_iff)
    moreover have "- int ?w = int (bval t) - int (bval q) * int (bval newt)"
      using False p(2) by (simp add: of_nat_diff)
    ultimately show ?thesis by simp
  qed
qed

lemma mod_inverse_loop_val:
  assumes "bnorm modulus" "0 < bval modulus"
  shows "bnorm t \<Longrightarrow> bnorm newt \<Longrightarrow> bnorm r \<Longrightarrow> bnorm newr \<Longrightarrow>
    int (bval modulus) dvd int (bval t) * int a - int (bval r) \<Longrightarrow>
    int (bval modulus) dvd int (bval newt) * int a - int (bval newr) \<Longrightarrow>
    \<exists>v. mod_inverse_loop modulus t newt r newr = Some v \<and> bnorm v \<and> bval v < bval modulus
      \<and> bval v * a mod bval modulus = gcd (bval r) (bval newr) mod bval modulus"
proof (induction "bval newr" arbitrary: t newt r newr rule: less_induct)
  case less
  show ?case
  proof (cases "bval newr = 0")
    case True
    have "mod_inverse_loop modulus t newt r newr = Some (mod_op t modulus)"
      using True by (subst mod_inverse_loop.simps) (simp add: is_zero_val)
    moreover have "int (bval t * a) mod int (bval modulus) = int (bval r) mod int (bval modulus)"
      using less.prems(5) by (simp add: mod_eq_dvd_iff)
    then have "bval t * a mod bval modulus = bval r mod bval modulus"
      by (metis of_nat_eq_iff zmod_int)
    ultimately show ?thesis
      using True assms(2) div_rem_val [OF assms] by (simp add: mod_mult_left_eq)
  next
    case False
    then have n: "0 < bval newr" by simp
    note d = div_rem_val [OF less.prems(4) n]
    let ?q = "big_div r newr" and ?r = "big_sub r (big_mul (big_div r newr) newr)"
    let ?s = "if big_cmp t (big_mul ?q newt) \<ge> 0 then big_sub t (big_mul ?q newt)
      else mod_op (big_sub modulus (mod_op (big_sub (big_mul ?q newt) t) modulus)) modulus"
    have step: "mod_inverse_loop modulus t newt r newr = mod_inverse_loop modulus newt ?s newr ?r"
      using False by (subst mod_inverse_loop.simps) (simp only: is_zero_val if_False Let_def)
    have le: "bval ?q * bval newr \<le> bval r" unfolding d(1) by simp
    then have r: "bval ?r = bval r - bval ?q * bval newr" "bval ?r = bval r mod bval newr" "bnorm ?r"
      using d less.prems(3) by (simp_all add: minus_div_mult_eq_mod)
    note s = mod_inverse_coefficient [OF less.prems(1,2) assms d(3)]
    have "\<exists>v. mod_inverse_loop modulus newt ?s newr ?r = Some v \<and> bnorm v \<and> bval v < bval modulus
        \<and> bval v * a mod bval modulus = gcd (bval newr) (bval ?r) mod bval modulus"
    proof (rule less.hyps)
      show "bval ?r < bval newr" using r(2) n by simp
      show "int (bval modulus) dvd int (bval ?s) * int a - int (bval ?r)"
        unfolding r(1) by (rule inverse_step [OF less.prems(5,6) s(2) le])
    qed (use less.prems s(1) r(3) in auto)
    then show ?thesis unfolding step r(2) by (simp add: gcd_red_nat [symmetric] gcd.commute)
  qed
qed

lemma mod_inverse_val:
  assumes "bnorm x" "bnorm modulus" "0 < bval modulus"
  shows "\<exists>v. mod_inverse x modulus = Some v \<and> bnorm v \<and> bval v < bval modulus
    \<and> bval v * bval x mod bval modulus = gcd (bval x) (bval modulus) mod bval modulus"
  using mod_inverse_loop_val [OF assms(2,3) norm_from norm_from assms(2,1), of 0 "bval x" 1]
  by (simp add: mod_inverse_def gcd.commute)

end
