(* ===== verification/Prime_Facts.thy ===== *)
theory Prime_Facts
  imports Complex_Main
begin

text \<open>
  The number theory behind RSA and the Miller-Rabin test, over the natural numbers:
  Euclid's lemma, Fermat's theorem by the binomial expansion, the square roots of one
  modulo a prime, residues modulo two distinct primes, and that there is no largest
  prime.
\<close>

definition is_prime :: "nat \<Rightarrow> bool" where
  "is_prime p \<longleftrightarrow> 1 < p \<and> (\<forall>d. d dvd p \<longrightarrow> d = 1 \<or> d = p)"

lemma is_prime_pos: "is_prime p \<Longrightarrow> 0 < p"
  by (simp add: is_prime_def)

lemma prime_coprime: "is_prime p \<Longrightarrow> \<not> p dvd a \<Longrightarrow> coprime p a"
proof -
  assume p: "is_prime p" "\<not> p dvd a"
  have "gcd p a = 1 \<or> gcd p a = p" using p(1) by (simp add: is_prime_def)
  then show ?thesis using p(2) by (metis coprime_iff_gcd_eq_1 gcd_dvd2)
qed

lemma prime_dvd_mult: "is_prime p \<Longrightarrow> p dvd a * b \<Longrightarrow> p dvd a \<or> p dvd b"
  using prime_coprime coprime_dvd_mult_right_iff by blast

lemma prime_dvd_choose:
  assumes "is_prime p" "0 < k" "k < p" shows "p dvd p choose k"
proof -
  have "k * (p choose k) = p * ((p - 1) choose (k - 1))"
    using assms by (intro times_binomial_minus1_eq) simp
  then have "p dvd k * (p choose k)" by simp
  moreover have "\<not> p dvd k" using assms by (auto dest: dvd_imp_le)
  ultimately show ?thesis using prime_dvd_mult [OF assms(1)] by blast
qed

lemma freshman_power: "is_prime p \<Longrightarrow> (a + 1) ^ p mod p = (a ^ p + 1) mod p"
proof -
  assume p: "is_prime p"
  let ?f = "\<lambda>k. of_nat (p choose k) * a ^ k * 1 ^ (p - k) :: nat"
  have p0: "0 < p" using p by (rule is_prime_pos)
  have "(a + 1) ^ p = (\<Sum>k \<le> p. ?f k)" by (rule binomial_ring)
  also have "\<dots> = (\<Sum>k \<in> {1..<p}. ?f k) + (?f 0 + ?f p)"
  proof -
    have "{..p} = insert 0 (insert p {1..<p})" using p0 by auto
    then show ?thesis using p0 by simp
  qed
  finally have e: "(a + 1) ^ p = (\<Sum>k \<in> {1..<p}. ?f k) + (a ^ p + 1)" by simp
  have "p dvd (\<Sum>k \<in> {1..<p}. ?f k)"
    by (rule dvd_sum) (use prime_dvd_choose [OF p] in auto)
  then obtain t where t: "(\<Sum>k \<in> {1..<p}. ?f k) = p * t" ..
  show ?thesis unfolding e t by (rule mod_mult_self4)
qed

lemma fermat: "is_prime p \<Longrightarrow> a ^ p mod p = a mod p"
proof (induction a)
  case 0
  then show ?case using is_prime_pos [of p] by (simp add: power_0_left)
next
  case (Suc a)
  have "(a + 1) ^ p mod p = (a ^ p + 1) mod p" by (rule freshman_power [OF Suc.prems])
  also have "\<dots> = (a ^ p mod p + 1) mod p" by (simp only: mod_add_left_eq)
  also have "\<dots> = (a + 1) mod p" using Suc by (simp only: mod_add_left_eq)
  finally show ?case by simp
qed

lemma fermat_unit:
  assumes "is_prime p" "\<not> p dvd a" shows "a ^ (p - 1) mod p = 1"
proof -
  have p: "1 < p" using assms(1) by (simp add: is_prime_def)
  have "a * a ^ (p - 1) = a ^ p" using p by (simp flip: power_Suc)
  then have "(a * a ^ (p - 1)) mod p = (a * 1) mod p" using fermat [OF assms(1), of a] by simp
  then have "int p dvd int (a * a ^ (p - 1)) - int (a * 1)"
    by (metis mod_eq_dvd_iff of_nat_mod)
  then have "int p dvd int a * (int (a ^ (p - 1)) - 1)" by (simp add: algebra_simps)
  moreover have "coprime (int p) (int a)"
    using prime_coprime [OF assms] by simp
  ultimately have "int p dvd int (a ^ (p - 1)) - int 1" by (simp add: coprime_dvd_mult_right_iff)
  then have "int (a ^ (p - 1)) mod int p = int 1 mod int p" by (simp only: mod_eq_dvd_iff)
  then show ?thesis using p by (metis mod_less of_nat_eq_iff of_nat_mod)
qed

lemma power_one_mod: "a mod p = 1 \<Longrightarrow> 1 < p \<Longrightarrow> a ^ k mod p = 1" for a p k :: nat
  by (metis mod_less power_mod power_one)

lemma fermat_exponent:
  assumes "is_prime p" "0 < k" "k mod (p - 1) = 1 mod (p - 1)" shows "a ^ k mod p = a mod p"
proof (cases "p dvd a")
  case True
  then have "p dvd a ^ k" using assms(2) by (rule dvd_trans [OF _ dvd_power [OF disjI1]])
  then show ?thesis using True by (simp only: dvd_eq_mod_eq_0)
next
  case False
  have p: "1 < p" using assms(1) by (simp add: is_prime_def)
  have "int k mod int (p - 1) = int 1 mod int (p - 1)" using assms(3) by (metis of_nat_mod)
  then have "int (p - 1) dvd int k - int 1" by (simp only: mod_eq_dvd_iff)
  moreover have "int k - int 1 = int (k - 1)" using assms(2) by simp
  ultimately have "p - 1 dvd k - 1" by (simp only: int_dvd_int_iff)
  then obtain j where j: "k - 1 = (p - 1) * j" ..
  then have "k = 1 + (p - 1) * j" using assms(2) by simp
  then have "a ^ k = a * (a ^ (p - 1)) ^ j" by (simp add: power_mult)
  then have "a ^ k mod p = a * ((a ^ (p - 1)) ^ j mod p) mod p" by (simp only: mod_mult_right_eq)
  then show ?thesis using power_one_mod [OF fermat_unit [OF assms(1) False] p] by simp
qed

lemma sqrt_one:
  assumes "is_prime p" "x < p" "x * x mod p = 1" shows "x = 1 \<or> x = p - 1"
proof -
  have p: "1 < p" using assms(1) by (simp add: is_prime_def)
  have x: "0 < x" using assms(3) by (cases x) auto
  have "int (x * x) mod int p = int 1 mod int p" using assms(3) p by (metis mod_less of_nat_mod)
  then have "int p dvd int (x * x) - int 1" by (simp only: mod_eq_dvd_iff)
  moreover have "int (x * x) - int 1 = int ((x - 1) * (x + 1))"
    using x by (simp add: algebra_simps of_nat_diff)
  ultimately have "p dvd (x - 1) * (x + 1)" by (simp only: int_dvd_int_iff)
  then have "p dvd x - 1 \<or> p dvd x + 1" by (rule prime_dvd_mult [OF assms(1)])
  then show ?thesis
  proof
    assume "p dvd x - 1"
    then have "x - 1 = 0" using assms(2) by (auto dest: dvd_imp_le)
    then show ?thesis using x by simp
  next
    assume "p dvd x + 1"
    then have "p \<le> x + 1" by (simp add: dvd_imp_le)
    then show ?thesis using assms(2) by linarith
  qed
qed

lemma residues_two_primes:
  assumes "is_prime p" "is_prime q" "p \<noteq> q" "x < p * q" "y < p * q"
    and "x mod p = y mod p" "x mod q = y mod q"
  shows "x = y"
proof -
  have "\<not> p dvd q" using assms(1-3) by (auto simp: is_prime_def)
  then have c: "coprime (int p) (int q)" using prime_coprime [OF assms(1)] by simp
  have "int p dvd int x - int y" "int q dvd int x - int y"
    using assms(6,7) by (metis mod_eq_dvd_iff of_nat_mod)+
  then have "int p * int q dvd int x - int y" using c by (rule divides_mult)
  moreover have "\<bar>int x - int y\<bar> < int p * int q"
    using assms(4,5) by (simp add: abs_less_iff flip: of_nat_mult)
  moreover have "\<bar>int p * int q\<bar> = int p * int q" by simp
  ultimately have "int x - int y = 0" using dvd_imp_le_int [of "int x - int y" "int p * int q"] by linarith
  then show ?thesis by simp
qed

text \<open>Trial division up to the square root, for concrete numbers.\<close>

lemma is_prime_trial:
  assumes "1 < p" "p < (k + 1) * (k + 1)" "\<forall>d \<in> {2..k}. \<not> d dvd p"
  shows "is_prime p"
  unfolding is_prime_def
proof (intro conjI allI impI)
  fix d assume d: "d dvd p"
  then obtain e where e: "p = d * e" ..
  have ndvd: "\<not> 2 \<le> x \<or> \<not> x \<le> k" if "x dvd p" for x using assms(3) that by auto
  show "d = 1 \<or> d = p"
  proof (rule ccontr)
    assume n: "\<not> (d = 1 \<or> d = p)"
    have "d \<noteq> 0" "e \<noteq> 0" using e assms(1) by (auto intro: gr0I)
    moreover have "d \<noteq> 1" "e \<noteq> 1" using e n by auto
    ultimately have "2 \<le> d" "2 \<le> e" by linarith+
    moreover have "e dvd p" using e by simp
    ultimately have "k + 1 \<le> d" "k + 1 \<le> e" using ndvd [OF d] ndvd [of e] by auto
    then have "(k + 1) * (k + 1) \<le> p" unfolding e by (rule mult_le_mono)
    then show False using assms(2) by simp
  qed
qed (rule assms(1))

lemma prime_divisor: "1 < n \<Longrightarrow> \<exists>p. is_prime p \<and> p dvd n"
proof (induction n rule: less_induct)
  case (less n)
  show ?case
  proof (cases "is_prime n")
    case False
    then obtain d where d: "d dvd n" "d \<noteq> 1" "d \<noteq> n" using less.prems by (auto simp: is_prime_def)
    then have "1 < d" "d < n" using less.prems by (auto dest: dvd_imp_le intro: Suc_lessI simp: dvd_pos_nat)
    then show ?thesis using less.IH [of d] d(1) dvd_trans by blast
  qed auto
qed

lemma prime_above: "\<exists>p. is_prime p \<and> n < p"
proof -
  have "1 < fact n + (1 :: nat)" by simp
  then obtain p where p: "is_prime p" "p dvd fact n + (1 :: nat)" using prime_divisor by blast
  have "n < p"
  proof (rule ccontr)
    assume "\<not> n < p"
    then have "p dvd (fact n :: nat)" using is_prime_pos [OF p(1)] by (intro dvd_fact) simp_all
    then have "p dvd 1" using p(2) by (metis dvd_add_right_iff)
    then show False using p(1) by (simp add: is_prime_def)
  qed
  with p(1) show ?thesis by blast
qed

end
