(* ===== verification/Rsa.thy ===== *)
theory Rsa
  imports Mod_Arith Prime_Facts
begin

text \<open>
  RSA of \<open>crypto/rsa.rs\<close>: key generation with the Miller-Rabin test, encryption with
  PKCS#1 v1.5 padding, decryption by the Chinese remainder theorem, and PKCS#1 v1.5
  signatures. The random generator is a function \<open>fill\<close> from its state and a buffer to
  the success flag, the filled buffer and the next state. A function with an unbounded
  loop returns an option, \<open>None\<close> standing for not returning.
\<close>

type_synonym 'g random_fill = "'g \<Rightarrow> u8 list \<Rightarrow> bool \<times> u8 list \<times> 'g"

section \<open>Keys\<close>

record rsa_public_key =
  pub_n :: biguint
  pub_e :: biguint

record rsa_private_key =
  key_n :: biguint
  key_e :: biguint
  key_d :: biguint
  key_p :: biguint
  key_q :: biguint
  key_dp :: biguint
  key_dq :: biguint
  key_qi :: biguint

definition public_key :: "rsa_private_key \<Rightarrow> rsa_public_key" where
  "public_key k = \<lparr>pub_n = key_n k, pub_e = key_e k\<rparr>"

section \<open>Primality\<close>

definition generate_witness :: "'g random_fill \<Rightarrow> biguint \<Rightarrow> 'g \<Rightarrow> biguint \<times> 'g" where
  "generate_witness fill n g =
     (case fill g (replicate (byte_len n) 0) of (_, data, g1) \<Rightarrow> (mod_op (from_bytes data) n, g1))"

partial_function (option) halve_loop :: "biguint \<Rightarrow> nat \<Rightarrow> (biguint \<times> nat) option" where
  "halve_loop d r = (if limbs d ! 0 AND 1 = 0 then halve_loop (big_shr d 1) (r + 1) else Some (d, r))"

declare halve_loop.simps [code]

text \<open>The squarings of one round: whether \<open>n - 1\<close> shows up.\<close>

primrec square_loop :: "biguint \<Rightarrow> biguint \<Rightarrow> biguint \<Rightarrow> nat \<Rightarrow> bool" where
  "square_loop n n_minus_1 x 0 = False"
| "square_loop n n_minus_1 x (Suc k) =
     (let x1 = mod_op (big_mul x x) n
      in if big_cmp x1 n_minus_1 = 0 then True else square_loop n n_minus_1 x1 k)"

primrec witness_rounds ::
  "'g random_fill \<Rightarrow> biguint \<Rightarrow> biguint \<Rightarrow> biguint \<Rightarrow> nat \<Rightarrow> nat \<Rightarrow> 'g \<Rightarrow> bool \<times> 'g" where
  "witness_rounds fill n n_minus_1 d r 0 g = (True, g)"
| "witness_rounds fill n n_minus_1 d r (Suc k) g =
     (let (a, g1) = generate_witness fill n g;
          x = mod_exp a d n
      in if big_cmp x (big_from 1) = 0 \<or> big_cmp x n_minus_1 = 0 then witness_rounds fill n n_minus_1 d r k g1
         else if square_loop n n_minus_1 x (r - 1) then witness_rounds fill n n_minus_1 d r k g1
         else (False, g1))"

definition is_probably_prime :: "'g random_fill \<Rightarrow> biguint \<Rightarrow> nat \<Rightarrow> 'g \<Rightarrow> (bool \<times> 'g) option" where
  "is_probably_prime fill n rounds g =
     (if big_cmp n (big_from 2) < 0 then Some (False, g)
      else if big_cmp n (big_from 2) = 0 \<or> big_cmp n (big_from 3) = 0 then Some (True, g)
      else if limbs n ! 0 AND 1 = 0 then Some (False, g)
      else let n_minus_1 = big_sub n (big_from 1)
           in case halve_loop n_minus_1 0 of
                None \<Rightarrow> None
              | Some (d, r) \<Rightarrow> Some (witness_rounds fill n n_minus_1 d r rounds g))"

definition generate_random_odd :: "'g random_fill \<Rightarrow> nat \<Rightarrow> 'g \<Rightarrow> biguint \<times> 'g" where
  "generate_random_odd fill bits g =
     (if bits = 0 then (big_from 0, g)
      else let bytes = (bits + 7) div 8
           in case fill g (replicate bytes 0) of (_, data, g1) \<Rightarrow>
                (from_bytes (let data1 = data[0 := data ! 0 OR 0xC0]
                   in data1[bytes - 1 := data1 ! (bytes - 1) OR 0x01]), g1))"

partial_function (option) prime_search :: "'g random_fill \<Rightarrow> nat \<Rightarrow> 'g \<Rightarrow> (biguint \<times> 'g) option" where
  "prime_search fill bits g =
     (case generate_random_odd fill bits g of (candidate, g1) \<Rightarrow>
        case is_probably_prime fill candidate 20 g1 of
          None \<Rightarrow> None
        | Some (prime, g2) \<Rightarrow> if prime then Some (candidate, g2) else prime_search fill bits g2)"

declare prime_search.simps [code]

definition generate_prime :: "'g random_fill \<Rightarrow> nat \<Rightarrow> 'g \<Rightarrow> (biguint option \<times> 'g) option" where
  "generate_prime fill bits g =
     (if bits = 0 \<or> 2048 < bits then Some (None, g)
      else map_option (\<lambda>(p, g1). (Some p, g1)) (prime_search fill bits g))"

definition key_of_primes :: "biguint \<Rightarrow> biguint \<Rightarrow> rsa_private_key option" where
  "key_of_primes p q =
     (let e = big_from 65537;
          n = big_mul p q;
          p_minus_1 = big_sub p (big_from 1);
          q_minus_1 = big_sub q (big_from 1);
          phi = big_mul p_minus_1 q_minus_1
      in case mod_inverse e phi of
           None \<Rightarrow> None
         | Some d \<Rightarrow> (case mod_inverse q p of
             None \<Rightarrow> None
           | Some qi \<Rightarrow> Some \<lparr>key_n = n, key_e = e, key_d = d, key_p = p, key_q = q,
               key_dp = mod_op d p_minus_1, key_dq = mod_op d q_minus_1, key_qi = qi\<rparr>))"

definition generate :: "'g random_fill \<Rightarrow> nat \<Rightarrow> 'g \<Rightarrow> (rsa_private_key option \<times> 'g) option" where
  "generate fill bits g =
     (if \<not> (512 \<le> bits \<and> bits \<le> 4096) \<or> bits mod 2 \<noteq> 0 then Some (None, g)
      else case generate_prime fill (bits div 2) g of
        None \<Rightarrow> None
      | Some (None, g1) \<Rightarrow> Some (None, g1)
      | Some (Some p, g1) \<Rightarrow> (case generate_prime fill (bits div 2) g1 of
          None \<Rightarrow> None
        | Some (None, g2) \<Rightarrow> Some (None, g2)
        | Some (Some q, g2) \<Rightarrow> map_option (\<lambda>k. (Some k, g2)) (key_of_primes p q)))"

section \<open>Encryption\<close>

partial_function (option) nonzero_byte :: "'g random_fill \<Rightarrow> u8 \<Rightarrow> 'g \<Rightarrow> (u8 \<times> 'g) option" where
  "nonzero_byte fill byte g =
     (if byte \<noteq> 0 then Some (byte, g)
      else case fill g [byte] of (_, buf, g1) \<Rightarrow> nonzero_byte fill (buf ! 0) g1)"

declare nonzero_byte.simps [code]

primrec padding_bytes :: "'g random_fill \<Rightarrow> nat \<Rightarrow> 'g \<Rightarrow> (u8 list \<times> 'g) option" where
  "padding_bytes fill 0 g = Some ([], g)"
| "padding_bytes fill (Suc n) g =
     (case nonzero_byte fill 0 g of
        None \<Rightarrow> None
      | Some (byte, g1) \<Rightarrow> map_option (\<lambda>(bs, g2). (byte # bs, g2)) (padding_bytes fill n g1))"

definition pkcs1v15_encrypt_pad :: "'g random_fill \<Rightarrow> u8 list \<Rightarrow> nat \<Rightarrow> 'g \<Rightarrow> (u8 list \<times> 'g) option" where
  "pkcs1v15_encrypt_pad fill data key_len g =
     (if key_len < length data \<or> key_len - length data < 3 then Some ([], g)
      else map_option (\<lambda>(ps, g1). ([0x00, 0x02] @ ps @ [0x00] @ data, g1))
        (padding_bytes fill (key_len - length data - 3) g))"

definition rsa_encrypt :: "'g random_fill \<Rightarrow> rsa_public_key \<Rightarrow> u8 list \<Rightarrow> 'g \<Rightarrow> (u8 list \<times> 'g) option" where
  "rsa_encrypt fill k plaintext g =
     map_option (\<lambda>(padded, g1). (to_bytes (mod_exp (from_bytes padded) (pub_e k) (pub_n k)), g1))
       (pkcs1v15_encrypt_pad fill plaintext (byte_len (pub_n k)) g)"

definition pkcs1v15_unpad :: "u8 list \<Rightarrow> u8 list" where
  "pkcs1v15_unpad recovered =
     (if length recovered < 2 \<or> recovered ! 0 \<noteq> 0x02 then []
      else let tail = drop 1 recovered;
               ps = takeWhile (\<lambda>byte. byte \<noteq> 0x00) tail
           in if length ps < length tail then drop (2 + length ps) recovered else [])"

definition crt_combine :: "rsa_private_key \<Rightarrow> biguint \<Rightarrow> biguint" where
  "crt_combine k c =
     (let m1 = mod_exp c (key_dp k) (key_p k);
          m2 = mod_exp c (key_dq k) (key_q k);
          h = (if big_cmp m1 m2 \<ge> 0 then mod_op (big_mul (key_qi k) (big_sub m1 m2)) (key_p k)
               else let diff = big_sub (key_p k) (mod_op (big_sub m2 m1) (key_p k))
                    in mod_op (big_mul (key_qi k) diff) (key_p k))
      in big_add m2 (big_mul h (key_q k)))"

definition rsa_decrypt :: "rsa_private_key \<Rightarrow> u8 list \<Rightarrow> u8 list" where
  "rsa_decrypt k ciphertext = pkcs1v15_unpad (to_bytes (crt_combine k (from_bytes ciphertext)))"

section \<open>Signatures\<close>

text \<open>
  The prefixes, written by their ASN.1 parts: the headers of the outer sequence and of the
  algorithm, the object identifier, the null parameter and the header of the octet string.
\<close>

definition digest_info_prefix :: "u8 list \<Rightarrow> u8 list" where
  "digest_info_prefix digest =
     (if length digest = 20 then
        [0x30, 0x21] @ [0x30, 0x09] @ [0x06, 0x05, 0x2b, 0x0e, 0x03, 0x02, 0x1a] @ [0x05, 0x00] @ [0x04, 0x14]
      else if length digest = 32 then
        [0x30, 0x31] @ [0x30, 0x0d] @ [0x06, 0x09, 0x60, 0x86, 0x48, 0x01, 0x65, 0x03, 0x04, 0x02, 0x01] @ [0x05, 0x00] @ [0x04, 0x20]
      else if length digest = 48 then
        [0x30, 0x41] @ [0x30, 0x0d] @ [0x06, 0x09, 0x60, 0x86, 0x48, 0x01, 0x65, 0x03, 0x04, 0x02, 0x02] @ [0x05, 0x00] @ [0x04, 0x30]
      else if length digest = 64 then
        [0x30, 0x51] @ [0x30, 0x0d] @ [0x06, 0x09, 0x60, 0x86, 0x48, 0x01, 0x65, 0x03, 0x04, 0x02, 0x03] @ [0x05, 0x00] @ [0x04, 0x40]
      else [])"

definition pkcs1v15_sign_pad :: "u8 list \<Rightarrow> nat \<Rightarrow> string + u8 list" where
  "pkcs1v15_sign_pad digest key_len =
     (let digest_info = digest_info_prefix digest
      in if digest_info = [] then Inl ''unsupported digest length''
         else if key_len < length digest_info + length digest + 3
         then Inl ''RSA modulus is too small for digest''
         else Inr ([0x00, 0x01] @ replicate (key_len - length digest_info - length digest - 3) 0xff
                   @ [0x00] @ digest_info @ digest))"

definition to_bytes_padded :: "biguint \<Rightarrow> nat \<Rightarrow> u8 list" where
  "to_bytes_padded value len = (let raw = to_bytes value in replicate (len - length raw) 0 @ raw)"

definition sign_pkcs1v15 :: "rsa_private_key \<Rightarrow> u8 list \<Rightarrow> string + u8 list" where
  "sign_pkcs1v15 k digest =
     (case pkcs1v15_sign_pad digest (byte_len (key_n k)) of
        Inl e \<Rightarrow> Inl e
      | Inr padded \<Rightarrow> Inr (to_bytes_padded (mod_exp (from_bytes padded) (key_d k) (key_n k)) (byte_len (key_n k))))"

definition pkcs1v15_verify_pad :: "u8 list \<Rightarrow> u8 list \<Rightarrow> bool" where
  "pkcs1v15_verify_pad recovered digest =
     (if length recovered < length digest + 10 then False
      else if recovered ! 0 \<noteq> 0x01 then False
      else let i = 1 + length (takeWhile (\<lambda>byte. byte = 0xff) (drop 1 recovered))
           in if length recovered \<le> i \<or> recovered ! i \<noteq> 0x00 then False
              else let digest_info = digest_info_prefix digest;
                       t = drop (i + 1) recovered
                   in take (length digest_info) t = digest_info \<and> drop (length digest_info) t = digest)"

definition verify_pkcs1v15 :: "rsa_public_key \<Rightarrow> u8 list \<Rightarrow> u8 list \<Rightarrow> bool" where
  "verify_pkcs1v15 k digest signature =
     pkcs1v15_verify_pad (to_bytes (mod_exp (from_bytes signature) (pub_e k) (pub_n k))) digest"

section \<open>Well-formed keys\<close>

definition rsa_key_ok :: "rsa_private_key \<Rightarrow> bool" where
  "rsa_key_ok k \<longleftrightarrow>
     bnorm (key_n k) \<and> bnorm (key_e k) \<and> bnorm (key_d k) \<and> bnorm (key_p k) \<and> bnorm (key_q k)
     \<and> bnorm (key_dp k) \<and> bnorm (key_dq k) \<and> bnorm (key_qi k)
     \<and> is_prime (bval (key_p k)) \<and> is_prime (bval (key_q k)) \<and> 2 < bval (key_p k) \<and> 2 < bval (key_q k)
     \<and> bval (key_p k) \<noteq> bval (key_q k) \<and> bval (key_n k) = bval (key_p k) * bval (key_q k)
     \<and> bval (key_e k) * bval (key_d k) mod ((bval (key_p k) - 1) * (bval (key_q k) - 1)) = 1
     \<and> bval (key_dp k) = bval (key_d k) mod (bval (key_p k) - 1)
     \<and> bval (key_dq k) = bval (key_d k) mod (bval (key_q k) - 1)
     \<and> bval (key_qi k) * bval (key_q k) mod bval (key_p k) = 1"

section \<open>Decryption inverts encryption\<close>

lemma exponent_mod_prime:
  fixes e d p t :: nat
  assumes "is_prime p" "2 < p" "e * d mod ((p - 1) * t) = 1"
  shows "(x ^ e) ^ (d mod (p - 1)) mod p = x mod p" "(x ^ e) ^ d mod p = x mod p"
proof -
  have "e * d mod (p - 1) = e * d mod ((p - 1) * t) mod (p - 1)" by (simp add: mod_mult2_eq)
  then have ed: "e * d mod (p - 1) = 1" using assms(2,3) by simp
  then have edp: "e * (d mod (p - 1)) mod (p - 1) = 1" by (simp add: mod_mult_right_eq)
  have one: "1 mod (p - 1) = 1" using assms(2) by simp
  have pos: "0 < e * d" "0 < e * (d mod (p - 1))"
    using ed edp by (auto intro!: gr0I simp del: mult_eq_0_iff)
  show "(x ^ e) ^ (d mod (p - 1)) mod p = x mod p"
    using fermat_exponent [OF assms(1) pos(2)] edp one by (simp add: power_mult)
  show "(x ^ e) ^ d mod p = x mod p"
    using fermat_exponent [OF assms(1) pos(1)] ed one by (simp add: power_mult)
qed

lemma add_mult_mod_cong: "x mod p = y mod p \<Longrightarrow> (a + x * b) mod p = (a + y * b) mod p" for a b x y p :: int
  by (rule mod_add_cong [OF refl mod_mult_cong [OF _ refl]])

lemma crt_value:
  fixes p q qi m1 m2 h m :: nat
  assumes "is_prime p" "is_prime q" "p \<noteq> q" "qi * q mod p = 1" "m < p * q" "m1 = m mod p" "m2 = m mod q" "h < p"
    and "int h mod int p = int qi * (int m1 - int m2) mod int p"
  shows "m2 + h * q = m"
proof (rule residues_two_primes [OF assms(1-3)])
  have pos: "0 < p" "0 < q" using assms(1,2) by (simp_all add: is_prime_pos)
  have "h * q + q \<le> p * q" using assms(8) by (metis Suc_leI mult_Suc mult_le_mono1 add.commute)
  moreover have "m2 < q" using assms(7) pos by simp
  ultimately show "m2 + h * q < p * q" by simp
  show "m < p * q" by (rule assms(5))
  show "(m2 + h * q) mod q = m mod q" using assms(7) by simp
  have "(int m2 + int h * int q) mod int p = (int m2 + (int qi * (int m1 - int m2)) * int q) mod int p"
    using add_mult_mod_cong [OF assms(9)] .
  also have "(int qi * (int m1 - int m2)) * int q = (int qi * int q) * (int m1 - int m2)" by simp
  also have "(int m2 + (int qi * int q) * (int m1 - int m2)) mod int p
      = (int m2 + (int qi * int q mod int p) * (int m1 - int m2)) mod int p"
    by (rule add_mult_mod_cong) simp
  also have "int qi * int q mod int p = 1" using assms(4) by (metis of_nat_1 of_nat_mod of_nat_mult)
  finally have "int ((m2 + h * q) mod p) = int (m1 mod p)" by (simp add: zmod_int)
  then show "(m2 + h * q) mod p = m mod p" using assms(6) by simp
qed

lemma crt_combine_val:
  assumes k: "rsa_key_ok k" and m: "m < bval (key_n k)" and c: "bval c = m ^ bval (key_e k) mod bval (key_n k)"
  shows "bval (crt_combine k c) = m" "bnorm (crt_combine k c)"
proof -
  let ?p = "bval (key_p k)" and ?q = "bval (key_q k)"
  note K = k [unfolded rsa_key_ok_def]
  let ?m1 = "mod_exp c (key_dp k) (key_p k)" and ?m2 = "mod_exp c (key_dq k) (key_q k)"
  have pr: "is_prime ?p" "is_prime ?q" "2 < ?p" "2 < ?q"
    and ed: "bval (key_e k) * bval (key_d k) mod ((?p - 1) * (?q - 1)) = 1" using K by blast+
  have big: "1 < ?p" "1 < ?q" "0 < ?p" "0 < ?q" using K by linarith+
  have n: "bnorm ?m1" "bnorm ?m2" using K mod_exp_val(2) big by blast+
  have cp: "bval c mod ?p = m ^ bval (key_e k) mod ?p" "bval c mod ?q = m ^ bval (key_e k) mod ?q"
    using K c by (simp_all add: mod_mod_cancel)
  have m1: "bval ?m1 = m mod ?p"
  proof -
    have "bval ?m1 = (bval c mod ?p) ^ bval (key_dp k) mod ?p"
      using K mod_exp_val(1) [of "key_p k" c "key_dp k"] big by (simp add: power_mod)
    also have "\<dots> = (m ^ bval (key_e k)) ^ (bval (key_d k) mod (?p - 1)) mod ?p"
      unfolding cp using K by (simp add: power_mod)
    also have "\<dots> = m mod ?p" by (rule exponent_mod_prime(1) [OF pr(1,3) ed])
    finally show ?thesis .
  qed
  have m2: "bval ?m2 = m mod ?q"
  proof -
    have "bval ?m2 = (bval c mod ?q) ^ bval (key_dq k) mod ?q"
      using K mod_exp_val(1) [of "key_q k" c "key_dq k"] big by (simp add: power_mod)
    also have "\<dots> = (m ^ bval (key_e k)) ^ (bval (key_d k) mod (?q - 1)) mod ?q"
      unfolding cp using K by (simp add: power_mod)
    also have "\<dots> = m mod ?q" by (rule exponent_mod_prime(1) [OF pr(2,4) ed [unfolded mult.commute [of "?p - 1"]]])
    finally show ?thesis .
  qed
  show "bnorm (crt_combine k c)" by (simp add: crt_combine_def Let_def)
  define h where "h = (if big_cmp ?m1 ?m2 \<ge> 0 then mod_op (big_mul (key_qi k) (big_sub ?m1 ?m2)) (key_p k)
     else mod_op (big_mul (key_qi k) (big_sub (key_p k) (mod_op (big_sub ?m2 ?m1) (key_p k)))) (key_p k))"
  note dv = div_rem_val(2) [of "key_p k"]
  have hp: "bval h < ?p" using K dv big by (simp add: h_def)
  have hm: "int (bval h) mod int ?p = int (bval (key_qi k)) * (int (bval ?m1) - int (bval ?m2)) mod int ?p"
  proof (cases "bval ?m2 \<le> bval ?m1")
    case True
    then have "bval h = bval (key_qi k) * (bval ?m1 - bval ?m2) mod ?p"
      using K dv big big_cmp_cases(1) [OF n] by (simp add: h_def)
    then show ?thesis using True by (simp add: zmod_int of_nat_diff)
  next
    case False
    let ?w = "bval ?m2 - bval ?m1"
    have "?w mod ?p \<le> ?p" using big by (simp add: order_less_imp_le)
    then have hv: "bval h = bval (key_qi k) * (?p - ?w mod ?p) mod ?p"
      and d: "int (?p - ?w mod ?p) = int ?p - int ?w mod int ?p"
      using False K dv big big_cmp_cases(1) [OF n] by (simp_all only: of_nat_diff of_nat_mod) (simp add: h_def)
    have "int (bval h) mod int ?p = int (bval (key_qi k)) * ((int ?p - int ?w mod int ?p) mod int ?p) mod int ?p"
      unfolding hv by (simp only: of_nat_mod of_nat_mult d mod_mod_trivial mod_mult_right_eq)
    also have "\<dots> = int (bval (key_qi k)) * (- int ?w) mod int ?p"
      unfolding negate_mod by (rule mod_mult_right_eq)
    also have "- int ?w = int (bval ?m1) - int (bval ?m2)" using False by (simp add: of_nat_diff)
    finally show ?thesis .
  qed
  have "bval (crt_combine k c) = bval ?m2 + bval h * ?q"
    by (simp add: crt_combine_def Let_def h_def)
  also have "\<dots> = m"
    using K m by (intro crt_value [OF _ _ _ _ _ m1 m2 hp hm]) simp_all
  finally show "bval (crt_combine k c) = m" .
qed

end
