(* ===== verification/Rsa_Laws.thy ===== *)
theory Rsa_Laws
  imports Rsa
begin

text \<open>
  RSA of \<open>crypto/rsa.rs\<close> as a whole: what the padding loops produce and when they
  return, encryption followed by decryption, signing followed by verification, the
  acceptance of primes by the Miller-Rabin test, and the keys that generation builds.
\<close>

section \<open>Padding\<close>

text \<open>
  The byte of the \<open>k\<close>-th request from a state on; a generator is lively when from every
  state some request yields a byte other than zero.
\<close>

primrec requested_byte :: "'g random_fill \<Rightarrow> nat \<Rightarrow> 'g \<Rightarrow> u8" where
  "requested_byte fill 0 g = (case fill g [0] of (_, buf, _) \<Rightarrow> buf ! 0)"
| "requested_byte fill (Suc k) g = (case fill g [0] of (_, _, g1) \<Rightarrow> requested_byte fill k g1)"

definition lively :: "'g random_fill \<Rightarrow> bool" where
  "lively fill \<longleftrightarrow> (\<forall>g. \<exists>k. requested_byte fill k g \<noteq> 0)"

lemma nonzero_byte_done: "byte \<noteq> 0 \<Longrightarrow> nonzero_byte fill byte g = Some (byte, g)"
  by (subst nonzero_byte.simps) simp

lemma nonzero_byte_step: "fill g [0] = (ok, buf, g1) \<Longrightarrow> nonzero_byte fill 0 g = nonzero_byte fill (buf ! 0) g1"
  by (subst nonzero_byte.simps) simp

lemma nonzero_byte_returns:
  "requested_byte fill k g \<noteq> 0 \<Longrightarrow> \<exists>b g1. nonzero_byte fill 0 g = Some (b, g1)"
proof (induction k arbitrary: g)
  case 0
  obtain ok buf g1 where f: "fill g [0] = (ok, buf, g1)" by (metis prod_cases3)
  have "buf ! 0 \<noteq> 0" using 0 f by simp
  then show ?case using nonzero_byte_done [of "buf ! 0" fill g1] nonzero_byte_step [of fill g ok buf g1, OF f] by simp
next
  case (Suc k)
  obtain ok buf g1 where f: "fill g [0] = (ok, buf, g1)" by (metis prod_cases3)
  show ?case
  proof (cases "buf ! 0 = 0")
    case True
    then show ?thesis using Suc f nonzero_byte_step [of fill g ok buf g1, OF f] by simp
  next
    case False
    then show ?thesis using nonzero_byte_done [of "buf ! 0" fill g1] nonzero_byte_step [of fill g ok buf g1, OF f] by simp
  qed
qed

lemma nonzero_byte_value: "nonzero_byte fill byte g = Some r \<Longrightarrow> fst r \<noteq> 0"
  by (rule nonzero_byte.raw_induct [where P = "\<lambda>fill byte g r. fst r \<noteq> 0"])
    (auto split: if_splits prod.splits)

lemma padding_bytes_value:
  "padding_bytes fill n g = Some (ps, g1) \<Longrightarrow> length ps = n \<and> 0 \<notin> set ps"
proof (induction n arbitrary: g ps)
  case (Suc n)
  then show ?case
    using nonzero_byte_value by (fastforce split: option.splits)
qed simp

lemma padding_bytes_returns: "lively fill \<Longrightarrow> \<exists>ps g1. padding_bytes fill n g = Some (ps, g1)"
proof (induction n arbitrary: g)
  case (Suc n)
  obtain b g1 where b: "nonzero_byte fill 0 g = Some (b, g1)"
    using nonzero_byte_returns Suc.prems unfolding lively_def by metis
  obtain ps g2 where "padding_bytes fill n g1 = Some (ps, g2)" using Suc by blast
  with b show ?case by simp
qed simp

lemma unpad_padded:
  assumes "0 \<notin> set ps" shows "pkcs1v15_unpad ([0x02] @ ps @ [0x00] @ data) = data"
proof -
  have "takeWhile (\<lambda>byte. byte \<noteq> 0) (ps @ 0 # data) = ps"
    using assms by (subst takeWhile_append2) auto
  then show ?thesis by (simp add: pkcs1v15_unpad_def Let_def)
qed

section \<open>Encryption and decryption\<close>

lemma bnorm_ne: "bnorm b \<Longrightarrow> limbs b \<noteq> []"
  by (simp add: big_norm_def)

lemma key_bounds:
  assumes "rsa_key_ok k"
  shows "1 < bval (key_n k)" "bnorm (key_n k)" "256 ^ (byte_len (key_n k) - 1) \<le> bval (key_n k)"
proof -
  note K = assms [unfolded rsa_key_ok_def]
  have "2 * 2 \<le> bval (key_p k) * bval (key_q k)" using K by (intro mult_le_mono) simp_all
  then show "1 < bval (key_n k)" using K by simp
  then show "256 ^ (byte_len (key_n k) - 1) \<le> bval (key_n k)" "bnorm (key_n k)"
    using K byte_len_lower [of "key_n k"] by auto
qed

lemma padded_below:
  assumes "rsa_key_ok k" "length bs = byte_len (key_n k) - 1"
  shows "be_nat (0 # bs) < bval (key_n k)"
  using be_nat_less [of bs] key_bounds(3) [OF assms(1)] assms(2) by (simp add: be_nat_Cons)

lemma be_nat_zero_Cons [simp]: "be_nat (0 # bs) = be_nat bs"
  by (simp add: be_nat_Cons)

lemma rsa_round_trip:
  assumes k: "rsa_key_ok k" and l: "length data + 3 \<le> byte_len (key_n k)"
    and e: "rsa_encrypt fill (public_key k) data g = Some (ct, g1)"
  shows "rsa_decrypt k ct = data"
proof -
  have fits: "\<not> (byte_len (key_n k) < length data \<or> byte_len (key_n k) - length data < 3)"
    using l by linarith
  obtain ps g2 where ps: "padding_bytes fill (byte_len (key_n k) - length data - 3) g = Some (ps, g2)"
    and ct: "ct = to_bytes (mod_exp (from_bytes ([0x00, 0x02] @ ps @ [0x00] @ data)) (key_e k) (key_n k))"
    using e unfolding rsa_encrypt_def pkcs1v15_encrypt_pad_def public_key_def
    by (auto simp: fits)
  let ?m = "[0x02] @ ps @ [0x00] @ data"
  have p: "length ps = byte_len (key_n k) - length data - 3" "0 \<notin> set ps"
    using padding_bytes_value [OF ps] by simp_all
  have "length ?m = byte_len (key_n k) - 1" using p l by simp
  then have m: "be_nat ?m < bval (key_n k)"
    using padded_below [OF k, of ?m] by simp
  have "bval (mod_exp (from_bytes (0 # ?m)) (key_e k) (key_n k)) = be_nat ?m ^ bval (key_e k) mod bval (key_n k)"
    using mod_exp_val(1) [OF key_bounds(2,1) [OF k]] by simp
  then have "bval (from_bytes ct) = be_nat ?m ^ bval (key_e k) mod bval (key_n k)"
    unfolding ct by simp
  then have "bval (crt_combine k (from_bytes ct)) = be_nat ?m" "bnorm (crt_combine k (from_bytes ct))"
    using crt_combine_val [OF k m] by simp_all
  then have "to_bytes (crt_combine k (from_bytes ct)) = ?m"
    by (intro to_bytes_from_bytes) (simp_all add: be_min_def bnorm_ne)
  then show ?thesis using unpad_padded [OF p(2)] by (simp only: rsa_decrypt_def)
qed

lemma rsa_encrypt_returns: "lively fill \<Longrightarrow> \<exists>ct g1. rsa_encrypt fill k data g = Some (ct, g1)"
  using padding_bytes_returns by (fastforce simp: rsa_encrypt_def pkcs1v15_encrypt_pad_def)

text \<open>A plaintext that does not fit is replaced by the empty one without an error.\<close>

lemma rsa_encrypt_oversized:
  assumes "rsa_key_ok k" "byte_len (key_n k) < length data + 3"
  shows "rsa_encrypt fill (public_key k) data g = Some ([0], g)" "rsa_decrypt k [0] = []"
proof -
  note K = assms(1) [unfolded rsa_key_ok_def]
  have e: "0 < bval (key_e k)" using K by (auto intro!: gr0I)
  have z: "bval (mod_exp (from_bytes []) (key_e k) (key_n k)) = 0"
    using mod_exp_val(1) [OF key_bounds(2,1) [OF assms(1)]] e by (simp add: power_0_left)
  have "to_bytes (mod_exp (from_bytes []) (key_e k) (key_n k)) = [0]"
    using z mod_exp_val(2) [OF key_bounds(2,1) [OF assms(1)]]
    by (intro to_bytes_from_bytes) (simp_all add: be_min_def bnorm_ne be_nat_Cons)
  then show "rsa_encrypt fill (public_key k) data g = Some ([0], g)"
    using assms(2) by (auto simp: rsa_encrypt_def pkcs1v15_encrypt_pad_def public_key_def)
  have "bval (from_bytes [0]) = 0 ^ bval (key_e k) mod bval (key_n k)"
    using e by (simp add: be_nat_Cons power_0_left)
  then have "bval (crt_combine k (from_bytes [0])) = 0" "bnorm (crt_combine k (from_bytes [0]))"
    using crt_combine_val [OF assms(1), of 0] key_bounds(1) [OF assms(1)] by simp_all
  then have "to_bytes (crt_combine k (from_bytes [0])) = [0]"
    by (intro to_bytes_from_bytes) (simp_all add: be_min_def bnorm_ne be_nat_Cons)
  then show "rsa_decrypt k [0] = []" by (simp add: rsa_decrypt_def pkcs1v15_unpad_def)
qed

section \<open>Signatures\<close>

lemma byte_len_upper: "bnorm b \<Longrightarrow> bval b < 256 ^ byte_len b"
proof -
  assume n: "bnorm b"
  then have b: "limbs b = butlast (limbs b) @ [last (limbs b)]" by (simp add: big_norm_def)
  let ?w = "last (limbs b)" and ?k = "length (limbs b) - 1"
  define lb where "lb = (if ?w = 0 then 1 else (64 - leading_zeros ?w + 7) div 8)"
  have l: "byte_len b = ?k * 8 + lb"
    using n by (simp add: byte_len_def big_norm_def last_conv_nth Let_def lb_def)
  have "unat ?w < 2 ^ (8 * lb)"
  proof (cases "?w = 0")
    case False
    have "64 - leading_zeros ?w \<le> 8 * lb" using False by (simp add: lb_def)
    then have "(2 :: nat) ^ (64 - leading_zeros ?w) \<le> 2 ^ (8 * lb)" by (intro power_increasing) simp_all
    then show ?thesis using leading_zeros_bound [of ?w] by linarith
  qed simp
  then have "B64 ^ ?k * (unat ?w + 1) \<le> B64 ^ ?k * 2 ^ (8 * lb)" by (intro mult_le_mono2) simp
  then have "B64 ^ ?k * unat ?w + B64 ^ ?k \<le> B64 ^ ?k * 2 ^ (8 * lb)" by (simp only: distrib_left mult_1_right)
  moreover have "big_val (butlast (limbs b)) < B64 ^ ?k" using big_val_less [of "butlast (limbs b)"] by simp
  ultimately have "B64 ^ ?k * unat ?w + big_val (butlast (limbs b)) < B64 ^ ?k * 2 ^ (8 * lb)"
    by (intro add_lt_trans)
  moreover have "bval b = B64 ^ ?k * unat ?w + big_val (butlast (limbs b))"
    using big_val_append [of "butlast (limbs b)" "[?w]"] b by simp
  moreover have "B64 ^ ?k * 2 ^ (8 * lb) = 2 ^ (64 * ?k + 8 * lb)" unfolding B64_def power_mult [symmetric] power_add ..
  moreover have "64 * ?k + 8 * lb = 8 * byte_len b" unfolding l by simp
  moreover have "(2 :: nat) ^ (8 * byte_len b) = 256 ^ byte_len b" unfolding power_mult by simp
  ultimately show ?thesis by (simp only:)
qed

lemma length_to_bytes_le:
  assumes "limbs b \<noteq> []" "bval b < 256 ^ n" "0 < n" shows "length (to_bytes b) \<le> n"
proof (rule ccontr)
  assume a: "\<not> length (to_bytes b) \<le> n"
  then have "hd (to_bytes b) \<noteq> 0" "to_bytes b \<noteq> []"
    using be_min_to_bytes [OF assms(1)] assms(3) by (auto simp: be_min_def)
  then have "256 ^ (length (to_bytes b) - 1) \<le> bval b" using be_nat_lower [of "to_bytes b"] by simp
  moreover have "(256 :: nat) ^ n \<le> 256 ^ (length (to_bytes b) - 1)" using a by (intro power_increasing) simp_all
  ultimately show False using assms(2) by linarith
qed

lemma be_nat_replicate_0 [simp]: "be_nat (replicate n 0 @ bs) = be_nat bs"
  by (induction n) simp_all

lemma sign_then_recover:
  assumes k: "rsa_key_ok k" and m: "m < bval (key_n k)"
    and s: "bval s = m ^ bval (key_d k) mod bval (key_n k)"
  shows "bval (mod_exp s (key_e k) (key_n k)) = m"
proof -
  let ?p = "bval (key_p k)" and ?q = "bval (key_q k)" and ?e = "bval (key_e k)" and ?d = "bval (key_d k)"
  note K = k [unfolded rsa_key_ok_def]
  have pr: "is_prime ?p" "is_prime ?q" "2 < ?p" "2 < ?q" "?p \<noteq> ?q"
    and n: "bval (key_n k) = ?p * ?q"
    and de: "?d * ?e mod ((?p - 1) * (?q - 1)) = 1" using K by (simp_all add: mult.commute)
  have v: "bval (mod_exp s (key_e k) (key_n k)) = (m ^ ?d) ^ ?e mod (?p * ?q)"
    using mod_exp_val(1) [OF key_bounds(2,1) [OF k]] s n by (simp add: power_mod)
  have "(m ^ ?d) ^ ?e mod (?p * ?q) = m"
  proof (rule residues_two_primes [OF pr(1,2,5)])
    show "(m ^ ?d) ^ ?e mod (?p * ?q) < ?p * ?q" using pr by simp
    show "m < ?p * ?q" using m n by simp
    have "(m ^ ?d) ^ ?e mod ?p = m mod ?p" by (rule exponent_mod_prime(2) [OF pr(1,3) de])
    then show "(m ^ ?d) ^ ?e mod (?p * ?q) mod ?p = m mod ?p" by (simp add: mod_mod_cancel)
    have "(m ^ ?d) ^ ?e mod ?q = m mod ?q"
      by (rule exponent_mod_prime(2) [OF pr(2,4) de [unfolded mult.commute [of "?p - 1"]]])
    then show "(m ^ ?d) ^ ?e mod (?p * ?q) mod ?q = m mod ?q" by (simp add: mod_mod_cancel)
  qed
  then show ?thesis using v by simp
qed

lemma verify_padded:
  "length digest + 10 \<le> 2 + n + length t \<Longrightarrow>
    pkcs1v15_verify_pad ([0x01] @ replicate n 0xff @ [0x00] @ t) digest \<longleftrightarrow>
    t = digest_info_prefix digest @ digest"
proof -
  assume l: "length digest + 10 \<le> 2 + n + length t"
  have w: "takeWhile (\<lambda>byte. byte = 0xff) (replicate n (0xff :: u8) @ 0 # t) = replicate n 0xff"
    by (subst takeWhile_append2) simp_all
  have a: "(replicate n (0xff :: u8) @ 0 # t) ! n = 0" by (simp add: nth_append)
  have "take (length p) t = p \<and> drop (length p) t = digest \<longleftrightarrow> t = p @ digest" for p
    by (metis append_eq_conv_conj)
  then show ?thesis
    using l w a by (simp add: pkcs1v15_verify_pad_def Let_def)
qed

definition digest_info :: "u8 list \<Rightarrow> u8 list" where
  "digest_info digest = digest_info_prefix digest @ digest"

lemma digest_info_prefix_length:
  "digest_info_prefix d \<noteq> [] \<Longrightarrow>
    length d = 20 \<and> length (digest_info_prefix d) = 15 \<or> length d \<in> {32, 48, 64} \<and> length (digest_info_prefix d) = 19"
  by (auto simp: digest_info_prefix_def split: if_splits)

lemma digest_info_prefix_cong: "length a = length b \<Longrightarrow> digest_info_prefix a = digest_info_prefix b"
  by (simp add: digest_info_prefix_def)

lemma digest_info_inj:
  assumes "digest_info_prefix a \<noteq> []" "digest_info_prefix b \<noteq> []" "digest_info a = digest_info b"
  shows "a = b"
proof -
  have "length (digest_info_prefix a) + length a = length (digest_info_prefix b) + length b"
    using arg_cong [OF assms(3), of length] by (simp add: digest_info_def)
  then have "length a = length b"
    using digest_info_prefix_length [OF assms(1)] digest_info_prefix_length [OF assms(2)] by auto
  then show ?thesis
    using assms(3) digest_info_prefix_cong [of a b] by (simp add: digest_info_def)
qed

lemma sign_verify:
  assumes k: "rsa_key_ok k" and s: "sign_pkcs1v15 k digest = Inr signature"
  shows "length signature = byte_len (key_n k)"
    "verify_pkcs1v15 (public_key k) other signature \<longleftrightarrow>
      length other + 10 < byte_len (key_n k) \<and> digest_info other = digest_info digest"
proof -
  let ?L = "byte_len (key_n k)" and ?t = "digest_info digest"
  define n where "n = ?L - length (digest_info_prefix digest) - length digest - 3"
  define M where "M = [0x01] @ replicate n (0xff :: u8) @ [0x00] @ ?t"
  let ?s = "mod_exp (from_bytes (0 # M)) (key_d k) (key_n k)"
  have big: "length (digest_info_prefix digest) + length digest + 3 \<le> ?L"
    and sig: "signature = to_bytes_padded ?s ?L"
    using s by (auto simp: sign_pkcs1v15_def pkcs1v15_sign_pad_def Let_def n_def M_def digest_info_def split: if_splits)
  have lm: "length M = ?L - 1" using big by (simp add: n_def M_def digest_info_def)
  have bm: "be_min M" by (simp add: M_def be_min_def)
  have m: "be_nat M < bval (key_n k)" using padded_below [OF k lm] by simp
  note me = mod_exp_val [OF key_bounds(2,1) [OF k]]
  have f0: "bval (from_bytes (0 # M)) = be_nat M" by simp
  have sv: "bval ?s = be_nat M ^ bval (key_d k) mod bval (key_n k)" unfolding me(1) f0 ..
  have "bval ?s < bval (key_n k)" unfolding sv using key_bounds(1) [OF k] by simp
  then have "bval ?s < 256 ^ ?L" using byte_len_upper [OF key_bounds(2) [OF k]] by linarith
  then have "length (to_bytes ?s) \<le> ?L"
    using me(2) big by (intro length_to_bytes_le) (simp_all add: bnorm_ne)
  then show "length signature = ?L" unfolding sig by (simp add: to_bytes_padded_def Let_def)
  have "bval (from_bytes signature) = bval ?s"
    unfolding sig by (simp add: to_bytes_padded_def Let_def)
  then have "bval (mod_exp (from_bytes signature) (key_e k) (key_n k)) = be_nat M"
    by (intro sign_then_recover [OF k m]) (simp only: sv)
  then have r: "to_bytes (mod_exp (from_bytes signature) (key_e k) (key_n k)) = M"
    using me(2) bm by (intro to_bytes_from_bytes) (simp_all add: bnorm_ne)
  have v: "verify_pkcs1v15 (public_key k) d signature \<longleftrightarrow> pkcs1v15_verify_pad M d" for d
    unfolding verify_pkcs1v15_def public_key_def using r by simp
  have lt: "2 + n + length ?t = ?L - 1" using lm by (simp add: M_def)
  show "verify_pkcs1v15 (public_key k) other signature \<longleftrightarrow>
      length other + 10 < ?L \<and> digest_info other = digest_info digest"
  proof (cases "length other + 10 < ?L")
    case True
    then show ?thesis unfolding v M_def using verify_padded [of other n ?t] lt by (auto simp: digest_info_def)
  next
    case False
    then have "length M < length other + 10" using lm big by linarith
    then show ?thesis unfolding v using False by (simp only: pkcs1v15_verify_pad_def if_True simp_thms)
  qed
qed

section \<open>Keys exist\<close>

lemma biguint_of_nat: "\<exists>b. bnorm b \<and> bval b = v"
proof -
  have bytes: "\<exists>bs. be_nat bs = v \<and> bs \<noteq> []" for v
  proof (induction v rule: less_induct)
    case (less v)
    show ?case
    proof (cases "v < 256")
      case True
      then have "be_nat [of_nat v] = v" by (simp add: be_nat_Cons unat_of_nat)
      then show ?thesis by blast
    next
      case False
      then obtain bs where bs: "be_nat bs = v div 256" using less.IH [of "v div 256"] by auto
      have "be_nat (bs @ [of_nat (v mod 256)]) = v"
        by (simp add: be_nat_append bs be_nat_Cons unat_of_nat)
      then show ?thesis by blast
    qed
  qed
  then obtain bs where "be_nat bs = v" "bs \<noteq> []" by blast
  then show ?thesis by (intro exI [of _ "from_bytes bs"]) (simp add: norm_from_bytes)
qed

lemma minus_one_squared: "2 \<le> m \<Longrightarrow> (m - 1) * (m - 1) mod m = 1" for m :: nat
proof -
  assume "2 \<le> m"
  then obtain j where j: "m = Suc (Suc j)" by (metis Suc_le_D numeral_2_eq_2 Suc_le_mono)
  have "(m - 1) * (m - 1) = 1 + j * m" unfolding j by simp
  then show ?thesis using j by (simp only: mod_mult_self1 mod_less)
qed

text \<open>With \<open>e = d = (p - 1) (q - 1) - 1\<close> two distinct primes above any bound give a key.\<close>

lemma rsa_key_exists: "\<exists>k. rsa_key_ok k \<and> N \<le> byte_len (key_n k)"
proof -
  obtain p where p: "is_prime p" "2 + 256 ^ N < p" using prime_above by blast
  obtain q where q: "is_prime q" "p < q" using prime_above by blast
  let ?phi = "(p - 1) * (q - 1)"
  have big: "2 < p" "2 < q" using p q by linarith+
  obtain P where P: "bnorm P" "bval P = p" using biguint_of_nat by blast
  obtain Q where Q: "bnorm Q" "bval Q = q" using biguint_of_nat by blast
  obtain M where M: "bnorm M" "bval M = p * q" using biguint_of_nat by blast
  obtain E where E: "bnorm E" "bval E = ?phi - 1" using biguint_of_nat by blast
  obtain DP where DP: "bnorm DP" "bval DP = (?phi - 1) mod (p - 1)" using biguint_of_nat by blast
  obtain DQ where DQ: "bnorm DQ" "bval DQ = (?phi - 1) mod (q - 1)" using biguint_of_nat by blast
  have "\<not> p dvd q"
  proof
    assume "p dvd q"
    then have "p = 1 \<or> p = q" using q(1) unfolding is_prime_def by blast
    then show False using big q(2) by linarith
  qed
  then have "coprime q p" using prime_coprime [OF p(1)] coprime_commute by blast
  then have "gcd q p mod p = 1" using big by (simp add: coprime_imp_gcd_eq_1)
  then obtain I where I: "bnorm I" "bval I * q mod p = 1"
    using mod_inverse_val [OF Q(1) P(1)] P(2) Q(2) big by auto
  have phi: "2 \<le> ?phi" using mult_le_mono [of 1 "p - 1" 2 "q - 1"] big by simp
  have ed: "(?phi - 1) * (?phi - 1) mod ?phi = 1" by (rule minus_one_squared [OF phi])
  define k where "k = \<lparr>key_n = M, key_e = E, key_d = E, key_p = P, key_q = Q, key_dp = DP, key_dq = DQ, key_qi = I\<rparr>"
  have "rsa_key_ok k"
    unfolding rsa_key_ok_def k_def rsa_private_key.simps P Q M E DP DQ using p q big ed I DP(1) DQ(1) E(1) M(1) P(1) Q(1) by simp
  moreover have "N \<le> byte_len M"
  proof (rule ccontr)
    assume "\<not> N \<le> byte_len M"
    then have "(256 :: nat) ^ byte_len M \<le> 256 ^ N" by (intro power_increasing) simp_all
    moreover have "p * 1 \<le> p * q" using big by (intro mult_le_mono2) simp
    ultimately show False using byte_len_upper [OF M(1)] M(2) p(2) by linarith
  qed
  ultimately show ?thesis by (auto simp: k_def)
qed

section \<open>Properties\<close>

text \<open>A small key, to show that the hypotheses on keys can hold.\<close>

definition sample_key :: rsa_private_key where
  "sample_key = \<lparr>key_n = big_from 16850989, key_e = big_from 7, key_d = big_from 4812223, key_p = big_from 4099, key_q = big_from 4111,
     key_dp = big_from 1171, key_dq = big_from 3523, key_qi = big_from 1708\<rparr>"

lemma sample_key_ok: "rsa_key_ok sample_key" "byte_len (key_n sample_key) = 4"
proof -
  have l: "{2..64} = set [2..<65 :: nat]" by (subst set_upt) auto
  have p: "is_prime 4099" by (rule is_prime_trial [where k = 64], simp, simp, unfold l) simp
  have q: "is_prime 4111" by (rule is_prime_trial [where k = 64], simp, simp, unfold l) simp
  show "rsa_key_ok sample_key" unfolding rsa_key_ok_def sample_key_def using p q by simp
  show "byte_len (key_n sample_key) = 4" by code_simp
qed

text \<open>
  C19: RSA decryption inverts encryption: for a well-formed key (distinct odd primes, exponents
  inverse modulo \<open>(p - 1) (q - 1)\<close>, and the matching remainder-theorem values) and a
  generator that from every state sometime yields a byte other than zero, encrypting
  returns, and decrypting the result gives back every plaintext that is at least three
  bytes shorter than the modulus.  A longer plaintext is not reported: the ciphertext is the
  single byte 0, which decrypts to nothing.
\<close>

theorem rsa_decrypts_encrypted:
  assumes "rsa_key_ok k" "lively fill"
  shows "\<exists>ct g1. rsa_encrypt fill (public_key k) data g = Some (ct, g1)
    \<and> (if length data + 3 \<le> byte_len (key_n k) then rsa_decrypt k ct = data else ct = [0] \<and> rsa_decrypt k ct = [])"
proof (cases "length data + 3 \<le> byte_len (key_n k)")
  case True
  obtain ct g1 where c: "rsa_encrypt fill (public_key k) data g = Some (ct, g1)" using rsa_encrypt_returns [OF assms(2)] by blast
  from rsa_round_trip [OF assms(1) True c] c True show ?thesis by auto
next
  case False
  then have "byte_len (key_n k) < length data + 3" by simp
  from rsa_encrypt_oversized(1) [OF assms(1) this, of fill g] rsa_encrypt_oversized(2) [OF assms(1) this] False
  show ?thesis by simp
qed

theorem rsa_decrypts_encrypted_witness:
  "\<exists>ct g1. rsa_encrypt (\<lambda>g bs. (True, map (\<lambda>b. 1) bs, g)) (public_key sample_key) [42] () = Some (ct, g1)
     \<and> rsa_decrypt sample_key ct = [42]"
proof -
  have "requested_byte (\<lambda>g bs. (True, map (\<lambda>b. 1) bs, g)) 0 g \<noteq> 0" for g :: unit by simp
  then have "lively (\<lambda>(g :: unit) bs. (True, map (\<lambda>b. 1) bs, g))" unfolding lively_def by blast
  from rsa_decrypts_encrypted [OF sample_key_ok(1) this, of "[42]" "()"] sample_key_ok(2) show ?thesis by auto
qed

text \<open>
  C20: PKCS#1 v1.5 signatures: a digest of an unsupported length is refused.  A digest of 20,
  32, 48 or 64 bytes that fits is signed under a well-formed key; the signature has the
  length of the modulus, and among the digests of these lengths the public key verifies it
  for the signed one and for no other.
\<close>

theorem rsa_signature_verifies:
  assumes "rsa_key_ok k"
  shows "(length digest \<notin> {20, 32, 48, 64} \<longrightarrow> sign_pkcs1v15 k digest = Inl ''unsupported digest length'')
    \<and> (length digest \<in> {20, 32, 48, 64} \<and> length (digest_info digest) + 3 \<le> byte_len (key_n k) \<longrightarrow>
        (\<exists>signature. sign_pkcs1v15 k digest = Inr signature \<and> length signature = byte_len (key_n k)
          \<and> (\<forall>other. length other \<in> {20, 32, 48, 64} \<longrightarrow>
                (verify_pkcs1v15 (public_key k) other signature \<longleftrightarrow> other = digest))))"
proof (intro conjI impI)
  assume "length digest \<notin> {20, 32, 48, 64}"
  then show "sign_pkcs1v15 k digest = Inl ''unsupported digest length''"
    by (simp add: sign_pkcs1v15_def pkcs1v15_sign_pad_def digest_info_prefix_def)
next
  assume d: "length digest \<in> {20, 32, 48, 64} \<and> length (digest_info digest) + 3 \<le> byte_len (key_n k)"
  have ne: "digest_info_prefix x \<noteq> []" if "length x \<in> {20, 32, 48, 64}" for x
    using that by (auto simp: digest_info_prefix_def)
  have "\<not> byte_len (key_n k) < length (digest_info_prefix digest) + length digest + 3"
    using d by (simp add: digest_info_def)
  then obtain signature where s: "sign_pkcs1v15 k digest = Inr signature"
    using ne d by (simp add: sign_pkcs1v15_def pkcs1v15_sign_pad_def Let_def)
  have fits: "length digest + 10 < byte_len (key_n k)"
    using d digest_info_prefix_length [OF ne, of digest] by (auto simp: digest_info_def)
  have "verify_pkcs1v15 (public_key k) other signature \<longleftrightarrow> other = digest" if "length other \<in> {20, 32, 48, 64}" for other
    using sign_verify(2) [OF assms s, of other] digest_info_inj [OF ne ne, of other digest] that d fits by blast
  with s sign_verify(1) [OF assms s]
  show "\<exists>signature. sign_pkcs1v15 k digest = Inr signature \<and> length signature = byte_len (key_n k)
      \<and> (\<forall>other. length other \<in> {20, 32, 48, 64} \<longrightarrow> (verify_pkcs1v15 (public_key k) other signature \<longleftrightarrow> other = digest))"
    by blast
qed

theorem rsa_signature_verifies_witness:
  "\<exists>k signature. rsa_key_ok k \<and> sign_pkcs1v15 k (replicate 32 7) = Inr signature
     \<and> verify_pkcs1v15 (public_key k) (replicate 32 7) signature
     \<and> \<not> verify_pkcs1v15 (public_key k) (replicate 32 8) signature"
proof -
  obtain k where k: "rsa_key_ok k" "64 \<le> byte_len (key_n k)" using rsa_key_exists by blast
  have l: "length (replicate 32 7 :: u8 list) \<in> {20, 32, 48, 64}" "length (replicate 32 8 :: u8 list) \<in> {20, 32, 48, 64}"
    "length (digest_info (replicate 32 7)) + 3 \<le> byte_len (key_n k)" "replicate 32 (8 :: u8) \<noteq> replicate 32 7"
    using k(2) by (simp_all add: digest_info_def digest_info_prefix_def)
  from rsa_signature_verifies [OF k(1), of "replicate 32 7"] k(1) l show ?thesis by blast
qed

text \<open>
  Verification takes any digest: one of an unsupported length has an empty prefix, so the
  whole \<open>DigestInfo\<close> of a signed digest is accepted as another digest.
\<close>

lemma digest_info_accepted_as_digest:
  assumes "rsa_key_ok k" "sign_pkcs1v15 k digest = Inr signature" "length (digest_info digest) + 10 < byte_len (key_n k)"
    "length digest = 32"
  shows "verify_pkcs1v15 (public_key k) (digest_info digest) signature"
proof -
  have "length (digest_info digest) = 51" using assms(4) by (simp add: digest_info_def digest_info_prefix_def)
  then have "digest_info (digest_info digest) = digest_info digest"
    by (simp add: digest_info_def [of "digest_info digest"] digest_info_prefix_def)
  then show ?thesis using sign_verify(2) [OF assms(1,2)] assms(3) by simp
qed

end
