(* ===== verification/Rsa_Keys.thy ===== *)
theory Rsa_Keys
  imports Rsa_Laws
begin

text \<open>
  The keys of \<open>crypto/rsa.rs\<close>: the Miller-Rabin test always returns, and on a prime it
  answers yes exactly when none of its witnesses is zero; two distinct odd primes give a
  working key exactly when the public exponent is prime to \<open>(p - 1) (q - 1)\<close>, which the
  code does not check.
\<close>

section \<open>The Miller-Rabin test on primes\<close>

lemma low_bit: "limbs x \<noteq> [] \<Longrightarrow> limbs x ! 0 AND 1 = 0 \<longleftrightarrow> even (bval x)"
proof -
  assume "limbs x \<noteq> []"
  then obtain l ls where x: "limbs x = l # ls" by (cases "limbs x") auto
  have "l AND 1 = 0 \<longleftrightarrow> \<not> bit l 0" by (simp add: and_one_eq bit_0 even_iff_mod_2_eq_zero)
  moreover have "bit l 0 = bit (unat l) 0" by (simp add: bit_unsigned_iff)
  ultimately show ?thesis using x by (simp add: bit_0 B64_def)
qed

lemma halve_loop_val:
  assumes "bnorm x" "0 < bval x"
  shows "\<exists>d s. halve_loop x r = Some (d, r + s) \<and> bnorm d \<and> odd (bval d) \<and> bval x = 2 ^ s * bval d"
  using assms
proof (induction "bval x" arbitrary: x r rule: less_induct)
  case less
  note parity = low_bit [OF bnorm_ne [OF less.prems(1)]]
  show ?case
  proof (cases "even (bval x)")
    case True
    have half: "bval (big_shr x 1) < bval x" "0 < bval (big_shr x 1)" "bval x = 2 * bval (big_shr x 1)"
      unfolding big_shr_one(1) using True less.prems(2) by (auto elim!: evenE)
    from less.hyps [OF half(1) big_shr_one(2) [OF less.prems(1)] half(2), of "r + 1"]
    obtain d s where d: "halve_loop (big_shr x 1) (r + 1) = Some (d, r + 1 + s)" "bnorm d" "odd (bval d)"
      "bval (big_shr x 1) = 2 ^ s * bval d" by blast
    have "halve_loop x r = Some (d, r + Suc s)"
      using d(1) True by (subst halve_loop.simps) (simp add: parity)
    moreover have "bval x = 2 ^ Suc s * bval d" using half(3) d(4) by simp
    ultimately show ?thesis using d(2,3) by blast
  next
    case False
    then have "halve_loop x r = Some (x, r + 0)" by (subst halve_loop.simps) (simp add: parity)
    then show ?thesis using False less.prems(1) by (intro exI [of _ x] exI [of _ 0]) simp
  qed
qed

lemma square_loop_val:
  assumes "bnorm n" "0 < bval n" "bnorm m"
  shows "square_loop n m x k \<longleftrightarrow> (\<exists>j \<in> {1..k}. bval x ^ (2 ^ j) mod bval n = bval m)"
proof (induction k arbitrary: x)
  case (Suc k)
  let ?x1 = "mod_op (big_mul x x) n"
  note v = div_rem_val [OF assms(1,2)]
  have sq: "bval ?x1 ^ (2 ^ j) mod bval n = bval x ^ (2 ^ Suc j) mod bval n" for j
  proof -
    have "bval ?x1 ^ (2 ^ j) mod bval n = (bval x * bval x) ^ (2 ^ j) mod bval n" by (simp add: v(2) power_mod)
    also have "(bval x * bval x) ^ (2 ^ j) = bval x ^ (2 * 2 ^ j)" by (simp add: power_mult power2_eq_square)
    finally show ?thesis by simp
  qed
  have s0: "bval ?x1 = bval x ^ (2 ^ 1) mod bval n" using v(2) by (simp add: power2_eq_square)
  have "big_cmp ?x1 m = 0 \<longleftrightarrow> bval x ^ (2 ^ 1) mod bval n = bval m"
    using big_cmp_cases(2) [OF v(4) assms(3)] s0 by simp
  moreover have "(\<exists>j \<in> {1..k}. bval ?x1 ^ (2 ^ j) mod bval n = bval m) \<longleftrightarrow>
      (\<exists>j \<in> {2..Suc k}. bval x ^ (2 ^ j) mod bval n = bval m)"
    unfolding sq using image_Suc_atLeastAtMost [of 1 k] by (metis (no_types, lifting) One_nat_def Suc_1 image_iff imageI)
  moreover have "{1..Suc k} = insert 1 {2..Suc k}" by auto
  ultimately show ?case using Suc.IH [of ?x1] by (simp only: square_loop.simps Let_def) auto
qed simp

lemma roots_of_one:
  assumes "is_prime p" "y < p" "y ^ (2 ^ r) mod p = 1"
  shows "y = 1 \<or> (\<exists>j < r. y ^ (2 ^ j) mod p = p - 1)"
  using assms(3)
proof (induction r)
  case 0
  then show ?case using assms(2) by simp
next
  case (Suc r)
  let ?z = "y ^ (2 ^ r) mod p"
  have "y ^ (2 ^ Suc r) = y ^ (2 ^ r) * y ^ (2 ^ r)" by (simp add: mult_2 power_add)
  then have "?z * ?z mod p = 1" using Suc.prems by (simp add: mod_mult_eq)
  then have "?z = 1 \<or> ?z = p - 1" by (intro sqrt_one [OF assms(1)]) (use is_prime_pos [OF assms(1)] in simp_all)
  then show ?case using Suc.IH by (auto intro: less_SucI)
qed

primrec witness_at :: "'g random_fill \<Rightarrow> biguint \<Rightarrow> nat \<Rightarrow> 'g \<Rightarrow> biguint" where
  "witness_at fill n 0 g = fst (generate_witness fill n g)"
| "witness_at fill n (Suc i) g = witness_at fill n i (snd (generate_witness fill n g))"

lemma round_passes:
  fixes d a p :: nat
  assumes p: "is_prime p" "2 < p" and d: "p - 1 = 2 ^ r * d" "0 < r" "0 < d" and a: "a < p"
  defines "x \<equiv> a ^ d mod p"
  shows "x = 1 \<or> x = p - 1 \<or> (\<exists>j \<in> {1..r - 1}. x ^ (2 ^ j) mod p = p - 1) \<longleftrightarrow> a \<noteq> 0"
proof (cases "a = 0")
  case True
  then have "x = 0" using d(3) by (simp add: x_def power_0_left)
  then show ?thesis using True p(2) by (auto simp: power_0_left)
next
  case False
  have "\<not> p dvd a" using False a by (auto dest: dvd_imp_le)
  then have "a ^ (p - 1) mod p = 1" by (rule fermat_unit [OF p(1)])
  then have "x ^ (2 ^ r) mod p = 1" unfolding x_def d(1) by (simp add: power_mod mult.commute flip: power_mult)
  then have "x = 1 \<or> (\<exists>j < r. x ^ (2 ^ j) mod p = p - 1)"
    by (intro roots_of_one [OF p(1)]) (use p(2) x_def in simp_all)
  moreover have "x ^ (2 ^ 0) mod p = x" using p(2) by (simp add: x_def)
  ultimately show ?thesis using False by (metis One_nat_def Suc_leI Suc_pred atLeastAtMost_iff d(2) gr0I less_Suc_eq_le)
qed

lemma witness_rounds_prime:
  assumes n: "bnorm n" "is_prime (bval n)" "2 < bval n" and m: "bnorm m" "bval m = bval n - 1"
    and d: "bval n - 1 = 2 ^ r * bval d" "0 < r" "0 < bval d"
  shows "fst (witness_rounds fill n m d r k g) \<longleftrightarrow> (\<forall>i < k. bval (witness_at fill n i g) \<noteq> 0)"
proof (induction k arbitrary: g)
  case (Suc k)
  have n1: "1 < bval n" "0 < bval n" using n(3) by simp_all
  obtain a g1 where a: "generate_witness fill n g = (a, g1)" by fastforce
  then have av: "bval a < bval n"
    using n1 div_rem_val(2) [OF n(1) n1(2)] by (auto simp: generate_witness_def split: prod.splits)
  let ?x = "mod_exp a d n"
  note x = mod_exp_val [OF n(1) n1(1), of a d]
  have pass: "big_cmp ?x (big_from 1) = 0 \<or> big_cmp ?x m = 0 \<or> square_loop n m ?x (r - 1) \<longleftrightarrow> bval a \<noteq> 0"
    using round_passes [OF n(2,3) d av] square_loop_val [OF n(1) n1(2) m(1), of ?x "r - 1"]
      big_cmp_cases(2) [OF x(2) norm_from, of 1] big_cmp_cases(2) [OF x(2) m(1)] x(1) m(2) by simp
  have "(\<forall>i < Suc k. bval (witness_at fill n i g) \<noteq> 0) \<longleftrightarrow>
      bval a \<noteq> 0 \<and> (\<forall>i < k. bval (witness_at fill n i g1) \<noteq> 0)"
    by (simp add: All_less_Suc2 a)
  then show ?case using Suc.IH [of g1] pass by (simp add: a Let_def) blast
qed simp

lemma is_probably_prime_returns:
  assumes "bnorm n" shows "is_probably_prime fill n rounds g \<noteq> None"
proof (cases "bval n < 2 \<or> bval n = 2 \<or> bval n = 3 \<or> even (bval n)")
  case True
  then have "big_cmp n (big_from 2) < 0 \<or> big_cmp n (big_from 2) = 0 \<or> big_cmp n (big_from 3) = 0 \<or> limbs n ! 0 AND 1 = 0"
    using big_cmp_cases [OF assms norm_from, of 2] big_cmp_cases [OF assms norm_from, of 3] low_bit [OF bnorm_ne [OF assms]]
    by simp
  then show ?thesis by (auto simp: is_probably_prime_def simp del: not_None_eq)
next
  case False
  then have "0 < bval (big_sub n (big_from 1))" by simp
  from halve_loop_val [OF norm_big_sub [OF assms] this, of 0]
  obtain d s where "halve_loop (big_sub n (big_from 1)) 0 = Some (d, s)" by auto
  then show ?thesis by (simp add: is_probably_prime_def Let_def del: not_None_eq)
qed

lemma is_probably_prime_prime:
  assumes n: "bnorm n" "is_prime (bval n)" "3 < bval n"
  shows "\<exists>g1. is_probably_prime fill n rounds g = Some (\<forall>i < rounds. bval (witness_at fill n i g) \<noteq> 0, g1)"
proof -
  let ?m = "big_sub n (big_from 1)"
  have m: "bnorm ?m" "bval ?m = bval n - 1" "0 < bval ?m" using n by simp_all
  have odd: "odd (bval n)"
  proof
    assume "2 dvd bval n"
    then have "(2 :: nat) = 1 \<or> 2 = bval n" using n(2) unfolding is_prime_def by blast
    then show False using n(3) by simp
  qed
  obtain d s where d: "halve_loop ?m 0 = Some (d, s)" "odd (bval d)" "bval ?m = 2 ^ s * bval d"
    using halve_loop_val [OF m(1,3), of 0] by auto
  have "even (bval ?m)" unfolding m(2) using odd by simp
  then have "s \<noteq> 0" using d(2) unfolding d(3) by (cases s) auto
  then have s: "0 < s" "0 < bval d" using d(2) by (auto intro!: gr0I)
  have w: "fst (witness_rounds fill n ?m d s rounds g) \<longleftrightarrow> (\<forall>i < rounds. bval (witness_at fill n i g) \<noteq> 0)"
    using n(3) d(3) m(2) by (intro witness_rounds_prime [OF n(1,2) _ m(1,2) _ s]) simp_all
  have c: "\<not> big_cmp n (big_from 2) < 0" "big_cmp n (big_from 2) \<noteq> 0" "big_cmp n (big_from 3) \<noteq> 0"
    "limbs n ! 0 AND 1 \<noteq> 0"
    using big_cmp_cases(2,3) [OF n(1) norm_from, of 2] big_cmp_cases(2) [OF n(1) norm_from, of 3]
      low_bit [OF bnorm_ne [OF n(1)]] n(3) odd by simp_all
  have r: "is_probably_prime fill n rounds g = Some (witness_rounds fill n ?m d s rounds g)"
    unfolding is_probably_prime_def Let_def using c d(1) by simp
  show ?thesis unfolding r w [symmetric] by (rule exI [of _ "snd (witness_rounds fill n ?m d s rounds g)"]) simp
qed

section \<open>The key built from two primes\<close>

lemma gcd_mod_eq_one:
  fixes e m :: nat
  assumes "1 < m" shows "gcd e m mod m = 1 \<longleftrightarrow> coprime e m"
proof (cases "gcd e m = m")
  case False
  moreover have "gcd e m \<le> m" using assms by (intro gcd_le2_nat) simp
  ultimately show ?thesis by (simp add: coprime_iff_gcd_eq_1)
qed (use assms in \<open>auto simp: coprime_iff_gcd_eq_1\<close>)

lemma key_of_primes_ok:
  assumes p: "bnorm p" "is_prime (bval p)" "2 < bval p" and q: "bnorm q" "is_prime (bval q)" "2 < bval q"
  shows "\<exists>k. key_of_primes p q = Some k \<and> key_n k = big_mul p q \<and> bval (key_e k) = 65537
    \<and> (rsa_key_ok k \<longleftrightarrow> bval p \<noteq> bval q \<and> coprime 65537 ((bval p - 1) * (bval q - 1)))"
proof -
  let ?p1 = "big_sub p (big_from 1)" and ?q1 = "big_sub q (big_from 1)"
  let ?phi = "big_mul ?p1 ?q1" and ?e = "big_from 65537"
  have v: "bval ?p1 = bval p - 1" "bval ?q1 = bval q - 1" "bnorm ?p1" "bnorm ?q1" "0 < bval ?p1" "0 < bval ?q1" using p q by simp_all
  have phi: "bval ?phi = (bval p - 1) * (bval q - 1)" "bnorm ?phi" using v by simp_all
  have phi1: "1 < (bval p - 1) * (bval q - 1)" using p(3) q(3) by (metis less_diff_conv less_1_mult nat_1_add_1)
  have phi0: "0 < bval ?phi" unfolding phi(1) using phi1 by linarith
  have e: "bval ?e = 65537" by simp
  obtain d where d: "mod_inverse ?e ?phi = Some d" "bnorm d"
    "bval d * 65537 mod bval ?phi = gcd 65537 (bval ?phi) mod bval ?phi"
    using mod_inverse_val [OF norm_from phi(2) phi0, of 65537, unfolded e] by blast
  obtain i where i: "mod_inverse q p = Some i" "bnorm i" "bval i * bval q mod bval p = gcd (bval q) (bval p) mod bval p"
    using mod_inverse_val [OF q(1) p(1)] p(3) by auto
  have ed: "65537 * bval d mod ((bval p - 1) * (bval q - 1)) = 1 \<longleftrightarrow> coprime 65537 ((bval p - 1) * (bval q - 1))"
    using d(3) gcd_mod_eq_one [OF phi1, of 65537] unfolding phi(1) by (simp only: mult.commute [of 65537])
  have qi: "bval p \<noteq> bval q \<Longrightarrow> bval i * bval q mod bval p = 1"
  proof -
    assume "bval p \<noteq> bval q"
    then have "\<not> bval p dvd bval q" using p(2,3) q(2) by (auto simp: is_prime_def)
    then have "coprime (bval q) (bval p)" using prime_coprime [OF p(2)] coprime_commute by blast
    then have "gcd (bval q) (bval p) = 1" by (rule coprime_imp_gcd_eq_1)
    then show ?thesis using i(3) p(3) by simp
  qed
  note m = div_rem_val [OF v(3,5)] div_rem_val [OF v(4,6)]
  define k where "k = \<lparr>key_n = big_mul p q, key_e = ?e, key_d = d, key_p = p, key_q = q,
    key_dp = mod_op d ?p1, key_dq = mod_op d ?q1, key_qi = i\<rparr>"
  have "key_of_primes p q = Some k" unfolding key_of_primes_def Let_def d(1) i(1) k_def by simp
  moreover have "rsa_key_ok k \<longleftrightarrow> bval p \<noteq> bval q \<and> coprime 65537 ((bval p - 1) * (bval q - 1))"
    unfolding rsa_key_ok_def k_def rsa_private_key.simps e ed m v(1,2)
    using p q d(2) i(2) qi m(4,8) by auto
  moreover have "key_n k = big_mul p q" "bval (key_e k) = 65537" unfolding k_def by simp_all
  ultimately show ?thesis by blast
qed

section \<open>Properties\<close>

text \<open>
  C21: The Miller-Rabin test returns for every number, whatever the generator does.  An even
  number above 2 is composite to it, and for a prime above 3 its answer is yes exactly when
  none of the witnesses it draws is zero modulo the prime.
\<close>

theorem miller_rabin_on_primes:
  assumes "bnorm n"
  shows "is_probably_prime fill n rounds g \<noteq> None
    \<and> (even (bval n) \<and> 2 < bval n \<longrightarrow> is_probably_prime fill n rounds g = Some (False, g))
    \<and> (is_prime (bval n) \<and> 3 < bval n \<longrightarrow>
        (\<exists>g1. is_probably_prime fill n rounds g = Some (\<forall>i < rounds. bval (witness_at fill n i g) \<noteq> 0, g1)))"
proof (intro conjI impI)
  show "is_probably_prime fill n rounds g \<noteq> None" by (rule is_probably_prime_returns [OF assms])
  assume e: "even (bval n) \<and> 2 < bval n"
  then have "bval n \<noteq> 3" by auto
  then have "\<not> big_cmp n (big_from 2) < 0" "big_cmp n (big_from 2) \<noteq> 0" "big_cmp n (big_from 3) \<noteq> 0" "limbs n ! 0 AND 1 = 0"
    using big_cmp_cases(2,3) [OF assms norm_from, of 2] big_cmp_cases(2) [OF assms norm_from, of 3]
      low_bit [OF bnorm_ne [OF assms]] e by simp_all
  then show "is_probably_prime fill n rounds g = Some (False, g)" by (simp add: is_probably_prime_def)
next
  assume p: "is_prime (bval n) \<and> 3 < bval n"
  show "\<exists>g1. is_probably_prime fill n rounds g = Some (\<forall>i < rounds. bval (witness_at fill n i g) \<noteq> 0, g1)"
    by (rule is_probably_prime_prime [OF assms]) (use p in simp_all)
qed

theorem miller_rabin_on_primes_witness:
  "\<exists>g1. is_probably_prime (\<lambda>g bs. (True, map (\<lambda>b. 2) bs, g)) (big_from 7) 20 () = Some (True, g1)"
proof -
  let ?f = "\<lambda>(g :: unit) bs. (True, map (\<lambda>b. 2) bs :: u8 list, g)"
  have p: "is_prime (bval (big_from 7)) \<and> 3 < bval (big_from 7)"
    by (simp, rule is_prime_trial [where k = 2]) (simp, simp, code_simp)
  have l: "byte_len (big_from 7) = 1" by code_simp
  have v: "bnorm (big_from 7)" "0 < bval (big_from 7)" by simp_all
  have w: "bval (fst (generate_witness ?f (big_from 7) ())) \<noteq> 0"
    by (simp add: generate_witness_def l [simplified] div_rem_val(2) [OF v] be_nat_Cons)
  have "bval (witness_at ?f (big_from 7) i ()) \<noteq> 0" for i using w by (induction i) simp_all
  with miller_rabin_on_primes [OF v(1), where fill = ?f and rounds = 20 and g = "()"] p show ?thesis by auto
qed

text \<open>
  Key generation from two odd primes always returns a key with the modulus \<open>p q\<close> and the
  exponent 65537, and the key is well-formed exactly when the primes are distinct and 65537
  is prime to \<open>(p - 1) (q - 1)\<close>; the code tests neither.
\<close>

theorem generated_key_valid_iff:
  assumes "bnorm p" "is_prime (bval p)" "2 < bval p" "bnorm q" "is_prime (bval q)" "2 < bval q"
  shows "\<exists>k. key_of_primes p q = Some k \<and> key_n k = big_mul p q \<and> bval (key_e k) = 65537
    \<and> (rsa_key_ok k \<longleftrightarrow> bval p \<noteq> bval q \<and> coprime 65537 ((bval p - 1) * (bval q - 1)))"
  by (rule key_of_primes_ok [OF assms])

theorem generated_key_valid_iff_witness:
  "\<exists>k. key_of_primes (big_from 7) (big_from 11) = Some k \<and> rsa_key_ok k"
proof -
  have p: "is_prime (bval (big_from 7))" by (simp, rule is_prime_trial [where k = 2]) (simp, simp, code_simp)
  have q: "is_prime (bval (big_from 11))" by (simp, rule is_prime_trial [where k = 3]) (simp, simp, code_simp)
  have "coprime 65537 (60 :: nat)"
    unfolding coprime_iff_gcd_eq_1
    by (simp add: gcd_red_nat [of 65537 60] gcd_red_nat [of 60 17] gcd_red_nat [of 17 9] gcd_red_nat [of 9 8])
  moreover have "2 < bval (big_from 7)" "2 < bval (big_from 11)" by simp_all
  ultimately show ?thesis
    using generated_key_valid_iff [OF norm_from p _ norm_from q] by auto
qed

end
