(* ===== verification/Spec2Isabelle.thy ===== *)
theory Spec2Isabelle
  imports Ref_Mon App_Container Logon_Session Accounts Hash Hash_Kat Lznt1 Cell_Allocator File_Lock Pipe Ip_Path Cipher_Modes Rsa_Keys
begin

text \<open>
  Verification of parts of the nt61 kernel (\<^verbatim>\<open>src/nt61/src\<close>), a Rust implementation of the
  Windows NT 6.1 executive.  File names below are relative to that directory.

  \<^bold>\<open>The program and the theories.\<close>

  \<^item> \<open>Nt_Prelude\<close>: machine integers, index panics (\<open>rust_panic + 'a\<close>), little-endian byte forms,
    slices and searches over arrays, decimal text, and the pool allocator as a parameter: a script
    of answers and the number of live blocks.  Its locales \<open>byte_codec\<close>, \<open>append_store\<close>,
    \<open>editable_store\<close> and \<open>keyed_table\<close> are the interfaces the components below provide.
  \<^item> Security reference monitor (\<^verbatim>\<open>se/\<close>): \<open>Sid\<close> and \<open>Sid_Mgmt\<close> (\<^verbatim>\<open>sid.rs\<close>, \<^verbatim>\<open>sidmgmt.rs\<close>) identifiers,
    their byte and text form; \<open>Acl\<close> and \<open>Acl_Mgmt\<close> (\<^verbatim>\<open>acl.rs\<close>, \<^verbatim>\<open>aclmgmt.rs\<close>) the byte array of an
    access control list and the routines that edit it; \<open>Token\<close> and \<open>Token_Mgmt\<close> (\<^verbatim>\<open>token.rs\<close>,
    \<^verbatim>\<open>tokenmgmt.rs\<close>) tokens with their fixed arrays, filtering and adjusting; \<open>Sec_Desc\<close>
    (\<^verbatim>\<open>descriptor.rs\<close>) absolute descriptors; \<open>Integrity\<close> (\<^verbatim>\<open>integrity.rs\<close>) mandatory levels;
    \<open>Se_Access\<close> (\<^verbatim>\<open>seaccess.rs\<close>) the access check; \<open>Ref_Mon\<close> (\<^verbatim>\<open>refmon.rs\<close>) the monitor on subject
    contexts; \<open>App_Container\<close>, \<open>Logon_Session\<close>, \<open>Accounts\<close> (\<^verbatim>\<open>appcontainer.rs\<close>, \<^verbatim>\<open>logonsession.rs\<close>,
    \<^verbatim>\<open>users.rs\<close>, \<^verbatim>\<open>logon.rs\<close> and the account overlay of \<^verbatim>\<open>registry/cm.rs\<close>).
  \<^item> Digests: \<open>Hash_Stream\<close> holds the buffering that the digests share and the locale
    \<open>block_hash\<close>; \<open>Hash\<close> (\<^verbatim>\<open>crypto/hash.rs\<close>) has MD5, SHA-1, SHA-256, SHA-384, SHA-512 and HMAC;
    \<open>Hash_Kat\<close> evaluates one digest.
  \<^item> Ciphers (\<^verbatim>\<open>crypto/cipher.rs\<close>): \<open>Aes\<close> has the block ciphers AES-128 and AES-256 and the locale
    \<open>block_cipher\<close>, interpreted on both; \<open>Cipher_Modes\<close> has ECB, CBC, 3DES-CBC, CTR, GCM and RC4.
  \<^item> RSA (\<^verbatim>\<open>crypto/rsa.rs\<close>): \<open>Biguint\<close> has the operations on lists of 64-bit limbs, \<open>Biguint_Laws\<close>
    what they compute, \<open>Mod_Arith\<close> modular exponentiation and inversion, \<open>Prime_Facts\<close> the facts
    about primes the proofs need, \<open>Rsa\<close> keys, the primality test, padding, encryption and
    signatures, \<open>Rsa_Laws\<close> and \<open>Rsa_Keys\<close> their properties.
  \<^item> File systems: \<open>Lznt1\<close> (\<^verbatim>\<open>fs/ntfs/compression.rs\<close>) compression; \<open>Rust_Map\<close> the ordered map of the
    standard library and its locale \<open>lookup_map\<close>; \<open>File_Lock\<close> (\<^verbatim>\<open>fs/locking.rs\<close>) byte-range locks and
    oplocks.
  \<^item> Registry: \<open>Cell_Allocator\<close> (\<^verbatim>\<open>registry/cell_allocator.rs\<close>), the allocator of hive cells.
  \<^item> Communication: \<open>Fifo\<close>, the locale of lossless channels; \<open>Pipe\<close> (\<^verbatim>\<open>io/pipe.rs\<close>) anonymous pipes.
  \<^item> Network (\<^verbatim>\<open>netstack/\<close>): \<open>Routing\<close> (\<^verbatim>\<open>routing.rs\<close>) the routing table; \<open>Fragmentation\<close>
    (\<^verbatim>\<open>fragmentation.rs\<close>) cutting and reassembling; \<open>Ethernet\<close> (\<^verbatim>\<open>eth.rs\<close>) byte order and frames;
    \<open>Ipv4\<close> (\<^verbatim>\<open>ipv4.rs\<close>) headers, checksum, forwarding and the input routine; \<open>Ip_Path\<close> the way of a
    datagram from the sender to the receiver across these four.

  \<^bold>\<open>How state and operations correspond.\<close>  A Rust struct is a record with the same fields, an enum
  a datatype, a fixed array a list of that length, a global guarded by a lock or made of atomics a
  record that each operation takes and returns.  One call is one step: the code holds its spin lock
  for the whole call.  Null pointers are \<open>None\<close>, error results the left side of a sum, index panics
  a left \<open>rust_panic\<close>.  Integers have the width of the source and wrap, which is what the release
  profile of the crate does.  Clocks, random bytes and allocation results are arguments.

  \<^bold>\<open>What the lemmas show.\<close>  For the access check: the walk over the list is a bitwise decision, it
  does not depend on the order of the entries, it is monotone in the token, and filtering a token or
  lowering its level never gains access (the last two are proved here, across components).  For the
  lists: the byte array represents a list of entries, and validation, appending, searching and
  deleting refine the list operations.  For tokens, sessions and accounts: invariants of all
  operations, error branches included, and the exact result of each.  For the digests: every split
  into updates gives the digest of the whole message as the standard pads it.  For the ciphers: the
  block functions are inverse to each other, every mode restores what it encrypted, GCM opens exactly
  what it sealed, and the CTR key stream does not repeat.  For RSA: the limb operations are the
  arithmetic operations, decryption inverts encryption, a signature verifies for its digest and no
  other of a supported length, and the primality test accepts primes unless it draws a zero witness.
  For compression: the
  decoder inverts the encoder, and both loops end.  For the cell allocator: cells tile the hive
  after every sequence of calls.  For the locks: mutual exclusion of conflicting ranges.  For pipes:
  order, completeness and the bound of the buffer.  For the network: the lookup is a longest prefix
  match, parsing inverts building, the checksum detects word changes, and a payload sent in packets
  arrives unchanged in whatever order they come.  Where the code does something its comments or its
  purpose deny, a lemma shows the case in general or evaluates one.

  \<^bold>\<open>Bounds and fuel.\<close>  No function uses fuel: loops are structural recursions or have a termination
  proof by a measure.  The loops that may not end, in \<open>fragment_packet\<close> and in the arithmetic and the
  random draws of RSA, are partial functions with values in \<open>option\<close>, \<open>None\<close> standing for not
  returning.  It is proved exactly when \<open>fragment_packet\<close> returns; inversion and the primality test
  are proved to return always, and encryption whenever the generator from every state sometime yields
  a byte other than zero.  The search for a prime is only stated, not proved to end.  Hypotheses that bound a counter (pipe identifiers, lock keys, hive sizes) say
  that the machine integer has not wrapped; the theorems on wrap-around show what happens otherwise.

  \<^bold>\<open>Not modelled.\<close>  Architecture code, drivers, the boot path and the memory manager act on registers,
  page tables and device memory.  The scheduler and dispatcher objects are concurrent below the level
  of one lock.  The user-mode libraries, servers and the desktop mostly issue system calls.  The
  random generators read hardware counters, and the PSS encoding of RSA signatures is left out.  The
  object manager, process structures, file systems on disk, hive files and network protocols other
  than the parts named above are left out; the manifest lists every part.
\<close>

section \<open>Tokens and the access check together\<close>

lemma mandatory_check_weaker:
  "weaker t' t \<Longrightarrow> se_check_mandatory_integrity (Some t') l d = se_check_mandatory_integrity (Some t) l d"
  by (simp add: weaker_def se_check_mandatory_integrity_def se_token_integrity_level_def)

lemma access_check_present:
  assumes "sd_control sd AND SE_DACL_PRESENT \<noteq> 0"
  shows "se_access_check ty (Some sd) d (Some t) p =
    (if se_check_mandatory_integrity (Some t) (se_get_object_integrity_level (Some sd)) d
     then (check_access_with_granted d t (sd_owner sd) (sd_dacl sd) (Some (get_generic_mapping_for_type ty)), p)
     else ((Denied, 0), p))"
  using assms by (simp add: se_access_check_def Let_def)

text \<open>
  C2: A filtered token never gains access: whatever \<^const>\<open>se_access_check\<close> allows the
  token that \<^const>\<open>se_filter_token\<close> returns, on an object with a DACL, it allows the
  token it was made from, with at least the same granted bits, and leaves the pool alone.
\<close>

theorem filtered_token_gains_nothing:
  assumes "wf_token e" "\<forall>s \<in> set restricted. wf_sid s"
    "se_filter_token (Some e) flags disabled deleted restricted st = (Some t, st')"
    "sd_control sd AND SE_DACL_PRESENT \<noteq> 0" "\<forall>a. sd_dacl sd = Some a \<longrightarrow> wf_acl a"
    "se_access_check ty (Some sd) d (Some t) p = ((Allowed, r'), p')"
  shows "\<exists>r. se_access_check ty (Some sd) d (Some e) p = ((Allowed, r), p) \<and> bits_le r' r"
proof -
  have t: "wf_token t" "weaker t e" using se_filter_token_Some [OF assms(3,1,2)] by simp_all
  have m: "se_check_mandatory_integrity (Some t) (se_get_object_integrity_level (Some sd)) d"
    and c: "check_access_with_granted d t (sd_owner sd) (sd_dacl sd) (Some (get_generic_mapping_for_type ty)) = (Allowed, r')"
    using assms(6) unfolding access_check_present [OF assms(4)] by (simp_all split: if_splits)
  obtain r where "check_access_with_granted d e (sd_owner sd) (sd_dacl sd) (Some (get_generic_mapping_for_type ty)) = (Allowed, r)"
    "bits_le r' r"
    by (rule check_access_weaker [OF t(2) assms(1) t(1) assms(5) c])
  with m show ?thesis
    unfolding access_check_present [OF assms(4)] by (simp add: mandatory_check_weaker [OF t(2)])
qed

theorem filtered_token_gains_nothing_witness:
  "\<exists>t st'. se_filter_token (Some sample_token) 0 [well_known Administrators] [] [] (boot [True]) = (Some t, st')
     \<and> (\<exists>r. se_access_check ObFile (Some (zeroed_sec_desc\<lparr>sd_control := SE_DACL_PRESENT\<rparr>)) 1 (Some sample_token)
           (se_pool (boot [])) = ((Allowed, r), se_pool (boot [])) \<and> bits_le 1 r)"
proof -
  let ?sd = "zeroed_sec_desc\<lparr>sd_control := SE_DACL_PRESENT\<rparr>"
  obtain t st' where t: "se_filter_token (Some sample_token) 0 [well_known Administrators] [] [] (boot [True])
      = (Some t, st')"
    by (simp add: se_filter_token_def se_duplicate_token_def boot_def initial_counters_def pool_allocate_def)
  have c: "se_access_check ObFile (Some ?sd) 1 (Some t) (se_pool (boot [])) = ((Allowed, 1), se_pool (boot []))"
    by (simp add: se_access_check_def se_check_mandatory_integrity_def check_access_with_granted_def Let_def se_consts
        zeroed_sec_desc_def map_generic_def)
  have "\<exists>r. se_access_check ObFile (Some ?sd) 1 (Some sample_token) (se_pool (boot []))
      = ((Allowed, r), se_pool (boot [])) \<and> bits_le 1 r"
    by (rule filtered_token_gains_nothing [OF wf_sample_token _ t _ _ c])
      (simp_all add: se_consts zeroed_sec_desc_def)
  with t show ?thesis by blast
qed

text \<open>
  C33: No write-up across components: on an object that
  \<^const>\<open>se_set_object_integrity_level\<close> labelled above low, the token of
  \<^const>\<open>se_create_low_integrity_token\<close> is denied every request with a bit of the write
  mask, whatever the DACL says and without touching the pool.
\<close>

theorem low_token_cannot_write_up:
  assumes "wf_token e" "se_create_low_integrity_token (Some e) st = (Some t, st')"
    "se_set_object_integrity_level (Some sd) level policy p = (True, Some obj, p')"
    "SECURITY_MANDATORY_LOW_RID < level" "d AND WRITE_ACCESS_MASK \<noteq> 0"
  shows "se_access_check ty (Some obj) d (Some t) q = ((Denied, 0), q)"
  using low_integrity_token [OF assms(1,2)] object_level_round_trip(1) [OF assms(3)] assms(4,5)
  by (simp add: se_access_check_def se_check_mandatory_integrity_def se_token_integrity_level_def Let_def)

theorem low_token_cannot_write_up_witness:
  "\<exists>t st' obj p'. se_create_low_integrity_token (Some token_new) (boot [True]) = (Some t, st')
     \<and> se_set_object_integrity_level (Some zeroed_sec_desc) SECURITY_MANDATORY_MEDIUM_RID 1 (se_pool (boot [True]))
         = (True, Some obj, p')
     \<and> se_access_check ObFile (Some obj) ACCESS_GENERIC_WRITE (Some t) p' = ((Denied, 0), p')"
proof -
  obtain t st' where t: "se_create_low_integrity_token (Some token_new) (boot [True]) = (Some t, st')"
    by (simp add: se_create_low_integrity_token_def se_duplicate_token_def boot_def initial_counters_def
        pool_allocate_def se_set_token_integrity_level_def Let_def)
  obtain a where a: "se_set_object_integrity_level (Some zeroed_sec_desc) SECURITY_MANDATORY_MEDIUM_RID 1
      (se_pool (boot [True])) = (case pool_allocate (se_pool (boot [True])) of
       (False, p1) \<Rightarrow> (False, Some zeroed_sec_desc, p1)
     | (True, p1) \<Rightarrow> (True, Some (zeroed_sec_desc\<lparr>sd_sacl := Some a,
         sd_control := sd_control zeroed_sec_desc OR SE_SACL_PRESENT\<rparr>), p1))"
    by (rule se_set_object_integrity_level_cases)
  then obtain obj p' where o: "se_set_object_integrity_level (Some zeroed_sec_desc) SECURITY_MANDATORY_MEDIUM_RID 1
      (se_pool (boot [True])) = (True, Some obj, p')"
    by (simp add: boot_def initial_counters_def pool_allocate_def)
  have "se_access_check ObFile (Some obj) ACCESS_GENERIC_WRITE (Some t) p' = ((Denied, 0), p')"
    by (rule low_token_cannot_write_up [OF wf_token_new t o]) (simp_all add: se_consts)
  with t o show ?thesis by blast
qed

text \<open>
  The no-write-up check looks at the request before generic rights are mapped, and its
  write mask lacks the generic-all bit.  On an object labelled above low with a null DACL,
  the low-integrity token is denied the full access of the object type when it names the
  rights, and is granted the same rights when it asks for them through generic-all.
\<close>

theorem generic_all_writes_up:
  assumes "wf_token e" "se_create_low_integrity_token (Some e) st = (Some t, st')"
    "se_set_object_integrity_level (Some sd) level policy p = (True, Some obj, p')"
    "SECURITY_MANDATORY_LOW_RID < level" "sd_control obj AND SE_DACL_PRESENT \<noteq> 0" "sd_dacl sd = None"
  shows "se_access_check ty (Some obj) ACCESS_GENERIC_ALL (Some t) q
      = ((Allowed, generic_all (get_generic_mapping_for_type ty)), q)
    \<and> se_access_check ty (Some obj) (generic_all (get_generic_mapping_for_type ty)) (Some t) q = ((Denied, 0), q)"
proof
  let ?gm = "get_generic_mapping_for_type ty"
  have g: "map_generic ?gm ACCESS_GENERIC_ALL = generic_all ?gm"
    by (simp add: map_generic_def Let_def se_consts)
  have d: "sd_dacl obj = None" using object_level_round_trip [OF assms(3)] assms(6) by simp
  have "se_check_mandatory_integrity (Some t) l ACCESS_GENERIC_ALL" for l
    by (simp add: se_check_mandatory_integrity_def Let_def se_consts)
  moreover have "check_access_with_granted ACCESS_GENERIC_ALL t (sd_owner obj) None (Some ?gm) = (Allowed, generic_all ?gm)"
    using g by (simp add: check_access_with_granted_def Let_def se_consts)
  ultimately show "se_access_check ty (Some obj) ACCESS_GENERIC_ALL (Some t) q = ((Allowed, generic_all ?gm), q)"
    by (simp add: access_check_present [OF assms(5)] d)
  have "generic_all ?gm AND WRITE_ACCESS_MASK \<noteq> 0"
    by (cases ty) (simp_all add: se_consts PROCESS_GENERIC_MAPPING_def THREAD_GENERIC_MAPPING_def
        DIRECTORY_GENERIC_MAPPING_def REGISTRY_GENERIC_MAPPING_def EVENT_GENERIC_MAPPING_def SEMAPHORE_GENERIC_MAPPING_def
        MUTANT_GENERIC_MAPPING_def SECTION_GENERIC_MAPPING_def TOKEN_GENERIC_MAPPING_def FILE_GENERIC_MAPPING_def
        DEFAULT_MAPPING_def generic_mapping_new_def)
  then show "se_access_check ty (Some obj) (generic_all ?gm) (Some t) q = ((Denied, 0), q)"
    using low_integrity_token [OF assms(1,2)] object_level_round_trip(1) [OF assms(3)] assms(4)
    by (simp add: se_access_check_def se_check_mandatory_integrity_def se_token_integrity_level_def Let_def)
qed

theorem generic_all_writes_up_witness:
  "\<exists>t st' obj p'. se_create_low_integrity_token (Some token_new) (boot [True]) = (Some t, st')
     \<and> se_set_object_integrity_level (Some (zeroed_sec_desc\<lparr>sd_control := SE_DACL_PRESENT\<rparr>)) SECURITY_MANDATORY_MEDIUM_RID 1
         (se_pool (boot [True])) = (True, Some obj, p')
     \<and> se_access_check ObFile (Some obj) ACCESS_GENERIC_ALL (Some t) p'
         = ((Allowed, generic_all FILE_GENERIC_MAPPING), p')"
proof -
  let ?sd = "zeroed_sec_desc\<lparr>sd_control := SE_DACL_PRESENT\<rparr>"
  obtain t st' where t: "se_create_low_integrity_token (Some token_new) (boot [True]) = (Some t, st')"
    by (simp add: se_create_low_integrity_token_def se_duplicate_token_def boot_def initial_counters_def
        pool_allocate_def se_set_token_integrity_level_def Let_def)
  obtain a where a: "se_set_object_integrity_level (Some ?sd) SECURITY_MANDATORY_MEDIUM_RID 1
      (se_pool (boot [True])) = (case pool_allocate (se_pool (boot [True])) of
       (False, p1) \<Rightarrow> (False, Some ?sd, p1)
     | (True, p1) \<Rightarrow> (True, Some (?sd\<lparr>sd_sacl := Some a, sd_control := sd_control ?sd OR SE_SACL_PRESENT\<rparr>), p1))"
    by (rule se_set_object_integrity_level_cases)
  then obtain obj p' where o: "se_set_object_integrity_level (Some ?sd) SECURITY_MANDATORY_MEDIUM_RID 1
      (se_pool (boot [True])) = (True, Some obj, p')" "sd_control obj = SE_DACL_PRESENT OR SE_SACL_PRESENT"
    by (simp add: boot_def initial_counters_def pool_allocate_def)
  have "se_access_check ObFile (Some obj) ACCESS_GENERIC_ALL (Some t) p'
      = ((Allowed, generic_all (get_generic_mapping_for_type ObFile)), p')"
    using generic_all_writes_up [OF wf_token_new t o(1)] o(2) by (simp add: se_consts zeroed_sec_desc_def)
  with t o show ?thesis by auto
qed

end
